(* ===== verification/Hermit_Prelude.thy ===== *)
theory Hermit_Prelude
  imports Main "HOL-Library.AList"
begin

text \<open>
  Shared vocabulary of the development: the byte strings and command vectors every component
  passes around, the faults a C++ operation can end in, 64-bit signed arithmetic, and the decimal
  conversions of the standard library (\<^verbatim>\<open>std::to_string\<close>, \<^verbatim>\<open>std::from_chars\<close>,
  \<^verbatim>\<open>std::tolower\<close>, \<^verbatim>\<open>std::toupper\<close>) that the sources use. A \<^verbatim>\<open>std::string\<close> is a list of
  8-bit characters, \<^verbatim>\<open>int64_t\<close> is \<^typ>\<open>int\<close> with the range written out, \<^verbatim>\<open>std::size_t\<close> is
  \<^typ>\<open>nat\<close> (no container here outgrows the address space).
\<close>

named_theorems resp_defs \<open>the reply constructors of resp_writer.cpp\<close>
named_theorems i64_simps \<open>bounds of 64-bit signed integers\<close>

section \<open>Types shared by the components\<close>

type_synonym command = "string list"

text \<open>
  What an operation that does not return normally ends in: \<^verbatim>\<open>std::bad_variant_access\<close> thrown by
  \<^verbatim>\<open>std::get\<close>, \<^verbatim>\<open>front()\<close> or \<^verbatim>\<open>back()\<close> of an empty deque, or signed overflow. The last two are
  undefined behaviour in C++; the model gives them a value of their own so that a theorem can say
  that they do, or do not, happen.
\<close>

datatype fault = Bad_variant_access | Bad_optional_access | Empty_deque | Signed_overflow

type_synonym 'a result = "fault + 'a"

fun bind_res :: "'a result \<Rightarrow> ('a \<Rightarrow> 'b result) \<Rightarrow> 'b result" where
  "bind_res (Inl e) f = Inl e"
| "bind_res (Inr x) f = f x"

lemma bind_res_Inr_iff:
  "bind_res r f = Inr y \<longleftrightarrow> (\<exists>x. r = Inr x \<and> f x = Inr y)"
  by (cases r) auto

lemma bind_res_case: "bind_res r f = (case r of Inl e \<Rightarrow> Inl e | Inr x \<Rightarrow> f x)"
  by (cases r) auto

lemma bind_res_assoc: "bind_res (bind_res r f) g = bind_res r (\<lambda>x. bind_res (f x) g)"
  by (cases r) auto

text \<open>
  No fault but signed overflow, and a result with a property otherwise. The other faults are bugs
  of the caller; overflow depends on the numbers a client sends.
\<close>

definition safe :: "('a \<Rightarrow> bool) \<Rightarrow> 'a result \<Rightarrow> bool" where
  "safe P r \<longleftrightarrow> (case r of Inl f \<Rightarrow> f = Signed_overflow | Inr x \<Rightarrow> P x)"

lemma safe_simps [simp]: "safe P (Inl f) \<longleftrightarrow> f = Signed_overflow" "safe P (Inr x) \<longleftrightarrow> P x"
  by (simp_all add: safe_def)

lemma safe_bind: "safe P r \<Longrightarrow> (\<And>x. P x \<Longrightarrow> safe Q (f x)) \<Longrightarrow> safe Q (bind_res r f)"
  by (cases r) auto

lemma safe_mono: "safe P r \<Longrightarrow> (\<And>x. P x \<Longrightarrow> Q x) \<Longrightarrow> safe Q r"
  by (cases r) auto

section \<open>64-bit signed integers\<close>

definition i64_min :: int where
  "i64_min = - (2 ^ 63)"

definition i64_max :: int where
  "i64_max = 2 ^ 63 - 1"

definition in_i64 :: "int \<Rightarrow> bool" where
  "in_i64 n \<longleftrightarrow> i64_min \<le> n \<and> n \<le> i64_max"

text \<open>An \<^verbatim>\<open>int64_t\<close> operation whose mathematical result is \<open>n\<close>.\<close>

definition checked_i64 :: "int \<Rightarrow> int result" where
  "checked_i64 n = (if in_i64 n then Inr n else Inl Signed_overflow)"

lemma i64_bounds [i64_simps]:
  "i64_min = - 9223372036854775808" "i64_max = 9223372036854775807"
  by (simp_all add: i64_min_def i64_max_def)

lemma in_i64_iff [i64_simps]:
  "in_i64 n \<longleftrightarrow> - 9223372036854775808 \<le> n \<and> n \<le> 9223372036854775807"
  by (simp add: in_i64_def i64_bounds)

lemma checked_i64_Inr [simp]: "checked_i64 n = Inr m \<longleftrightarrow> in_i64 n \<and> m = n"
  by (auto simp: checked_i64_def)

lemma checked_i64_in [simp]: "in_i64 n \<Longrightarrow> checked_i64 n = Inr n"
  by (simp add: checked_i64_def)

lemma safe_checked_i64: "safe (\<lambda>m. m = n \<and> in_i64 n) (checked_i64 n)"
  by (simp add: checked_i64_def)

section \<open>Characters\<close>

abbreviation CR :: char where "CR \<equiv> CHR 0x0D"
abbreviation LF :: char where "LF \<equiv> CHR 0x0A"
abbreviation crlf :: string where "crlf \<equiv> [CR, LF]"

definition is_digit :: "char \<Rightarrow> bool" where
  "is_digit c \<longleftrightarrow> 48 \<le> (of_char c :: nat) \<and> (of_char c :: nat) \<le> 57"

definition digit_val :: "char \<Rightarrow> nat" where
  "digit_val c = of_char c - 48"

definition digit_char :: "nat \<Rightarrow> char" where
  "digit_char d = char_of (48 + d)"

text \<open>\<^verbatim>\<open>std::toupper\<close> and \<^verbatim>\<open>std::tolower\<close> in the C locale: ASCII letters only.\<close>

definition toupper :: "char \<Rightarrow> char" where
  "toupper c = (let n = (of_char c :: nat) in if 97 \<le> n \<and> n \<le> 122 then char_of (n - 32) else c)"

definition tolower :: "char \<Rightarrow> char" where
  "tolower c = (let n = (of_char c :: nat) in if 65 \<le> n \<and> n \<le> 90 then char_of (n + 32) else c)"

lemma of_char_digit_char: "d < 10 \<Longrightarrow> (of_char (digit_char d) :: nat) = 48 + d"
  by (simp add: digit_char_def)

lemma is_digit_digit_char [simp]: "d < 10 \<Longrightarrow> is_digit (digit_char d)"
  by (simp add: is_digit_def of_char_digit_char)

lemma digit_val_digit_char [simp]: "d < 10 \<Longrightarrow> digit_val (digit_char d) = d"
  by (simp add: digit_val_def of_char_digit_char)

lemma not_digit_chars [simp]:
  "\<not> is_digit CR" "\<not> is_digit LF" "\<not> is_digit (CHR ''-'')" "\<not> is_digit (CHR '' '')"
  by (simp_all add: is_digit_def)

section \<open>Decimal printing and parsing\<close>

fun nat_to_string :: "nat \<Rightarrow> string" where
  "nat_to_string n =
     (if n < 10 then [digit_char n] else nat_to_string (n div 10) @ [digit_char (n mod 10)])"

declare nat_to_string.simps [simp del]

definition to_string :: "int \<Rightarrow> string" where
  "to_string n =
     (if n < 0 then CHR ''-'' # nat_to_string (nat (- n)) else nat_to_string (nat n))"

definition digits_val :: "string \<Rightarrow> nat" where
  "digits_val ds = foldl (\<lambda>a c. 10 * a + digit_val c) 0 ds"

text \<open>
  \<^verbatim>\<open>std::from_chars(first, last, out)\<close> at base 10 into an \<^verbatim>\<open>int64_t\<close>: an optional minus sign, then
  the longest run of digits; the value and the unread rest, or nothing when there is no digit or
  the value does not fit.
\<close>

definition from_chars :: "string \<Rightarrow> (int \<times> string) option" where
  "from_chars s =
     (let neg = (s \<noteq> [] \<and> hd s = CHR ''-'');
          body = (if neg then tl s else s);
          ds = takeWhile is_digit body;
          v = (if neg then - int (digits_val ds) else int (digits_val ds))
      in if ds = [] \<or> \<not> in_i64 v then None else Some (v, dropWhile is_digit body))"

text \<open>The strict integer parse of \<^verbatim>\<open>commands.cpp\<close> and \<^verbatim>\<open>resp_parser.cpp\<close> (the same code twice).\<close>

definition parse_i64 :: "string \<Rightarrow> int option" where
  "parse_i64 s =
     (if s = [] then None
      else case from_chars s of
        None \<Rightarrow> None
      | Some (out, rest) \<Rightarrow> if rest = [] then Some out else None)"

lemma nat_to_string_digits: "c \<in> set (nat_to_string n) \<Longrightarrow> is_digit c"
proof (induction n rule: nat_to_string.induct)
  case (1 n)
  then show ?case
    by (subst (asm) (2) nat_to_string.simps) (auto split: if_splits)
qed

lemma nat_to_string_nonempty [simp]: "nat_to_string n \<noteq> []"
  by (subst nat_to_string.simps) simp

lemma digits_val_snoc: "digits_val (ds @ [c]) = 10 * digits_val ds + digit_val c"
  by (simp add: digits_val_def)

lemma digits_val_nat_to_string [simp]: "digits_val (nat_to_string n) = n"
proof (induction n rule: nat_to_string.induct)
  case (1 n)
  show ?case
  proof (cases "n < 10")
    case True
    then show ?thesis
      by (simp add: nat_to_string.simps [of n] digits_val_def)
  next
    case False
    with "1" show ?thesis
      by (simp add: nat_to_string.simps [of n] digits_val_snoc)
  qed
qed

lemma nat_to_string_takeWhile [simp]:
  "takeWhile is_digit (nat_to_string n) = nat_to_string n"
  "dropWhile is_digit (nat_to_string n) = []"
  by (simp_all add: takeWhile_eq_all_conv dropWhile_eq_Nil_conv nat_to_string_digits)

lemma hd_nat_to_string: "hd (nat_to_string n) \<noteq> CHR ''-''"
  by (metis hd_in_set nat_to_string_digits nat_to_string_nonempty not_digit_chars(3))

lemma parse_i64_to_string: "in_i64 n \<Longrightarrow> parse_i64 (to_string n) = Some n"
  by (auto simp: parse_i64_def from_chars_def to_string_def hd_nat_to_string Let_def)

lemma parse_i64_range: "parse_i64 s = Some n \<Longrightarrow> in_i64 n"
  by (auto simp: parse_i64_def from_chars_def Let_def split: if_splits option.splits)

lemma to_string_chars: "c \<in> set (to_string n) \<Longrightarrow> is_digit c \<or> c = CHR ''-''"
  by (auto simp: to_string_def dest: nat_to_string_digits split: if_splits)

lemma to_string_nonempty [simp]: "to_string n \<noteq> []"
  by (simp add: to_string_def)

lemma to_string_no_eol [simp]: "CR \<notin> set (to_string n)" "LF \<notin> set (to_string n)"
  using to_string_chars not_digit_chars by fastforce+

lemma to_string_inject [simp]: "to_string m = to_string n \<longleftrightarrow> m = n"
proof
  assume eq: "to_string m = to_string n"
  have digits: "nat_to_string a = nat_to_string b \<Longrightarrow> a = b" for a b
    by (metis digits_val_nat_to_string)
  have sign: "nat_to_string a \<noteq> CHR ''-'' # xs" for a xs
    by (metis hd_nat_to_string list.sel(1))
  show "m = n"
    using eq by (auto simp: to_string_def sign sign [symmetric] dest: digits split: if_splits)
qed simp

end
