(* ===== verification/Hermit_Interfaces.thy ===== *)
theory Hermit_Interfaces
  imports Hermit_Prelude
begin

text \<open>
  The contracts between the components, as locales: a keyed store (the keyspace and the TTL table
  are two implementations), a consumer of a byte stream that arrives in chunks (the parser, used by
  the connection loop and by log replay), a self-delimiting codec (the snapshot fields), and a service
  whose requests keep an invariant (the dispatcher). Each is interpreted on the definitions of the
  component that provides it.
\<close>

section \<open>Keyed stores\<close>

text \<open>
  A store of values under string keys: what \<^verbatim>\<open>std::unordered_map\<close> promises for the keyspace and what
  the dense vector with its index promises for the deadlines.
\<close>

locale keyed_store =
  fixes find :: "'m \<Rightarrow> string \<Rightarrow> 'v option"
    and put :: "string \<Rightarrow> 'v \<Rightarrow> 'm \<Rightarrow> 'm"
    and erase :: "string \<Rightarrow> 'm \<Rightarrow> 'm"
    and wf :: "'m \<Rightarrow> bool"
  assumes find_put: "wf m \<Longrightarrow> find (put k v m) = (find m)(k \<mapsto> v)"
    and find_erase: "wf m \<Longrightarrow> find (erase k m) = (find m)(k := None)"
    and wf_put: "wf m \<Longrightarrow> wf (put k v m)"
    and wf_erase: "wf m \<Longrightarrow> wf (erase k m)"
begin

lemma find_put_same: "wf m \<Longrightarrow> find (put k v m) k = Some v"
  by (simp add: find_put)

lemma find_put_other: "wf m \<Longrightarrow> k' \<noteq> k \<Longrightarrow> find (put k v m) k' = find m k'"
  by (simp add: find_put)

lemma find_erase_same: "wf m \<Longrightarrow> find (erase k m) k = None"
  by (simp add: find_erase)

lemma find_erase_other: "wf m \<Longrightarrow> k' \<noteq> k \<Longrightarrow> find (erase k m) k' = find m k'"
  by (simp add: find_erase)

lemma put_put: "wf m \<Longrightarrow> find (put k v (put k u m)) = find (put k v m)"
  by (simp add: find_put wf_put)

lemma put_commute:
  "wf m \<Longrightarrow> k \<noteq> k' \<Longrightarrow> find (put k v (put k' u m)) = find (put k' u (put k v m))"
  by (auto simp: find_put wf_put fun_upd_twist)

text \<open>Erasing a list of keys, one after the other, erases exactly those.\<close>

lemma wf_fold_erase: "wf m \<Longrightarrow> wf (fold erase ks m)"
  by (induction ks arbitrary: m) (auto intro: wf_erase)

lemma find_fold_erase: "wf m \<Longrightarrow> find (fold erase ks m) = find m |` (- set ks)"
proof (induction ks arbitrary: m)
  case Nil
  then show ?case by simp
next
  case (Cons k ks)
  then show ?case
    by (auto simp: wf_erase find_erase fun_eq_iff restrict_map_def)
qed

end

section \<open>Consumers of chunked input\<close>

text \<open>Feeding chunk after chunk, stopping at the first error.\<close>

fun feed_chunks ::
  "('s \<Rightarrow> 'b list \<Rightarrow> 'e + ('s \<times> 'c list)) \<Rightarrow> 's \<Rightarrow> 'b list list \<Rightarrow> 'e + ('s \<times> 'c list)" where
  "feed_chunks f s [] = Inr (s, [])"
| "feed_chunks f s (x # xs) =
     (case f s x of
        Inl e \<Rightarrow> Inl e
      | Inr (s1, cs1) \<Rightarrow>
          (case feed_chunks f s1 xs of
             Inl e \<Rightarrow> Inl e
           | Inr (s2, cs2) \<Rightarrow> Inr (s2, cs1 @ cs2)))"

definition prepend :: "'c list \<Rightarrow> 'e + ('s \<times> 'c list) \<Rightarrow> 'e + ('s \<times> 'c list)" where
  "prepend cs r = (case r of Inl e \<Rightarrow> Inl e | Inr (s, cs') \<Rightarrow> Inr (s, cs @ cs'))"

lemma prepend_simps [simp]:
  "prepend cs (Inl e) = Inl e" "prepend cs (Inr (s, ds)) = Inr (s, cs @ ds)"
  "prepend [] r = r"
  by (auto simp: prepend_def split: sum.split)

lemma prepend_prepend: "prepend cs (prepend ds r) = prepend (cs @ ds) r"
  by (auto simp: prepend_def split: sum.split)

lemma feed_chunks_Cons:
  "feed_chunks f s (x # xs) = (case f s x of Inl e \<Rightarrow> Inl e | Inr (s1, cs1) \<Rightarrow> prepend cs1 (feed_chunks f s1 xs))"
  by (auto simp: prepend_def split: sum.split prod.split)

locale chunked_feed =
  fixes step :: "'s \<Rightarrow> 'b list \<Rightarrow> 'e + ('s \<times> 'c list)"
    and ready :: "'s \<Rightarrow> bool"
  assumes step_append:
      "ready s \<Longrightarrow> step s a = Inr (s1, cs1) \<Longrightarrow> step s (a @ b) = prepend cs1 (step s1 b)"
    and step_Nil: "ready s \<Longrightarrow> step s [] = Inr (s, [])"
    and step_ready: "ready s \<Longrightarrow> step s a = Inr (s1, cs1) \<Longrightarrow> ready s1"
begin

text \<open>However the stream is cut, if the pieces are accepted the outcome is that of the whole.\<close>

lemma chunks_concat:
  "ready s \<Longrightarrow> feed_chunks step s xs = Inr (s', cs) \<Longrightarrow> step s (concat xs) = Inr (s', cs)"
proof (induction xs arbitrary: s cs)
  case Nil
  then show ?case by (simp add: step_Nil)
next
  case (Cons x xs)
  then obtain s1 cs1 cs2 where x: "step s x = Inr (s1, cs1)"
    and xs: "feed_chunks step s1 xs = Inr (s', cs2)" and cs: "cs = cs1 @ cs2"
    by (auto split: sum.splits)
  have "step s1 (concat xs) = Inr (s', cs2)"
    using Cons.IH Cons.prems(1) step_ready x xs by blast
  then show ?case
    using step_append [OF Cons.prems(1) x] by (simp add: cs)
qed

text \<open>Where every prefix is accepted, so is the stream in pieces.\<close>

lemma chunks_accepted:
  assumes "ready s" and "\<And>n. \<exists>r. step s (take n (concat xs)) = Inr r"
  shows "feed_chunks step s xs = step s (concat xs)"
  using assms
proof (induction xs arbitrary: s)
  case Nil
  then show ?case by (simp add: step_Nil)
next
  case (Cons x xs)
  obtain s1 cs1 where x: "step s x = Inr (s1, cs1)"
    using Cons.prems(2) [of "length x"] by auto
  have "\<exists>r. step s1 (take n (concat xs)) = Inr r" for n
  proof -
    obtain r where "step s (take (length x + n) (concat (x # xs))) = Inr r"
      using Cons.prems(2) by blast
    then have "prepend cs1 (step s1 (take n (concat xs))) = Inr r"
      using step_append [OF Cons.prems(1) x] by simp
    then show ?thesis
      by (cases "step s1 (take n (concat xs))") auto
  qed
  then have "feed_chunks step s1 xs = step s1 (concat xs)"
    using Cons.IH step_ready [OF Cons.prems(1) x] by blast
  then show ?case
    using step_append [OF Cons.prems(1) x] x by (simp add: feed_chunks_Cons del: feed_chunks.simps)
qed

lemma chunks_same:
  assumes "ready s" "concat xs = concat ys"
    and "feed_chunks step s xs = Inr (s1, cs1)" "feed_chunks step s ys = Inr (s2, cs2)"
  shows "s1 = s2 \<and> cs1 = cs2"
  using chunks_concat [OF assms(1,3)] chunks_concat [OF assms(1,4)] assms(2) by simp

end

section \<open>Codecs\<close>

text \<open>
  A self-delimiting encoding: decoding gives the value back and leaves what follows it, and an
  encoding that was cut short is rejected.
\<close>

fun dec_many :: "(string \<Rightarrow> ('a \<times> string) option) \<Rightarrow> nat \<Rightarrow> string \<Rightarrow> ('a list \<times> string) option" where
  "dec_many dec 0 s = Some ([], s)"
| "dec_many dec (Suc n) s =
     (case dec s of
        None \<Rightarrow> None
      | Some (x, s1) \<Rightarrow> map_option (\<lambda>(xs, s2). (x # xs, s2)) (dec_many dec n s1))"

locale codec =
  fixes enc :: "'a \<Rightarrow> string"
    and dec :: "string \<Rightarrow> ('a \<times> string) option"
    and ok :: "'a \<Rightarrow> bool"
  assumes dec_enc: "ok x \<Longrightarrow> dec (enc x @ r) = Some (x, r)"
    and dec_torn: "ok x \<Longrightarrow> n < length (enc x) \<Longrightarrow> dec (take n (enc x)) = None"
begin

lemma dec_enc_exact: "ok x \<Longrightarrow> dec (enc x) = Some (x, [])"
  using dec_enc [of x "[]"] by simp

text \<open>A field followed by the rest of a record: read the field, then the rest; torn anywhere, nothing.\<close>

lemma bind_enc: "ok x \<Longrightarrow> Option.bind (dec (enc x @ r)) (\<lambda>(x, f). F x f) = F x r"
  by (simp add: dec_enc)

lemma bind_torn:
  assumes "ok x" and "n < length (enc x @ b)" and "\<And>m. m < length b \<Longrightarrow> F x (take m b) = None"
  shows "Option.bind (dec (take n (enc x @ b))) (\<lambda>(x, f). F x f) = None"
proof (cases "n < length (enc x)")
  case True
  with assms(1) show ?thesis by (simp add: dec_torn)
next
  case False
  with assms show ?thesis by (simp add: dec_enc)
qed

lemma enc_inject: "ok x \<Longrightarrow> ok y \<Longrightarrow> enc x = enc y \<longleftrightarrow> x = y"
  by (metis dec_enc_exact option.inject prod.inject)

lemma many_enc: "list_all ok xs \<Longrightarrow> dec_many dec (length xs) (concat (map enc xs) @ r) = Some (xs, r)"
  by (induction xs) (simp_all add: dec_enc)

lemma many_torn:
  "list_all ok xs \<Longrightarrow> n < length (concat (map enc xs)) \<Longrightarrow>
     dec_many dec (length xs) (take n (concat (map enc xs))) = None"
proof (induction xs arbitrary: n)
  case (Cons x xs)
  show ?case
  proof (cases "n < length (enc x)")
    case True
    with Cons.prems dec_torn [of x n] show ?thesis by simp
  next
    case False
    with Cons show ?thesis by (simp add: dec_enc)
  qed
qed simp

end

section \<open>Services\<close>

text \<open>
  A service answers requests one at a time, each against the state the one before left. Its contract:
  a request never faults (overflow apart) on a state that satisfies the invariant, and keeps it.
\<close>

fun run_service :: "('c \<Rightarrow> 's \<Rightarrow> ('r \<times> 's) result) \<Rightarrow> 'c list \<Rightarrow> 's \<Rightarrow> ('r list \<times> 's) result" where
  "run_service step [] s = Inr ([], s)"
| "run_service step (c # cs) s =
     bind_res (step c s) (\<lambda>(r, s1). bind_res (run_service step cs s1) (\<lambda>(rs, s2). Inr (r # rs, s2)))"

lemma run_service_append:
  "run_service step (cs @ ds) s =
     bind_res (run_service step cs s) (\<lambda>(rs, s1).
       bind_res (run_service step ds s1) (\<lambda>(rs', s2). Inr (rs @ rs', s2)))"
proof (induction cs arbitrary: s)
  case Nil
  then show ?case by (auto simp: bind_res_case split: sum.splits)
next
  case (Cons c cs)
  then show ?case
    by (auto simp: bind_res_case split: sum.splits prod.splits)
qed

locale safe_service =
  fixes step :: "'c \<Rightarrow> 's \<Rightarrow> ('r \<times> 's) result"
    and inv :: "'s \<Rightarrow> bool"
  assumes step_safe: "inv s \<Longrightarrow> safe (\<lambda>(r, s'). inv s') (step c s)"
begin

lemma step_inv: "inv s \<Longrightarrow> step c s = Inr (r, s') \<Longrightarrow> inv s'"
  using step_safe [of s c] by simp

lemma run_safe: "inv s \<Longrightarrow> safe (\<lambda>(rs, s'). inv s' \<and> length rs = length cs) (run_service step cs s)"
proof (induction cs arbitrary: s)
  case (Cons c cs)
  show ?case
    unfolding run_service.simps
  proof (rule safe_bind [OF step_safe [OF Cons.prems]], clarify)
    fix r s1
    assume "inv s1"
    from Cons.IH [OF this] show "safe (\<lambda>(rs, s'). inv s' \<and> length rs = length (c # cs))
        (bind_res (run_service step cs s1) (\<lambda>(rs, s2). Inr (r # rs, s2)))"
      by (rule safe_bind) auto
  qed
qed simp

end

end
