(* ===== verification/Glob.thy ===== *)
theory Glob
  imports Hermit_Prelude
begin

text \<open>
  Glob matching for KEYS, the unnamed namespace of \<^verbatim>\<open>src/src/core/db.cpp\<close>: \<^verbatim>\<open>match_unit\<close> and the
  iterative \<^verbatim>\<open>glob_match\<close> with its single backtracking point. The lemmas prove that the loop returns
  on every input and that it decides the declarative meaning of the pattern, in which a star may
  stand for any run of characters.
\<close>

text \<open>Plain \<^verbatim>\<open>char\<close> is signed on the x86-64 ABI; range bounds are compared as such.\<close>

definition char_val :: "char \<Rightarrow> int" where
  "char_val c = (let n = (of_char c :: int) in if 128 \<le> n then n - 256 else n)"

section \<open>One pattern unit\<close>

text \<open>
  The scan of a bracket expression from \<open>k\<close> on: the position of the closing bracket, if any, and
  whether \<open>c\<close> was listed. \<open>bracket_lo\<close> is where the loop finds \<^verbatim>\<open>lo\<close>: past a backslash, if one
  escapes it.
\<close>

definition bracket_lo :: "string \<Rightarrow> nat \<Rightarrow> nat" where
  "bracket_lo pat k = (if pat ! k = CHR 0x5C \<and> k + 1 < length pat then k + 1 else k)"

lemma bracket_lo_ge: "k \<le> bracket_lo pat k"
  by (simp add: bracket_lo_def)

function bracket_scan :: "string \<Rightarrow> nat \<Rightarrow> char \<Rightarrow> nat \<Rightarrow> bool \<Rightarrow> nat option \<times> bool" where
  "bracket_scan pat j c k matched =
     (if k < length pat then
        if pat ! k = CHR '']'' \<and> k > j then (Some k, matched)
        else if bracket_lo pat k + 2 < length pat \<and> pat ! (bracket_lo pat k + 1) = CHR ''-'' \<and>
                pat ! (bracket_lo pat k + 2) \<noteq> CHR '']'' then
          bracket_scan pat j c (bracket_lo pat k + 3)
            (matched \<or> (char_val (pat ! bracket_lo pat k) \<le> char_val c \<and>
                        char_val c \<le> char_val (pat ! (bracket_lo pat k + 2))))
        else bracket_scan pat j c (bracket_lo pat k + 1) (matched \<or> pat ! bracket_lo pat k = c)
      else (None, matched))"
  by pat_completeness auto
termination
  by (relation "measure (\<lambda>(pat, j, c, k, matched). length pat - k)")
    (auto simp: bracket_lo_def)

declare bracket_scan.simps [simp del]

definition match_unit :: "string \<Rightarrow> nat \<Rightarrow> char \<Rightarrow> bool \<times> nat" where
  "match_unit pat pi c =
     (let pc = pat ! pi in
      if pc = CHR ''?'' then (True, pi + 1)
      else if pc = CHR 0x5C \<and> pi + 1 < length pat then (pat ! (pi + 1) = c, pi + 2)
      else if pc = CHR ''['' then
        let negate = (pi + 1 < length pat \<and> pat ! (pi + 1) = CHR ''^'');
            j = (if negate then pi + 2 else pi + 1)
        in (case bracket_scan pat j c j False of
              (None, _) \<Rightarrow> (c = CHR ''['', pi + 1)
            | (Some close, matched) \<Rightarrow> (if negate then \<not> matched else matched, close + 1))
      else (pc = c, pi + 1))"

section \<open>The matching loop\<close>

function skip_stars :: "string \<Rightarrow> nat \<Rightarrow> nat" where
  "skip_stars pat pi =
     (if pi < length pat \<and> pat ! pi = CHR ''*'' then skip_stars pat (pi + 1) else pi)"
  by pat_completeness auto
termination
  by (relation "measure (\<lambda>(pat, pi). length pat - pi)") auto

declare skip_stars.simps [simp del]

text \<open>\<^verbatim>\<open>star_pi == npos\<close> is \<open>None\<close>; not returning would be the outer \<open>None\<close>.\<close>

partial_function (option) glob_loop ::
  "string \<Rightarrow> string \<Rightarrow> nat \<Rightarrow> nat \<Rightarrow> nat option \<Rightarrow> nat \<Rightarrow> bool option" where
  "glob_loop pat str pi si star_pi star_si =
     (if si < length str then
        if pi < length pat \<and> pat ! pi = CHR ''*'' then
          glob_loop pat str (pi + 1) si (Some (pi + 1)) si
        else if pi < length pat \<and> fst (match_unit pat pi (str ! si)) then
          glob_loop pat str (snd (match_unit pat pi (str ! si))) (si + 1) star_pi star_si
        else (case star_pi of
                Some sp \<Rightarrow> glob_loop pat str sp (star_si + 1) star_pi (star_si + 1)
              | None \<Rightarrow> Some False)
      else Some (skip_stars pat pi = length pat))"

declare glob_loop.simps [code]

definition glob_match :: "string \<Rightarrow> string \<Rightarrow> bool" where
  "glob_match pat str = (glob_loop pat str 0 0 None 0 = Some True)"

section \<open>What a pattern means\<close>

lemma bracket_scan_bounds:
  "bracket_scan pat j c k m = (Some cl, b) \<Longrightarrow> k \<le> cl \<and> j < cl \<and> cl < length pat"
proof (induction pat j c k m rule: bracket_scan.induct)
  case (1 pat j c k m)
  then show ?case
    using bracket_lo_ge [of k pat]
    by (subst (asm) (3) bracket_scan.simps) (auto split: if_splits)
qed

text \<open>Where a unit ends does not depend on the character it is tried on.\<close>

lemma bracket_scan_fst: "fst (bracket_scan pat j c k m) = fst (bracket_scan pat j d k n)"
proof (induction pat j c k m arbitrary: n rule: bracket_scan.induct)
  case (1 pat j c k m)
  then show ?case
    by (simp add: bracket_scan.simps [of pat j c k m] bracket_scan.simps [of pat j d k n])
qed

lemma match_unit_end: "snd (match_unit pat pi c) = snd (match_unit pat pi d)"
proof -
  have "fst (bracket_scan pat j c k False) = fst (bracket_scan pat j d k False)" for j k
    by (rule bracket_scan_fst)
  then show ?thesis
    by (auto simp: match_unit_def Let_def split: prod.splits option.splits) (metis fst_conv option.distinct(1) option.inject)+
qed

lemma match_unit_advances:
  "pi < length pat \<Longrightarrow> pi < snd (match_unit pat pi c) \<and> snd (match_unit pat pi c) \<le> length pat"
  by (auto simp: match_unit_def Let_def dest: bracket_scan_bounds split: prod.splits option.splits)

text \<open>
  The declarative meaning, read from position \<open>pi\<close> of the pattern: a star takes any number of
  characters, every other unit exactly one that it accepts.
\<close>

function glob_ref :: "string \<Rightarrow> nat \<Rightarrow> string \<Rightarrow> bool" where
  "glob_ref pat pi s =
     (if pi < length pat then
        if pat ! pi = CHR ''*'' then
          glob_ref pat (pi + 1) s \<or> (if s = [] then False else glob_ref pat pi (tl s))
        else if s = [] then False
        else fst (match_unit pat pi (hd s)) \<and>
             glob_ref pat (snd (match_unit pat pi (hd s))) (tl s)
      else s = [])"
  by pat_completeness auto
termination
proof (relation "measure (\<lambda>(pat, pi, s). (length pat - pi) + length s)", goal_cases)
  case (4 pat pi s)
  then show ?case
    using match_unit_advances [of pi pat "hd s"] by (cases s) auto
qed (auto simp: neq_Nil_conv)

declare glob_ref.simps [simp del]

section \<open>The loop decides the meaning\<close>

lemma glob_ref_unit:
  assumes "pi < length pat" and "pat ! pi \<noteq> CHR ''*''"
  shows "glob_ref pat pi (drop j str) \<longleftrightarrow>
     j < length str \<and> fst (match_unit pat pi (str ! j)) \<and>
     glob_ref pat (snd (match_unit pat pi c)) (drop (Suc j) str)"
  using assms match_unit_end [of pat pi "hd (drop j str)" c]
  by (auto simp: glob_ref.simps [of pat pi] hd_drop_conv_nth tl_drop drop_Suc)

lemma glob_ref_star:
  assumes "pi < length pat" and "pat ! pi = CHR ''*''" and "i \<le> length str"
  shows "glob_ref pat pi (drop i str) \<longleftrightarrow>
     (\<exists>j\<ge>i. j \<le> length str \<and> glob_ref pat (pi + 1) (drop j str))"
  using assms(3)
proof (induction "length str - i" arbitrary: i)
  case 0
  then have "i = length str" by simp
  with assms show ?case
    by (auto simp: glob_ref.simps [of pat pi "[]"])
next
  case (Suc n)
  then have i: "i < length str" by simp
  have "glob_ref pat pi (drop i str) \<longleftrightarrow>
      glob_ref pat (pi + 1) (drop i str) \<or> glob_ref pat pi (drop (Suc i) str)"
    using assms i by (subst glob_ref.simps) (simp add: tl_drop drop_Suc)
  also have "glob_ref pat pi (drop (Suc i) str) \<longleftrightarrow>
      (\<exists>j\<ge>Suc i. j \<le> length str \<and> glob_ref pat (pi + 1) (drop j str))"
    using Suc i by simp
  finally show ?case
    using i by (metis Suc_leD le_antisym less_imp_le_nat not_less_eq_eq order_refl)
qed

lemma glob_ref_end: "pi \<le> length pat \<Longrightarrow> glob_ref pat pi [] \<longleftrightarrow> skip_stars pat pi = length pat"
proof (induction pat pi rule: skip_stars.induct)
  case (1 pat pi)
  then show ?case
    by (auto simp: glob_ref.simps [of pat pi] skip_stars.simps [of pat pi])
qed

text \<open>
  What the loop knows: without a star behind it, the answer is that of the current position; with
  one, the answer is yes if the current attempt succeeds or the star takes at least one character
  more. The last conjunct is why one backtracking point is enough: any later success of the units
  since the star passes through the current unit, so an outer star can be forgotten at the next.
\<close>

definition glob_inv :: "string \<Rightarrow> string \<Rightarrow> bool \<Rightarrow> nat \<Rightarrow> nat \<Rightarrow> nat option \<Rightarrow> nat \<Rightarrow> bool" where
  "glob_inv pat str ans pi si star ss \<longleftrightarrow> pi \<le> length pat \<and> si \<le> length str \<and>
     (case star of
        None \<Rightarrow> ans = glob_ref pat pi (drop si str)
      | Some sp \<Rightarrow> sp \<le> pi \<and> ss \<le> si \<and>
          ans = (glob_ref pat pi (drop si str) \<or>
                 (\<exists>j>ss. j \<le> length str \<and> glob_ref pat sp (drop j str))) \<and>
          (\<forall>j\<ge>ss. j \<le> length str \<longrightarrow> glob_ref pat sp (drop j str) \<longrightarrow>
             j + (si - ss) \<le> length str \<and> glob_ref pat pi (drop (j + (si - ss)) str)))"

lemma glob_inv_at_star:
  assumes "glob_inv pat str ans pi si star ss" and "pi < length pat" and "pat ! pi = CHR ''*''"
  shows "glob_inv pat str ans (pi + 1) si (Some (pi + 1)) si"
proof -
  have si: "si \<le> length str"
    using assms(1) by (simp add: glob_inv_def)
  note star = glob_ref_star [OF assms(2,3)]
  have "ans = glob_ref pat pi (drop si str)"
  proof (cases star)
    case None
    with assms(1) show ?thesis by (simp add: glob_inv_def)
  next
    case (Some sp)
    have "glob_ref pat pi (drop si str)" if j: "j > ss" "j \<le> length str" "glob_ref pat sp (drop j str)" for j
    proof -
      have "j + (si - ss) \<le> length str" "glob_ref pat pi (drop (j + (si - ss)) str)" "ss \<le> si"
        using assms(1) Some j by (auto simp: glob_inv_def)
      then obtain k where "k \<ge> j + (si - ss)" "k \<le> length str" "glob_ref pat (pi + 1) (drop k str)"
        using star by blast
      moreover from this(1) have "k \<ge> si"
        using j(1) by linarith
      ultimately show ?thesis
        using star [OF si] by blast
    qed
    with assms(1) Some show ?thesis by (auto simp: glob_inv_def)
  qed
  then have "ans = (\<exists>j\<ge>si. j \<le> length str \<and> glob_ref pat (pi + 1) (drop j str))"
    using star [OF si] by simp
  also have "\<dots> = (glob_ref pat (pi + 1) (drop si str) \<or>
      (\<exists>j>si. j \<le> length str \<and> glob_ref pat (pi + 1) (drop j str)))"
    using si by (metis le_eq_less_or_eq)
  finally show ?thesis
    using assms(2) si by (simp add: glob_inv_def)
qed

lemma glob_inv_unit:
  assumes "glob_inv pat str ans pi si star ss" and "pi < length pat" and "pat ! pi \<noteq> CHR ''*''"
    and "si < length str" and "fst (match_unit pat pi (str ! si))"
  shows "glob_inv pat str ans (snd (match_unit pat pi (str ! si))) (si + 1) star ss"
proof -
  note unit = glob_ref_unit [OF assms(2,3), where c = "str ! si" and str = str]
  have here: "glob_ref pat pi (drop si str) \<longleftrightarrow>
      glob_ref pat (snd (match_unit pat pi (str ! si))) (drop (si + 1) str)"
    using unit [of si] assms(4,5) by simp
  show ?thesis
  proof (cases star)
    case None
    with assms here show ?thesis
      using match_unit_advances [OF assms(2), of "str ! si"] by (simp add: glob_inv_def)
  next
    case (Some sp)
    have later: "j + (si + 1 - ss) \<le> length str \<and>
        glob_ref pat (snd (match_unit pat pi (str ! si))) (drop (j + (si + 1 - ss)) str)"
      if "j \<ge> ss" "j \<le> length str" "glob_ref pat sp (drop j str)" for j
    proof -
      have "glob_ref pat pi (drop (j + (si - ss)) str)" and "ss \<le> si"
        using assms(1) Some that by (auto simp: glob_inv_def)
      with unit [of "j + (si - ss)"] show ?thesis
        by (simp add: Suc_diff_le)
    qed
    from assms(1,2,4) Some here later show ?thesis
      using match_unit_advances [OF assms(2), of "str ! si"] by (auto simp: glob_inv_def)
  qed
qed

lemma glob_inv_backtrack:
  assumes "glob_inv pat str ans pi si (Some sp) ss" and "\<not> glob_ref pat pi (drop si str)"
    and "si < length str"
  shows "glob_inv pat str ans sp (ss + 1) (Some sp) (ss + 1)"
proof -
  have bounds: "sp \<le> pi" "pi \<le> length pat" "ss + 1 \<le> length str"
    and ans: "ans = (\<exists>j>ss. j \<le> length str \<and> glob_ref pat sp (drop j str))"
    using assms unfolding glob_inv_def option.case by simp_all
  have "(\<exists>j>ss. P j) = (P (ss + 1) \<or> (\<exists>j>ss + 1. P j))" for P
    by (metis Suc_eq_plus1 Suc_lessD Suc_lessI lessI)
  with ans bounds(3) have "ans = (glob_ref pat sp (drop (ss + 1) str) \<or>
      (\<exists>j>ss + 1. j \<le> length str \<and> glob_ref pat sp (drop j str)))"
    by simp
  with bounds show ?thesis
    unfolding glob_inv_def option.case by simp
qed

lemma glob_inv_end:
  assumes "glob_inv pat str ans pi (length str) star ss"
  shows "ans = (skip_stars pat pi = length pat)"
proof -
  have "ans = glob_ref pat pi []"
  proof (cases star)
    case None
    with assms show ?thesis by (simp add: glob_inv_def)
  next
    case (Some sp)
    from assms have ss: "ss \<le> length str"
      and pass: "\<And>j. ss \<le> j \<Longrightarrow> j \<le> length str \<Longrightarrow> glob_ref pat sp (drop j str) \<Longrightarrow>
        j + (length str - ss) \<le> length str"
      and ans: "ans = (glob_ref pat pi [] \<or> (\<exists>j>ss. j \<le> length str \<and> glob_ref pat sp (drop j str)))"
      unfolding glob_inv_def Some by simp_all
    have "\<not> (j \<le> length str \<and> glob_ref pat sp (drop j str))" if "j > ss" for j
      using pass [of j] ss that by linarith
    with ans show ?thesis by blast
  qed
  then show ?thesis
    using assms glob_ref_end by (simp add: glob_inv_def)
qed

definition glob_rank :: "string \<Rightarrow> string \<Rightarrow> (nat \<times> nat option \<times> nat) \<Rightarrow> nat \<times> nat \<times> nat" where
  "glob_rank pat str = (\<lambda>(si, star, ss).
     (case star of None \<Rightarrow> length pat + 1 | Some sp \<Rightarrow> length pat - sp, length str - ss, length str - si))"

lemma glob_inv_bounds: "glob_inv pat str ans pi si (Some sp) ss \<Longrightarrow> sp \<le> pi \<and> ss \<le> si"
  by (simp add: glob_inv_def)

lemma glob_rank_star:
  "glob_inv pat str ans pi si star ss \<Longrightarrow> pi < length pat \<Longrightarrow>
     (glob_rank pat str (si, Some (pi + 1), si), glob_rank pat str (si, star, ss))
       \<in> less_than <*lex*> less_than <*lex*> less_than"
  by (cases star) (auto simp: glob_rank_def dest: glob_inv_bounds)

lemma glob_loop_correct:
  "glob_inv pat str ans pi si star ss \<Longrightarrow> glob_loop pat str pi si star ss = Some ans"
proof (induction "glob_rank pat str (si, star, ss)" arbitrary: pi si star ss
    rule: wf_induct_rule [OF wf_lex_prod [OF wf_less_than wf_lex_prod [OF wf_less_than wf_less_than]]])
  case 1
  note inv = "1.prems"
  show ?case
  proof (cases "si < length str")
    case False
    then have "si = length str"
      using inv by (simp add: glob_inv_def)
    with inv show ?thesis
      using glob_inv_end by (subst glob_loop.simps) auto
  next
    case si: True
    consider (star) "pi < length pat" "pat ! pi = CHR ''*''"
      | (unit) "pi < length pat" "pat ! pi \<noteq> CHR ''*''" "fst (match_unit pat pi (str ! si))"
      | (stuck) "\<not> (pi < length pat \<and> pat ! pi = CHR ''*'')"
          "\<not> (pi < length pat \<and> fst (match_unit pat pi (str ! si)))"
      by blast
    then show ?thesis
    proof cases
      case star
      have "glob_loop pat str (pi + 1) si (Some (pi + 1)) si = Some ans"
        using glob_rank_star [OF inv star(1)] glob_inv_at_star [OF inv star] by (rule "1.hyps")
      with star si show ?thesis
        by (subst glob_loop.simps) simp
    next
      case unit
      have "glob_loop pat str (snd (match_unit pat pi (str ! si))) (si + 1) star ss = Some ans"
        using glob_inv_unit [OF inv unit(1,2) si unit(3)] si
        by (intro "1.hyps") (simp_all add: glob_rank_def)
      with unit si show ?thesis
        by (subst glob_loop.simps) simp
    next
      case stuck
      have no: "\<not> glob_ref pat pi (drop si str)"
        using stuck si by (auto simp: glob_ref.simps [of pat pi] hd_drop_conv_nth)
      show ?thesis
      proof (cases star)
        case None
        with inv no stuck si show ?thesis
          by (subst glob_loop.simps) (auto simp: glob_inv_def)
      next
        case (Some sp)
        have "glob_loop pat str sp (ss + 1) (Some sp) (ss + 1) = Some ans"
          using glob_inv_backtrack [OF inv [unfolded Some] no si] glob_inv_bounds [OF inv [unfolded Some]] si
          by (intro "1.hyps") (auto simp: glob_rank_def Some diff_less_mono2)
        with Some stuck si show ?thesis
          by (subst glob_loop.simps) auto
      qed
    qed
  qed
qed

lemma glob_loop_start: "glob_loop pat str 0 0 None 0 = Some (glob_ref pat 0 str)"
  by (rule glob_loop_correct) (simp add: glob_inv_def)

lemma glob_match_ref: "glob_match pat str = glob_ref pat 0 str"
  by (simp add: glob_match_def glob_loop_start)

lemma glob_ref_star_only: "glob_ref ''*'' 0 s"
  by (induction s) (simp_all add: glob_ref.simps [of "''*''"])

text \<open>
  C25. The iterative matcher returns on every pattern and string, and its answer is the declarative
  meaning of the pattern: one backtracking point loses no match, however many stars there are.
\<close>

theorem glob_match_correct:
  "glob_loop pat str 0 0 None 0 = Some (glob_ref pat 0 str) \<and> glob_match pat str = glob_ref pat 0 str"
  by (simp add: glob_loop_start glob_match_ref)

end
