(* ===== verification/Db.thy ===== *)
theory Db
  imports Hermit_Interfaces Glob
begin

text \<open>
  The keyspace, class \<^verbatim>\<open>Db\<close> of \<^verbatim>\<open>src/src/core/db.cpp\<close>. The \<^verbatim>\<open>std::unordered_map\<close> is an association
  list with distinct keys; its order stands for the map's iteration order, which C++ leaves open,
  so the properties speak of the keys as a set. \<^verbatim>\<open>std::get\<close> on the wrong alternative throws and
  \<^verbatim>\<open>front()\<close> on an empty deque is undefined: both are faults here. The lemmas: the keyed-store
  contract, no fault on well-formed typed keys, and the index arithmetic of LRANGE.
\<close>

datatype entry = Str string | Lst "string list"

datatype type = kNone | kString | kList

type_synonym db = "(string \<times> entry) list"

section \<open>Operations\<close>

definition db_get :: "db \<Rightarrow> string \<Rightarrow> string option" where
  "db_get db key =
     (case map_of db key of
        None \<Rightarrow> None
      | Some (Str s) \<Rightarrow> Some s
      | Some (Lst _) \<Rightarrow> None)"

definition db_set :: "string \<Rightarrow> string \<Rightarrow> db \<Rightarrow> db" where
  "db_set key value db = AList.update key (Str value) db"

text \<open>\<^verbatim>\<open>map_.erase(key) > 0\<close> and the map without the key.\<close>

definition db_del :: "string \<Rightarrow> db \<Rightarrow> bool \<times> db" where
  "db_del key db = (map_of db key \<noteq> None, AList.delete key db)"

definition db_exists :: "db \<Rightarrow> string \<Rightarrow> bool" where
  "db_exists db key \<longleftrightarrow> map_of db key \<noteq> None"

definition db_type :: "db \<Rightarrow> string \<Rightarrow> type" where
  "db_type db key =
     (case map_of db key of
        None \<Rightarrow> kNone
      | Some (Str _) \<Rightarrow> kString
      | Some (Lst _) \<Rightarrow> kList)"

definition db_size :: "db \<Rightarrow> nat" where
  "db_size db = length db"

definition db_clear :: "db \<Rightarrow> db" where
  "db_clear db = []"

definition keys_matching_glob :: "db \<Rightarrow> string \<Rightarrow> string list" where
  "keys_matching_glob db pattern = filter (glob_match pattern) (map fst db)"

text \<open>\<^verbatim>\<open>std::get<std::deque<std::string>>\<close>.\<close>

fun get_list :: "entry \<Rightarrow> string list result" where
  "get_list (Lst l) = Inr l"
| "get_list (Str _) = Inl Bad_variant_access"

text \<open>\<^verbatim>\<open>try_emplace(key, empty deque)\<close>: the entry found under the key, or the fresh one.\<close>

definition emplaced :: "db \<Rightarrow> string \<Rightarrow> entry" where
  "emplaced db key = (case map_of db key of None \<Rightarrow> Lst [] | Some e \<Rightarrow> e)"

definition db_lpush :: "string \<Rightarrow> string \<Rightarrow> db \<Rightarrow> (nat \<times> db) result" where
  "db_lpush key value db =
     bind_res (get_list (emplaced db key)) (\<lambda>list.
       Inr (length (value # list), AList.update key (Lst (value # list)) db))"

definition db_rpush :: "string \<Rightarrow> string \<Rightarrow> db \<Rightarrow> (nat \<times> db) result" where
  "db_rpush key value db =
     bind_res (get_list (emplaced db key)) (\<lambda>list.
       Inr (length (list @ [value]), AList.update key (Lst (list @ [value])) db))"

definition db_lpop :: "string \<Rightarrow> db \<Rightarrow> (string option \<times> db) result" where
  "db_lpop key db =
     (case map_of db key of
        None \<Rightarrow> Inr (None, db)
      | Some e \<Rightarrow> bind_res (get_list e) (\<lambda>list.
          if list = [] then Inl Empty_deque
          else Inr (Some (hd list),
                    if tl list = [] then AList.delete key db
                    else AList.update key (Lst (tl list)) db)))"

definition db_rpop :: "string \<Rightarrow> db \<Rightarrow> (string option \<times> db) result" where
  "db_rpop key db =
     (case map_of db key of
        None \<Rightarrow> Inr (None, db)
      | Some e \<Rightarrow> bind_res (get_list e) (\<lambda>list.
          if list = [] then Inl Empty_deque
          else Inr (Some (last list),
                    if butlast list = [] then AList.delete key db
                    else AList.update key (Lst (butlast list)) db)))"

definition db_llen :: "db \<Rightarrow> string \<Rightarrow> nat result" where
  "db_llen db key =
     (case map_of db key of
        None \<Rightarrow> Inr 0
      | Some e \<Rightarrow> bind_res (get_list e) (\<lambda>list. Inr (length list)))"

text \<open>
  The index arithmetic of \<^verbatim>\<open>lrange\<close>. A negative index plus a list length cannot overflow, so the
  additions are exact.
\<close>

definition db_lrange :: "db \<Rightarrow> string \<Rightarrow> int \<Rightarrow> int \<Rightarrow> string list result" where
  "db_lrange db key start stop =
     (case map_of db key of
        None \<Rightarrow> Inr []
      | Some e \<Rightarrow> bind_res (get_list e) (\<lambda>list.
          let n = int (length list);
              start1 = (if start < 0 then start + n else start);
              stop1 = (if stop < 0 then stop + n else stop);
              start2 = (if start1 < 0 then 0 else start1);
              stop2 = (if stop1 \<ge> n then n - 1 else stop1)
          in if start2 > stop2 \<or> start2 \<ge> n then Inr []
             else Inr (map (\<lambda>i. list ! nat i) [start2..stop2])))"

definition restore_entry :: "string \<Rightarrow> entry \<Rightarrow> db \<Rightarrow> db" where
  "restore_entry key entry db = AList.update key entry db"

section \<open>Well-formedness\<close>

text \<open>Keys are distinct and no list is empty (a list that becomes empty is removed).\<close>

definition entry_ok :: "entry \<Rightarrow> bool" where
  "entry_ok e \<longleftrightarrow> e \<noteq> Lst []"

definition db_wf :: "db \<Rightarrow> bool" where
  "db_wf db \<longleftrightarrow> distinct (map fst db) \<and> list_all (\<lambda>(k, e). entry_ok e) db"

lemma db_wf_iff:
  "db_wf db \<longleftrightarrow> distinct (map fst db) \<and> (\<forall>k e. map_of db k = Some e \<longrightarrow> entry_ok e)"
  by (auto simp: db_wf_def list_all_iff dest: map_of_SomeD)

lemma db_wf_empty [simp]: "db_wf []"
  by (simp add: db_wf_def)

lemma map_of_update: "map_of (AList.update k v db) = (map_of db)(k \<mapsto> v)"
  by (rule update_conv')

lemma map_of_delete: "map_of (AList.delete k db) = (map_of db)(k := None)"
  by (rule delete_conv')

lemma db_wf_update: "db_wf db \<Longrightarrow> entry_ok e \<Longrightarrow> db_wf (AList.update k e db)"
  by (simp add: db_wf_iff map_of_update distinct_update)

lemma db_wf_delete: "db_wf db \<Longrightarrow> db_wf (AList.delete k db)"
  by (simp add: db_wf_iff map_of_delete distinct_delete)

lemma db_wf_lookup: "db_wf db \<Longrightarrow> map_of db k = Some e \<Longrightarrow> entry_ok e"
  by (auto simp: db_wf_iff)

lemma length_dom: "distinct (map fst al) \<Longrightarrow> length al = card (dom (map_of al))"
  by (metis distinct_card dom_map_of_conv_image_fst length_map set_map)

interpretation keyspace: keyed_store map_of AList.update AList.delete "\<lambda>db. distinct (map fst db)"
  by unfold_locales (simp_all add: map_of_update map_of_delete distinct_update distinct_delete)

section \<open>Behaviour of the operations\<close>

lemma db_set_map [simp]: "map_of (db_set k v db) = (map_of db)(k \<mapsto> Str v)"
  by (simp add: db_set_def map_of_update)

lemma db_del_map [simp]:
  "map_of (snd (db_del k db)) = (map_of db)(k := None)" "fst (db_del k db) \<longleftrightarrow> map_of db k \<noteq> None"
  by (simp_all add: db_del_def map_of_delete)

lemma db_wf_set: "db_wf db \<Longrightarrow> db_wf (db_set k v db)"
  by (simp add: db_set_def db_wf_update entry_ok_def)

lemma db_wf_del: "db_wf db \<Longrightarrow> db_wf (snd (db_del k db))"
  by (simp add: db_del_def db_wf_delete)

lemma db_wf_clear [simp]: "db_wf (db_clear db)" "map_of (db_clear db) = Map.empty"
  by (simp_all add: db_clear_def)

lemma db_type_simps [simp]:
  "db_type db k = kNone \<longleftrightarrow> map_of db k = None"
  "db_type db k = kString \<longleftrightarrow> (\<exists>s. map_of db k = Some (Str s))"
  "db_type db k = kList \<longleftrightarrow> (\<exists>l. map_of db k = Some (Lst l))"
  by (auto simp: db_type_def split: option.splits entry.splits)

text \<open>The list under a key that holds no string; the empty list when the key is absent.\<close>

definition list_at :: "db \<Rightarrow> string \<Rightarrow> string list" where
  "list_at db k = (case map_of db k of Some (Lst l) \<Rightarrow> l | _ \<Rightarrow> [])"

lemma get_list_emplaced: "db_type db k \<noteq> kString \<Longrightarrow> get_list (emplaced db k) = Inr (list_at db k)"
  by (auto simp: emplaced_def list_at_def db_type_def split: option.splits entry.splits)

lemma db_lpush_ok:
  "db_type db k \<noteq> kString \<Longrightarrow>
     db_lpush k v db = Inr (Suc (length (list_at db k)), AList.update k (Lst (v # list_at db k)) db)"
  by (simp add: db_lpush_def get_list_emplaced del: db_type_simps)

lemma db_rpush_ok:
  "db_type db k \<noteq> kString \<Longrightarrow>
     db_rpush k v db = Inr (Suc (length (list_at db k)), AList.update k (Lst (list_at db k @ [v])) db)"
  by (simp add: db_rpush_def get_list_emplaced del: db_type_simps)

lemma db_push_string:
  "map_of db k = Some (Str s) \<Longrightarrow> db_lpush k v db = Inl Bad_variant_access"
  "map_of db k = Some (Str s) \<Longrightarrow> db_rpush k v db = Inl Bad_variant_access"
  by (simp_all add: db_lpush_def db_rpush_def emplaced_def)

text \<open>What is left of a list once an element is gone: the key goes with the last one.\<close>

definition put_list :: "string \<Rightarrow> string list \<Rightarrow> db \<Rightarrow> db" where
  "put_list k l db = (if l = [] then AList.delete k db else AList.update k (Lst l) db)"

lemma put_list_map: "map_of (put_list k l db) = (map_of db)(k := (if l = [] then None else Some (Lst l)))"
  by (simp add: put_list_def map_of_update map_of_delete)

lemma db_wf_put_list: "db_wf db \<Longrightarrow> db_wf (put_list k l db)"
  by (simp add: put_list_def db_wf_update db_wf_delete entry_ok_def)

lemma db_lpop_ok:
  assumes "db_wf db" and "db_type db k \<noteq> kString"
  shows "db_lpop k db =
    (case list_at db k of [] \<Rightarrow> Inr (None, db) | v # l \<Rightarrow> Inr (Some v, put_list k l db))"
  using assms db_wf_lookup [OF assms(1), of k]
  by (auto simp: db_lpop_def list_at_def put_list_def entry_ok_def neq_Nil_conv
      split: option.splits entry.splits list.splits)

lemma db_rpop_ok:
  assumes "db_wf db" and "db_type db k \<noteq> kString"
  shows "db_rpop k db =
    (if list_at db k = [] then Inr (None, db)
     else Inr (Some (last (list_at db k)), put_list k (butlast (list_at db k)) db))"
  using assms db_wf_lookup [OF assms(1), of k]
  by (auto simp: db_rpop_def list_at_def put_list_def entry_ok_def
      split: option.splits entry.splits)

lemma db_llen_ok: "db_type db k \<noteq> kString \<Longrightarrow> db_llen db k = Inr (length (list_at db k))"
  by (auto simp: db_llen_def list_at_def split: option.splits entry.splits)

text \<open>
  LRANGE as a slice: clamp both ends into the list, then take the elements between them.
\<close>

definition clamp_start :: "int \<Rightarrow> int \<Rightarrow> nat" where
  "clamp_start n i = nat (if i < 0 then i + n else i)"

definition clamp_stop :: "int \<Rightarrow> int \<Rightarrow> nat" where
  "clamp_stop n i = nat (min n ((if i < 0 then i + n else i) + 1))"

lemma map_nth_interval:
  "0 \<le> a \<Longrightarrow> b < int (length xs) \<Longrightarrow> map (\<lambda>i. xs ! nat i) [a..b] = drop (nat a) (take (nat (b + 1)) xs)"
proof (intro nth_equalityI)
  assume ab: "0 \<le> a" "b < int (length xs)"
  then show "length (map (\<lambda>i. xs ! nat i) [a..b]) = length (drop (nat a) (take (nat (b + 1)) xs))"
    by auto
  fix i
  assume "i < length (map (\<lambda>i. xs ! nat i) [a..b])"
  then have i: "a + int i \<le> b" by simp
  from ab nth_upto [OF i] show "map (\<lambda>i. xs ! nat i) [a..b] ! i = drop (nat a) (take (nat (b + 1)) xs) ! i"
    using i by (simp add: nat_add_distrib)
qed

lemma db_lrange_ok:
  assumes "db_type db k \<noteq> kString"
  shows "db_lrange db k start stop =
    Inr (let l = list_at db k; n = int (length l)
         in drop (clamp_start n start) (take (clamp_stop n stop) l))"
proof (cases "map_of db k")
  case None
  then show ?thesis by (simp add: db_lrange_def list_at_def)
next
  case (Some e)
  then obtain l where l: "e = Lst l"
    using assms by (cases e) auto
  define n where "n = int (length l)"
  define a where "a = (if start < 0 then start + n else start)"
  define b where "b = (if stop < 0 then stop + n else stop)"
  define a' where "a' = (if a < 0 then 0 else a)"
  define b' where "b' = (if b \<ge> n then n - 1 else b)"
  have "db_lrange db k start stop =
      Inr (if a' > b' \<or> a' \<ge> n then [] else map (\<lambda>i. l ! nat i) [a'..b'])"
    by (simp add: db_lrange_def Some l Let_def a_def b_def a'_def b'_def n_def)
  also have "(if a' > b' \<or> a' \<ge> n then [] else map (\<lambda>i. l ! nat i) [a'..b']) =
      drop (nat a) (take (nat (min n (b + 1))) l)"
  proof (cases "a' > b' \<or> a' \<ge> n")
    case True
    then show ?thesis
      by (auto simp: a'_def b'_def n_def split: if_splits)
  next
    case False
    then have "map (\<lambda>i. l ! nat i) [a'..b'] = drop (nat a') (take (nat (b' + 1)) l)"
      by (intro map_nth_interval) (auto simp: a'_def b'_def n_def)
    with False show ?thesis
      by (auto simp: a'_def b'_def n_def min_def)
  qed
  finally show ?thesis
    by (simp add: list_at_def Some l clamp_start_def clamp_stop_def a_def b_def n_def Let_def)
qed

lemma keys_matching_glob_set:
  "set (keys_matching_glob db pat) = {k. map_of db k \<noteq> None \<and> glob_ref pat 0 k}"
  by (auto simp: keys_matching_glob_def glob_match_ref map_of_eq_None_iff)

lemma keys_matching_glob_distinct: "db_wf db \<Longrightarrow> distinct (keys_matching_glob db pat)"
  by (simp add: keys_matching_glob_def db_wf_def)

lemma keys_matching_glob_all: "set (keys_matching_glob db ''*'') = dom (map_of db)"
  by (auto simp: keys_matching_glob_set glob_ref_star_only)

end
