(* ===== verification/Hermit_Clock.thy ===== *)
theory Hermit_Clock
  imports Hermit_Prelude
begin

text \<open>
  Time, \<^verbatim>\<open>src/src/util/clock.h\<close>. The components read the wall clock through the \<^verbatim>\<open>Clock\<close> interface,
  possibly several times in one operation and with any value each time (\<^verbatim>\<open>SystemClock\<close> follows the
  system, which may step). A clock is therefore the sequence of the readings to come; the test
  double \<^verbatim>\<open>ManualClock\<close> answers the same value until it is moved.
\<close>

type_synonym clock = "nat \<Rightarrow> int"

definition wall_ms :: "clock \<Rightarrow> int \<times> clock" where
  "wall_ms clk = (clk 0, \<lambda>i. clk (Suc i))"

record manual_clock =
  wall :: int
  steady :: int

definition manual_advance :: "int \<Rightarrow> manual_clock \<Rightarrow> manual_clock" where
  "manual_advance ms c = c\<lparr>wall := wall c + ms, steady := steady c + ms\<rparr>"

definition set_wall :: "int \<Rightarrow> manual_clock \<Rightarrow> manual_clock" where
  "set_wall ms c = c\<lparr>wall := ms\<rparr>"

definition manual_readings :: "manual_clock \<Rightarrow> clock" where
  "manual_readings c = (\<lambda>_. wall c)"

text \<open>A clock that stands still while it is read.\<close>

definition frozen_at :: "int \<Rightarrow> clock" where
  "frozen_at t = (\<lambda>_. t)"

lemma wall_ms_frozen [simp]: "wall_ms (frozen_at t) = (t, frozen_at t)"
  by (simp add: wall_ms_def frozen_at_def)

lemma manual_readings_frozen: "manual_readings c = frozen_at (wall c)"
  by (simp add: manual_readings_def frozen_at_def)

text \<open>What every reading of a clock satisfies, its later readings satisfy.\<close>

lemma wall_ms_all: "wall_ms clk = (t, clk') \<Longrightarrow> \<forall>i. P (clk i) \<Longrightarrow> P t \<and> (\<forall>i. P (clk' i))"
  by (auto simp: wall_ms_def)

end
