(* ===== verification/Expiry.thy ===== *)
theory Expiry
  imports Hermit_Interfaces Hermit_Clock
begin

text \<open>
  TTL bookkeeping, class \<^verbatim>\<open>ExpiryManager\<close> of \<^verbatim>\<open>src/src/core/expiry.cpp\<close>: a dense vector of slots
  (a random index is a random key) with a key-to-slot index beside it, removal by swap-with-last,
  lazy expiry on access and the sampled active cycle. The eviction hook is a parameter acting on
  the rest of the server's state. The lemmas: index and vector stay inverse to each other; the pair
  implements a map from keys to deadlines; a key is evicted only when its deadline has passed; the
  active cycle ends.
\<close>

record slot =
  skey :: string
  at_ms :: int

record expiry =
  slots :: "slot list"
  index :: "string \<rightharpoonup> nat"

definition ExpiryManager :: expiry where
  "ExpiryManager = \<lparr>slots = [], index = Map.empty\<rparr>"

section \<open>Operations\<close>

definition untrack :: "string \<Rightarrow> expiry \<Rightarrow> bool \<times> expiry" where
  "untrack key e =
     (case index e key of
        None \<Rightarrow> (False, e)
      | Some slot \<Rightarrow>
          let last = length (slots e) - 1;
              e1 = (if slot \<noteq> last
                    then let moved = slots e ! last
                         in e\<lparr>slots := (slots e)[slot := moved], index := (index e)(skey moved \<mapsto> slot)\<rparr>
                    else e)
          in (True, e1\<lparr>slots := butlast (slots e1), index := (index e1)(key := None)\<rparr>))"

definition set_expiry :: "string \<Rightarrow> int \<Rightarrow> expiry \<Rightarrow> expiry" where
  "set_expiry key at e =
     (case index e key of
        Some i \<Rightarrow> e\<lparr>slots := (slots e)[i := (slots e ! i)\<lparr>at_ms := at\<rparr>]\<rparr>
      | None \<Rightarrow> e\<lparr>slots := slots e @ [\<lparr>skey = key, at_ms = at\<rparr>],
                  index := (index e)(key \<mapsto> length (slots e))\<rparr>)"

definition persist :: "string \<Rightarrow> expiry \<Rightarrow> expiry" where
  "persist key e = snd (untrack key e)"

definition expiry_at :: "expiry \<Rightarrow> string \<Rightarrow> int option" where
  "expiry_at e key =
     (case index e key of
        None \<Rightarrow> None
      | Some i \<Rightarrow> Some (at_ms (slots e ! i)))"

definition run_hook :: "(string \<Rightarrow> 'w \<Rightarrow> 'w) option \<Rightarrow> string \<Rightarrow> 'w \<Rightarrow> 'w" where
  "run_hook evict key w = (case evict of None \<Rightarrow> w | Some f \<Rightarrow> f key w)"

definition check_and_expire ::
  "(string \<Rightarrow> 'w \<Rightarrow> 'w) option \<Rightarrow> string \<Rightarrow> clock \<times> expiry \<times> 'w \<Rightarrow> bool \<times> clock \<times> expiry \<times> 'w" where
  "check_and_expire evict key = (\<lambda>(clk, e, w).
     case index e key of
       None \<Rightarrow> (False, clk, e, w)
     | Some i \<Rightarrow>
         let (now, clk1) = wall_ms clk
         in if now < at_ms (slots e ! i) then (False, clk1, e, w)
            else (True, clk1, snd (untrack key e), run_hook evict key w))"

subsection \<open>The active cycle\<close>

definition kSamplePerRound :: nat where
  "kSamplePerRound = 20"

text \<open>
  The draws of \<^verbatim>\<open>uniform_int_distribution(0, n)\<close> over \<^verbatim>\<open>std::mt19937\<close>: the distribution's algorithm
  is the library's own, so the draws are a parameter; what the code relies on is that a draw
  does not exceed \<open>n\<close>.
\<close>

type_synonym rng = "nat \<Rightarrow> nat \<Rightarrow> nat"

definition draw :: "nat \<Rightarrow> rng \<Rightarrow> nat \<times> rng" where
  "draw n rng = (rng 0 n, \<lambda>j. rng (Suc j))"

definition rng_in_range :: "rng \<Rightarrow> bool" where
  "rng_in_range rng \<longleftrightarrow> (\<forall>j n. rng j n \<le> n)"

record stats =
  sampled :: nat
  expired :: nat
  rounds :: nat
  not_implemented :: bool

text \<open>The inner loop of one round: \<open>n\<close> draws are left to make.\<close>

fun sample_round ::
  "(string \<Rightarrow> 'w \<Rightarrow> 'w) option \<Rightarrow> int \<Rightarrow> nat \<Rightarrow> nat \<Rightarrow> nat \<Rightarrow> rng \<times> expiry \<times> 'w \<Rightarrow>
   nat \<times> nat \<times> rng \<times> expiry \<times> 'w" where
  "sample_round evict now 0 smp exd st = (smp, exd, st)"
| "sample_round evict now (Suc n) smp exd (rng, e, w) =
     (if slots e = [] then (smp, exd, rng, e, w)
      else
        let (i, rng1) = draw (length (slots e) - 1) rng
        in if now < at_ms (slots e ! i) then sample_round evict now n (smp + 1) exd (rng1, e, w)
           else let key = skey (slots e ! i)
                in sample_round evict now n (smp + 1) (exd + 1)
                     (rng1, snd (untrack key e), run_hook evict key w))"

text \<open>
  The outer \<^verbatim>\<open>do ... while\<close>. \<open>micros\<close> are the readings of \<^verbatim>\<open>micros_now\<close>; with at most 20 samples the
  quotient of two doubles is at most 0.25 exactly when four times the first is at most the second.
\<close>

partial_function (option) cycle_loop ::
  "(string \<Rightarrow> 'w \<Rightarrow> 'w) option \<Rightarrow> int \<Rightarrow> int \<Rightarrow> stats \<Rightarrow> clock \<Rightarrow> rng \<Rightarrow> expiry \<Rightarrow> 'w \<Rightarrow>
   (stats \<times> rng \<times> expiry \<times> 'w) option" where
  "cycle_loop evict now deadline stats micros rng e w =
     (case sample_round evict now (min kSamplePerRound (length (slots e))) 0 0 (rng, e, w) of
        (smp, exd, rng1, e1, w1) \<Rightarrow>
          let stats1 = stats\<lparr>sampled := sampled stats + smp, expired := expired stats + exd,
                             rounds := rounds stats + 1\<rparr>
          in if smp = 0 then Some (stats1, rng1, e1, w1)
             else if 4 * exd \<le> smp then Some (stats1, rng1, e1, w1)
             else if micros 0 < deadline \<and> slots e1 \<noteq> [] then
               cycle_loop evict now deadline stats1 (\<lambda>i. micros (Suc i)) rng1 e1 w1
             else Some (stats1, rng1, e1, w1))"

declare cycle_loop.simps [code]

definition active_cycle ::
  "(string \<Rightarrow> 'w \<Rightarrow> 'w) option \<Rightarrow> int \<Rightarrow> clock \<Rightarrow> rng \<Rightarrow> clock \<times> expiry \<times> 'w \<Rightarrow>
   (stats \<times> clock \<times> rng \<times> expiry \<times> 'w) option" where
  "active_cycle evict budget_us micros rng = (\<lambda>(clk, e, w).
     let stats0 = \<lparr>sampled = 0, expired = 0, rounds = 0, not_implemented = False\<rparr>
     in if slots e = [] then Some (stats0, clk, rng, e, w)
        else let deadline = micros 0 + budget_us; (now, clk1) = wall_ms clk
             in map_option (\<lambda>(st, rng1, e1, w1). (st, clk1, rng1, e1, w1))
                  (cycle_loop evict now deadline stats0 (\<lambda>i. micros (Suc i)) rng e w))"

section \<open>Index and vector are inverse\<close>

definition expiry_wf :: "expiry \<Rightarrow> bool" where
  "expiry_wf e \<longleftrightarrow> (\<forall>k i. index e k = Some i \<longleftrightarrow> i < length (slots e) \<and> skey (slots e ! i) = k)"

lemma expiry_wf_empty [simp]: "expiry_wf ExpiryManager"
  by (simp add: expiry_wf_def ExpiryManager_def)

lemma expiry_at_empty [simp]: "expiry_at ExpiryManager k = None"
  by (simp add: expiry_at_def ExpiryManager_def)

lemma expiry_wfD: "expiry_wf e \<Longrightarrow> index e k = Some i \<Longrightarrow> i < length (slots e) \<and> skey (slots e ! i) = k"
  by (simp add: expiry_wf_def)

lemma expiry_wf_slot: "expiry_wf e \<Longrightarrow> i < length (slots e) \<Longrightarrow> index e (skey (slots e ! i)) = Some i"
  by (simp add: expiry_wf_def)

lemma expiry_wf_inj:
  "expiry_wf e \<Longrightarrow> i < length (slots e) \<Longrightarrow> j < length (slots e) \<Longrightarrow>
     skey (slots e ! i) = skey (slots e ! j) \<longleftrightarrow> i = j"
  by (metis expiry_wf_slot option.inject)

lemma expiry_wf_absent: "expiry_wf e \<Longrightarrow> index e k = None \<Longrightarrow> i < length (slots e) \<Longrightarrow> skey (slots e ! i) \<noteq> k"
  by (metis expiry_wf_slot option.distinct(1))

lemma set_expiry_new:
  "index e k = None \<Longrightarrow> set_expiry k t e = e\<lparr>slots := slots e @ [\<lparr>skey = k, at_ms = t\<rparr>],
     index := (index e)(k \<mapsto> length (slots e))\<rparr>"
  by (simp add: set_expiry_def)

lemma set_expiry_again:
  "index e k = Some i \<Longrightarrow> set_expiry k t e = e\<lparr>slots := (slots e)[i := (slots e ! i)\<lparr>at_ms := t\<rparr>]\<rparr>"
  by (simp add: set_expiry_def)

lemma expiry_wf_set:
  assumes "expiry_wf e"
  shows "expiry_wf (set_expiry k t e)"
proof (cases "index e k")
  case None
  have "(if k' = k then Some (length (slots e)) else index e k') = Some i \<longleftrightarrow>
      i < Suc (length (slots e)) \<and> skey ((slots e @ [\<lparr>skey = k, at_ms = t\<rparr>]) ! i) = k'" for k' i
    using assms None expiry_wf_absent [OF assms None, of i]
    by (cases "i < length (slots e)") (auto simp: nth_append expiry_wf_def)
  then show ?thesis
    by (simp add: set_expiry_new [OF None] expiry_wf_def)
next
  case (Some h)
  have "skey ((slots e)[h := (slots e ! h)\<lparr>at_ms := t\<rparr>] ! i) = skey (slots e ! i)"
    if "i < length (slots e)" for i
    using that by (cases "i = h") simp_all
  with assms show ?thesis
    by (auto simp: set_expiry_again [OF Some] expiry_wf_def)
qed

lemma expiry_at_set:
  assumes "expiry_wf e"
  shows "expiry_at (set_expiry k t e) = (expiry_at e)(k \<mapsto> t)"
proof (cases "index e k")
  case None
  have "expiry_at (set_expiry k t e) k' = ((expiry_at e)(k \<mapsto> t)) k'" for k'
    using expiry_wfD [OF assms, of k']
    by (auto simp: set_expiry_new [OF None] expiry_at_def nth_append split: option.split)
  then show ?thesis ..
next
  case (Some h)
  note h = expiry_wfD [OF assms Some]
  have "expiry_at (set_expiry k t e) k' = ((expiry_at e)(k \<mapsto> t)) k'" for k'
  proof (cases "k' = k")
    case True
    with h Some show ?thesis by (simp add: set_expiry_again [OF Some] expiry_at_def)
  next
    case False
    then have "index e k' \<noteq> Some h"
      using h expiry_wfD [OF assms] by blast
    with False show ?thesis
      by (auto simp: set_expiry_again [OF Some] expiry_at_def split: option.split)
  qed
  then show ?thesis ..
qed

text \<open>Removal, in one equation: the last slot fills the hole.\<close>

definition slot_of :: "expiry \<Rightarrow> nat \<Rightarrow> nat \<Rightarrow> slot" where
  "slot_of e hole i = (if i = hole then slots e ! (length (slots e) - 1) else slots e ! i)"

lemma untrack_Some:
  assumes "expiry_wf e" and "index e k = Some h"
  shows "length (slots (snd (untrack k e))) = length (slots e) - 1"
    and "i < length (slots e) - 1 \<Longrightarrow> slots (snd (untrack k e)) ! i = slot_of e h i"
    and "index (snd (untrack k e)) =
           (if h = length (slots e) - 1 then index e
            else (index e)(skey (slots e ! (length (slots e) - 1)) \<mapsto> h))(k := None)"
  using assms by (auto simp: untrack_def Let_def slot_of_def nth_butlast nth_list_update)

lemma untrack_None: "index e k = None \<Longrightarrow> untrack k e = (False, e)"
  by (simp add: untrack_def)

lemma untrack_fst: "fst (untrack k e) \<longleftrightarrow> index e k \<noteq> None"
  by (simp add: untrack_def Let_def split: option.split)

lemma expiry_wf_untrack:
  assumes "expiry_wf e"
  shows "expiry_wf (snd (untrack k e))"
proof (cases "index e k")
  case None
  with assms show ?thesis by (simp add: untrack_None)
next
  case (Some h)
  define e' where "e' = snd (untrack k e)"
  let ?last = "length (slots e) - 1"
  note h = expiry_wfD [OF assms Some]
  note u = untrack_Some [OF assms Some, folded e'_def]
  have last: "?last < length (slots e)"
    using h by linarith
  have "index e' k' = Some i \<longleftrightarrow> i < ?last \<and> skey (slot_of e h i) = k'" for k' i
  proof -
    have fwd: "index e (skey (slots e ! j)) = Some j" if "j < length (slots e)" for j
      using expiry_wf_slot [OF assms that] .
    have inj: "skey (slots e ! j) = skey (slots e ! j') \<longleftrightarrow> j = j'"
      if "j < length (slots e)" "j' < length (slots e)" for j j'
      using expiry_wf_inj [OF assms that] .
    consider "i \<ge> length (slots e)" | "i = ?last" "i < length (slots e)" | "i < ?last"
      by linarith
    then show ?thesis
    proof cases
      case 1
      then have "index e k' \<noteq> Some i" for k'
        using expiry_wfD [OF assms] by fastforce
      with 1 h show ?thesis by (auto simp: u(3))
    next
      case 2
      then have "index e k' = Some i \<Longrightarrow> k' = skey (slots e ! ?last)" for k'
        using expiry_wfD [OF assms] by blast
      with 2 h Some show ?thesis by (auto simp: u(3) split: if_splits)
    next
      case 3
      show ?thesis
      proof (cases "i = h")
        case True
        have "skey (slots e ! ?last) \<noteq> k"
          using True 3 h inj [OF last, of h] by auto
        with True 3 h expiry_wfD [OF assms, of k' h] show ?thesis
          by (auto simp: u(3) slot_of_def)
      next
        case False
        have "index e k' = Some i \<longleftrightarrow> skey (slots e ! i) = k'"
          using 3 assms by (auto simp: expiry_wf_def)
        moreover have "skey (slots e ! i) \<noteq> k"
          using False 3 h inj [of i h] by auto
        moreover have "skey (slots e ! i) \<noteq> skey (slots e ! ?last)"
          using 3 inj [of i ?last] last by auto
        ultimately show ?thesis
          using False 3 by (auto simp: u(3) slot_of_def)
      qed
    qed
  qed
  then show ?thesis
    unfolding e'_def [symmetric] expiry_wf_def using u(1,2) by auto
qed

lemma expiry_at_untrack:
  assumes "expiry_wf e"
  shows "expiry_at (snd (untrack k e)) = (expiry_at e)(k := None)"
proof (cases "index e k")
  case None
  then show ?thesis by (auto simp: untrack_None expiry_at_def)
next
  case (Some h)
  define e' where "e' = snd (untrack k e)"
  note h = expiry_wfD [OF assms Some]
  note u = untrack_Some [OF assms Some, folded e'_def]
  have "expiry_at e' k' = ((expiry_at e)(k := None)) k'" for k'
  proof (cases "k' = k")
    case True
    then show ?thesis by (simp add: expiry_at_def u(3))
  next
    case False
    show ?thesis
    proof (cases "index e k'")
      case None
      then have "skey (slots e ! (length (slots e) - 1)) \<noteq> k'"
        using h by (intro expiry_wf_absent [OF assms None]) linarith
      with False None show ?thesis by (simp add: expiry_at_def u(3))
    next
      case (Some i)
      note i = expiry_wfD [OF assms Some]
      have "i \<noteq> h" using False h i by auto
      show ?thesis
      proof (cases "i = length (slots e) - 1")
        case True
        with i \<open>i \<noteq> h\<close> h have "h < length (slots e) - 1" by linarith
        with True i \<open>i \<noteq> h\<close> False Some show ?thesis
          by (auto simp: expiry_at_def u slot_of_def)
      next
        case ne: False
        then have "skey (slots e ! (length (slots e) - 1)) \<noteq> k'"
          using i h expiry_wf_inj [OF assms, of i "length (slots e) - 1"] by fastforce
        with ne i \<open>i \<noteq> h\<close> False Some show ?thesis
          by (auto simp: expiry_at_def u slot_of_def)
      qed
    qed
  qed
  then show ?thesis unfolding e'_def ..
qed

interpretation deadlines: keyed_store expiry_at set_expiry persist expiry_wf
  by unfold_locales
    (simp_all add: persist_def expiry_at_set expiry_at_untrack expiry_wf_set expiry_wf_untrack)

lemma expiry_at_None: "expiry_at e k = None \<longleftrightarrow> index e k = None"
  by (simp add: expiry_at_def split: option.split)

lemmas deadline_simps = deadlines.find_put deadlines.find_erase deadlines.wf_put deadlines.wf_erase

section \<open>Lazy expiry\<close>

text \<open>
  The outcome of a check in terms of the deadline alone: a key without one is left alone and the
  clock is not read; otherwise one reading decides.
\<close>

lemma check_and_expire_cases:
  "check_and_expire evict k (clk, e, w) =
     (case expiry_at e k of
        None \<Rightarrow> (False, clk, e, w)
      | Some t \<Rightarrow>
          if clk 0 < t then (False, \<lambda>i. clk (Suc i), e, w)
          else (True, \<lambda>i. clk (Suc i), persist k e, run_hook evict k w))"
  by (simp add: check_and_expire_def expiry_at_def wall_ms_def persist_def split: option.split)

section \<open>The active cycle evicts the expired, and ends\<close>

text \<open>A sequence of evictions: every key had a deadline that had passed, and loses it.\<close>

inductive evictions :: "(string \<Rightarrow> 'w \<Rightarrow> 'w) option \<Rightarrow> int \<Rightarrow> string list \<Rightarrow> expiry \<times> 'w \<Rightarrow> expiry \<times> 'w \<Rightarrow> bool"
  for evict now where
  none: "evictions evict now [] (e, w) (e, w)"
| evict: "expiry_at e k = Some t \<Longrightarrow> t \<le> now \<Longrightarrow>
     evictions evict now ks (persist k e, run_hook evict k w) (e', w') \<Longrightarrow>
     evictions evict now (k # ks) (e, w) (e', w')"

inductive_cases evictions_NilE [elim!]: "evictions evict now [] s s'"
inductive_cases evictions_ConsE [elim!]: "evictions evict now (k # ks) s s'"

lemma evictions_append:
  "evictions evict now ks s s1 \<Longrightarrow> evictions evict now ls s1 s2 \<Longrightarrow> evictions evict now (ks @ ls) s s2"
  by (induction rule: evictions.induct) (cases s2, auto intro: evictions.intros)+

lemma evictions_effect:
  "evictions evict now ks (e, w) (e', w') \<Longrightarrow> expiry_wf e \<Longrightarrow>
     expiry_wf e' \<and> distinct ks \<and> expiry_at e' = expiry_at e |` (- set ks) \<and>
     (\<forall>k \<in> set ks. \<exists>t \<le> now. expiry_at e k = Some t) \<and>
     length (slots e') + length ks = length (slots e) \<and>
     w' = fold (run_hook evict) ks w"
proof (induction ks arbitrary: e w)
  case Nil
  then show ?case by auto
next
  case (Cons k ks)
  then obtain t where t: "expiry_at e k = Some t" "t \<le> now"
    and rest: "evictions evict now ks (persist k e, run_hook evict k w) (e', w')"
    by auto
  have wf: "expiry_wf (persist k e)"
    using Cons.prems(2) by (rule deadlines.wf_erase)
  note IH = Cons.IH [OF rest wf]
  have find: "expiry_at (persist k e) = (expiry_at e)(k := None)"
    using Cons.prems(2) by (rule deadlines.find_erase)
  have len: "length (slots (persist k e)) + 1 = length (slots e)"
  proof -
    obtain h where "index e k = Some h"
      using t(1) by (auto simp: expiry_at_def split: option.splits)
    with untrack_Some(1) [OF Cons.prems(2) this] expiry_wfD [OF Cons.prems(2) this] show ?thesis
      unfolding persist_def by linarith
  qed
  have "k \<notin> set ks"
    using IH find by force
  moreover have "expiry_at e' = expiry_at e |` (- set (k # ks))"
    using IH find by (auto simp: restrict_map_def fun_eq_iff)
  moreover have "\<forall>k' \<in> set (k # ks). \<exists>t \<le> now. expiry_at e k' = Some t"
    using IH find t by (auto split: if_splits)
  ultimately show ?case
    using IH len by auto
qed

lemma draw_in_range: "rng_in_range rng \<Longrightarrow> draw n rng = (i, rng1) \<Longrightarrow> i \<le> n \<and> rng_in_range rng1"
  by (auto simp: draw_def rng_in_range_def)

lemma sample_round_evictions:
  "sample_round evict now n smp exd (rng, e, w) = (smp', exd', rng', e', w') \<Longrightarrow>
   expiry_wf e \<Longrightarrow> rng_in_range rng \<Longrightarrow>
   rng_in_range rng' \<and> smp \<le> smp' \<and> smp' \<le> smp + n \<and>
   (\<exists>ks. evictions evict now ks (e, w) (e', w') \<and> exd' = exd + length ks \<and> exd' \<le> exd + (smp' - smp))"
proof (induction n arbitrary: smp exd rng e w)
  case 0
  then show ?case by (auto intro!: exI [of _ "[]"] evictions.none)
next
  case (Suc n)
  show ?case
  proof (cases "slots e = []")
    case True
    with Suc.prems show ?thesis by (auto intro!: exI [of _ "[]"] evictions.none)
  next
    case False
    obtain i rng1 where d: "draw (length (slots e) - 1) rng = (i, rng1)"
      by fastforce
    have i: "i < length (slots e)" and rng1: "rng_in_range rng1"
      using draw_in_range [OF Suc.prems(3) d] False by (cases "slots e", auto)
    let ?k = "skey (slots e ! i)"
    show ?thesis
    proof (cases "now < at_ms (slots e ! i)")
      case True
      with Suc.prems(1) False d
      have "sample_round evict now n (smp + 1) exd (rng1, e, w) = (smp', exd', rng', e', w')"
        by simp
      from Suc.IH [OF this Suc.prems(2) rng1] show ?thesis by fastforce
    next
      case expired: False
      with Suc.prems(1) False d
      have run: "sample_round evict now n (smp + 1) (exd + 1) (rng1, persist ?k e, run_hook evict ?k w)
          = (smp', exd', rng', e', w')"
        by (simp add: persist_def Let_def)
      have "expiry_at e ?k = Some (at_ms (slots e ! i))"
        using expiry_wf_slot [OF Suc.prems(2) i] by (simp add: expiry_at_def)
      then have one: "evictions evict now ks (persist ?k e, run_hook evict ?k w) (e', w') \<Longrightarrow>
          evictions evict now (?k # ks) (e, w) (e', w')" for ks
        using expired by (intro evictions.evict) auto
      have wf: "expiry_wf (persist ?k e)"
        using Suc.prems(2) by (rule deadlines.wf_erase)
      from Suc.IH [OF run wf rng1] obtain ks where
        "evictions evict now ks (persist ?k e, run_hook evict ?k w) (e', w')"
        and "exd' = exd + 1 + length ks" "exd' \<le> exd + 1 + (smp' - (smp + 1))"
        "rng_in_range rng'" "smp + 1 \<le> smp'" "smp' \<le> smp + 1 + n"
        by blast
      with one [of ks] show ?thesis
        by (intro conjI exI [of _ "?k # ks"]) auto
    qed
  qed
qed

text \<open>
  The loop ends: it goes round again only when more than a quarter of the samples were evicted, so
  the vector has become shorter.
\<close>

lemma cycle_loop_returns:
  "expiry_wf e \<Longrightarrow> rng_in_range rng \<Longrightarrow>
   \<exists>st' rng' e' w' ks. cycle_loop evict now dl st micros rng e w = Some (st', rng', e', w') \<and>
     evictions evict now ks (e, w) (e', w') \<and> rounds st < rounds st' \<and>
     expired st' = expired st + length ks \<and> not_implemented st' = not_implemented st \<and>
     sampled st' - sampled st \<le> kSamplePerRound * (rounds st' - rounds st) \<and>
     expired st' - expired st \<le> sampled st' - sampled st \<and> sampled st \<le> sampled st'"
proof (induction "length (slots e)" arbitrary: e w rng st micros rule: less_induct)
  case less
  let ?n = "min kSamplePerRound (length (slots e))"
  obtain smp exd rng1 e1 w1 where round:
    "sample_round evict now ?n 0 0 (rng, e, w) = (smp, exd, rng1, e1, w1)"
    by (metis prod_cases5)
  from sample_round_evictions [OF round less.prems] obtain ks where
    ks: "evictions evict now ks (e, w) (e1, w1)" and exd: "exd = length ks" "exd \<le> smp"
    and smp: "smp \<le> kSamplePerRound" and rng1: "rng_in_range rng1"
    by auto
  define st1 where "st1 = st\<lparr>sampled := sampled st + smp, expired := expired st + exd,
    rounds := rounds st + 1\<rparr>"
  have loop: "cycle_loop evict now dl st micros rng e w =
      (if smp = 0 \<or> 4 * exd \<le> smp \<or> \<not> (micros 0 < dl \<and> slots e1 \<noteq> [])
       then Some (st1, rng1, e1, w1)
       else cycle_loop evict now dl st1 (\<lambda>i. micros (Suc i)) rng1 e1 w1)"
    by (subst cycle_loop.simps) (auto simp: round Let_def st1_def)
  show ?case
  proof (cases "smp = 0 \<or> 4 * exd \<le> smp \<or> \<not> (micros 0 < dl \<and> slots e1 \<noteq> [])")
    case True
    with loop ks exd smp show ?thesis
      by (intro exI [of _ st1] exI [of _ rng1] exI [of _ e1] exI [of _ w1] exI [of _ ks])
        (simp add: st1_def)
  next
    case False
    note eff = evictions_effect [OF ks less.prems(1)]
    have "length (slots e1) < length (slots e)"
      using eff False exd by auto
    from less.hyps [OF this _ rng1, of st1 "\<lambda>i. micros (Suc i)" w1] eff
    obtain st' rng' e' w' ls where run:
      "cycle_loop evict now dl st1 (\<lambda>i. micros (Suc i)) rng1 e1 w1 = Some (st', rng', e', w')"
      "evictions evict now ls (e1, w1) (e', w')" "rounds st1 < rounds st'"
      "expired st' = expired st1 + length ls" "not_implemented st' = not_implemented st1"
      "sampled st' - sampled st1 \<le> kSamplePerRound * (rounds st' - rounds st1)"
      "expired st' - expired st1 \<le> sampled st' - sampled st1" "sampled st1 \<le> sampled st'"
      by blast
    have "sampled st' - sampled st \<le> kSamplePerRound * (rounds st' - rounds st)"
    proof -
      have "rounds st' - rounds st = Suc (rounds st' - rounds st1)"
        using run(3) by (simp add: st1_def)
      then have "kSamplePerRound * (rounds st' - rounds st) =
          kSamplePerRound + kSamplePerRound * (rounds st' - rounds st1)"
        by simp
      with run(6) smp run(8) show ?thesis
        by (simp add: st1_def)
    qed
    with loop False run exd evictions_append [OF ks run(2)] show ?thesis
      by (intro exI [of _ st'] exI [of _ rng'] exI [of _ e'] exI [of _ w'] exI [of _ "ks @ ls"])
        (auto simp: st1_def)
  qed
qed

lemma active_cycle_evicts:
  assumes "expiry_wf e" and "rng_in_range rng"
  shows "\<exists>st n rng' e' w' ks.
     active_cycle evict budget micros rng (clk, e, w) = Some (st, \<lambda>i. clk (i + n), rng', e', w') \<and>
     evictions evict (clk 0) ks (e, w) (e', w') \<and> expired st = length ks \<and> expired st \<le> sampled st \<and>
     sampled st \<le> kSamplePerRound * rounds st \<and> \<not> not_implemented st"
proof (cases "slots e = []")
  case True
  then show ?thesis
    by (intro exI [of _ "\<lparr>sampled = 0, expired = 0, rounds = 0, not_implemented = False\<rparr>"] exI [of _ 0]
        exI [of _ rng] exI [of _ e] exI [of _ w] exI [of _ "[]"])
      (simp add: active_cycle_def evictions.none)
next
  case False
  let ?st0 = "\<lparr>sampled = 0, expired = 0, rounds = 0, not_implemented = False\<rparr> :: stats"
  from cycle_loop_returns [OF assms, of evict "clk 0" "micros 0 + budget" ?st0 "\<lambda>i. micros (Suc i)" w]
  obtain st rng' e' w' ks where run:
    "cycle_loop evict (clk 0) (micros 0 + budget) ?st0 (\<lambda>i. micros (Suc i)) rng e w = Some (st, rng', e', w')"
    "evictions evict (clk 0) ks (e, w) (e', w')" "expired st = length ks" "\<not> not_implemented st"
    "sampled st \<le> kSamplePerRound * rounds st" "expired st \<le> sampled st"
    by auto
  have "active_cycle evict budget micros rng (clk, e, w) = Some (st, \<lambda>i. clk (i + 1), rng', e', w')"
    using False by (simp add: active_cycle_def wall_ms_def Let_def run(1))
  with run show ?thesis by blast
qed

section \<open>Properties\<close>

text \<open>
  C23. The slot vector with its index implements a map from keys to deadlines: arming, disarming and
  querying are update, deletion and lookup of that map, and the two structures stay inverse to each
  other through swap-with-last removal.
\<close>

theorem expiry_refines_map:
  assumes "expiry_wf e"
  shows "expiry_at (set_expiry k t e) = (expiry_at e)(k \<mapsto> t) \<and> expiry_wf (set_expiry k t e) \<and>
    expiry_at (persist k e) = (expiry_at e)(k := None) \<and> expiry_wf (persist k e) \<and>
    length (slots (set_expiry k t e)) =
      (if expiry_at e k = None then Suc (length (slots e)) else length (slots e))"
  using assms deadline_simps
  by (auto simp: set_expiry_def expiry_at_None split: option.splits)

theorem expiry_refines_map_witness:
  "expiry_at (persist ''a'' (set_expiry ''b'' 7 (set_expiry ''a'' 5 ExpiryManager))) = [''b'' \<mapsto> 7]"
proof -
  have "expiry_wf (set_expiry ''a'' 5 ExpiryManager)"
    and a: "expiry_at (set_expiry ''a'' 5 ExpiryManager) = [''a'' \<mapsto> 5]"
    using expiry_refines_map [OF expiry_wf_empty, of "''a''" 5]
    by (simp_all add: expiry_at_def ExpiryManager_def fun_eq_iff)
  note b = expiry_refines_map [OF this(1), of "''b''" 7]
  then show ?thesis
    using expiry_refines_map [of "set_expiry ''b'' 7 (set_expiry ''a'' 5 ExpiryManager)" "''a''"] a
    by (simp add: fun_eq_iff)
qed

text \<open>
  C24. The active cycle returns, whatever the clock and the random draws do, with the time budget
  no part of the argument: every key it evicts had a deadline at or before the reading taken at the
  start, every other deadline is kept, the hook ran once per evicted key in that order, and the
  statistics count exactly the evictions with at most 20 samples a round.
\<close>

theorem active_cycle_correct:
  assumes "expiry_wf e" and "rng_in_range rng"
  shows "\<exists>st clk' rng' e' ks.
     active_cycle evict budget micros rng (clk, e, w) =
       Some (st, clk', rng', e', fold (run_hook evict) ks w) \<and>
     expiry_wf e' \<and> expiry_at e' = expiry_at e |` (- set ks) \<and> distinct ks \<and>
     (\<forall>k \<in> set ks. \<exists>t \<le> clk 0. expiry_at e k = Some t) \<and>
     expired st = length ks \<and> expired st \<le> sampled st \<and>
     sampled st \<le> kSamplePerRound * rounds st \<and> \<not> not_implemented st"
proof -
  obtain st n rng' e' w' ks where run:
    "active_cycle evict budget micros rng (clk, e, w) = Some (st, \<lambda>i. clk (i + n), rng', e', w')"
    "evictions evict (clk 0) ks (e, w) (e', w')" "expired st = length ks" "expired st \<le> sampled st"
    "sampled st \<le> kSamplePerRound * rounds st" "\<not> not_implemented st"
    using active_cycle_evicts [OF assms, of evict budget micros clk w] by blast
  with evictions_effect [OF run(2) assms(1)] show ?thesis by blast
qed

theorem active_cycle_correct_witness:
  "\<exists>st clk' rng' e' ks.
     active_cycle (Some (#)) 1000 (frozen_at 0) (\<lambda>j n. n) (frozen_at 6, set_expiry ''a'' 5 ExpiryManager, []) =
       Some (st, clk', rng', e', fold (run_hook (Some (#))) ks []) \<and>
     expired st = length ks \<and> sampled st \<le> kSamplePerRound * rounds st"
proof -
  have "expiry_wf (set_expiry ''a'' 5 ExpiryManager)" "rng_in_range (\<lambda>j n. n)"
    by (simp_all add: expiry_wf_set rng_in_range_def)
  from active_cycle_correct [OF this, of "Some (#)" 1000 "frozen_at 0" "frozen_at 6" "[]"]
  show ?thesis by blast
qed

end
