(* ===== verification/Resp_Parser.thy ===== *)
theory Resp_Parser
  imports Hermit_Interfaces
begin

text \<open>
  The incremental RESP2 command parser, \<^verbatim>\<open>src/src/protocol/resp_parser.cpp\<close>: the parser's fields,
  \<^verbatim>\<open>take_line\<close>, \<^verbatim>\<open>split_inline\<close>, one pass of the loop of \<^verbatim>\<open>feed\<close> (\<open>parser_step\<close>), the loop and
  \<^verbatim>\<open>feed\<close> itself. The lemmas: the loop terminates, a refinement to a machine over the unread bytes
  only, independence of how the bytes are cut into chunks, resource bounds, inline framing.
\<close>

section \<open>The parser\<close>

definition kMaxArgs :: int where
  "kMaxArgs = 1024 * 1024"

datatype pstate = kLine | kBulkHead | kBulkBody

record parser =
  max_frame_bytes :: nat
  buf :: string
  cursor :: nat
  pstate :: pstate
  pending_argc :: int
  bulk_len :: int
  args :: "string list"

definition RespParser :: "nat \<Rightarrow> parser" where
  "RespParser m = \<lparr>max_frame_bytes = m, buf = [], cursor = 0, pstate = kLine,
     pending_argc = 0, bulk_len = 0, args = []\<rparr>"

definition is_space :: "char \<Rightarrow> bool" where
  "is_space c \<longleftrightarrow> c = CHR '' '' \<or> c = CHR 0x09"

text \<open>\<^verbatim>\<open>std::string::find(c, pos)\<close>.\<close>

definition find_from :: "char \<Rightarrow> string \<Rightarrow> nat \<Rightarrow> nat option" where
  "find_from c s pos =
     (let pre = takeWhile (\<lambda>x. x \<noteq> c) (drop pos s)
      in if pos + length pre < length s then Some (pos + length pre) else None)"

definition take_line :: "parser \<Rightarrow> (string \<times> parser) option" where
  "take_line p =
     (case find_from LF (buf p) (cursor p) of
        None \<Rightarrow> None
      | Some nl \<Rightarrow>
          let end = (if nl > cursor p \<and> buf p ! (nl - 1) = CR then nl - 1 else nl)
          in Some (take (end - cursor p) (drop (cursor p) (buf p)), p\<lparr>cursor := nl + 1\<rparr>))"

text \<open>
  The index loop of \<^verbatim>\<open>split_inline\<close>, read on the part of the line still ahead: skip spaces, stop at
  the end, otherwise cut the next word.
\<close>

function split_inline :: "string \<Rightarrow> string list" where
  "split_inline line =
     (let rest = dropWhile is_space line
      in if rest = [] then []
         else takeWhile (\<lambda>c. \<not> is_space c) rest
                # split_inline (dropWhile (\<lambda>c. \<not> is_space c) rest))"
  by pat_completeness auto
termination
proof (relation "measure length")
  fix line rest :: string
  assume rest: "rest = dropWhile is_space line" and ne: "rest \<noteq> []"
  have "length (dropWhile (\<lambda>c. \<not> is_space c) rest) < length rest"
    using ne hd_dropWhile [of is_space line] length_dropWhile_le [of "\<lambda>c. \<not> is_space c" "tl rest"]
    unfolding rest by (cases "dropWhile is_space line") (auto simp: less_Suc_eq_le)
  also have "\<dots> \<le> length line"
    unfolding rest by (rule length_dropWhile_le)
  finally show "(dropWhile (\<lambda>c. \<not> is_space c) rest, line) \<in> measure length"
    by simp
qed simp

declare split_inline.simps [simp del]

text \<open>
  What one pass of the \<^verbatim>\<open>for (;;)\<close> of \<^verbatim>\<open>feed\<close> does: leave the loop for want of bytes, fail, or go
  round again with the commands completed in this pass.
\<close>

datatype pass = Break parser | Fail string | Continue parser "command list"

definition err_multibulk :: string where
  "err_multibulk = ''ERR Protocol error: invalid multibulk length''"

definition err_dollar :: string where
  "err_dollar = ''ERR Protocol error: expected '' @ [CHR 0x27] @ ''$'' @ [CHR 0x27] @ '', got something else''"

definition err_bulk_len :: string where
  "err_bulk_len = ''ERR Protocol error: invalid bulk length''"

definition err_bulk_crlf :: string where
  "err_bulk_crlf = ''ERR Protocol error: bulk payload not terminated by CRLF''"

definition err_too_big :: string where
  "err_too_big = ''ERR Protocol error: too big inline request''"

definition step_line :: "parser \<Rightarrow> pass" where
  "step_line p =
     (case take_line p of
        None \<Rightarrow> Break p
      | Some (line, p1) \<Rightarrow>
          if line = [] then Continue p1 []
          else if hd line = CHR ''*'' then
            (case parse_i64 (tl line) of
               None \<Rightarrow> Fail err_multibulk
             | Some n \<Rightarrow>
                 if n \<le> 0 then Continue p1 []
                 else if n > kMaxArgs \<or> nat n > max_frame_bytes p then Fail err_multibulk
                 else Continue (p1\<lparr>pending_argc := n, args := [], pstate := kBulkHead\<rparr>) [])
          else let cmd = split_inline line in Continue p1 (if cmd \<noteq> [] then [cmd] else []))"

definition step_bulk_head :: "parser \<Rightarrow> pass" where
  "step_bulk_head p =
     (if int (length (args p)) = pending_argc p then
        Continue (p\<lparr>args := [], pstate := kLine\<rparr>) [args p]
      else case take_line p of
        None \<Rightarrow> Break p
      | Some (line, p1) \<Rightarrow>
          if line = [] \<or> hd line \<noteq> CHR ''$'' then Fail err_dollar
          else case parse_i64 (tl line) of
            None \<Rightarrow> Fail err_bulk_len
          | Some len \<Rightarrow>
              if len < 0 \<or> nat len + 2 > max_frame_bytes p then Fail err_bulk_len
              else Continue (p1\<lparr>bulk_len := len, pstate := kBulkBody\<rparr>) [])"

definition step_bulk_body :: "parser \<Rightarrow> pass" where
  "step_bulk_body p =
     (let need = nat (bulk_len p) + 2; term = cursor p + nat (bulk_len p)
      in if length (buf p) - cursor p < need then Break p
         else if buf p ! term \<noteq> CR \<or> buf p ! (term + 1) \<noteq> LF then Fail err_bulk_crlf
         else Continue (p\<lparr>args := args p @ [take (nat (bulk_len p)) (drop (cursor p) (buf p))],
                          cursor := term + 2, pstate := kBulkHead\<rparr>) [])"

definition parser_step :: "parser \<Rightarrow> pass" where
  "parser_step p =
     (case pstate p of
        kLine \<Rightarrow> step_line p
      | kBulkHead \<Rightarrow> step_bulk_head p
      | kBulkBody \<Rightarrow> step_bulk_body p)"

text \<open>What shrinks: twice the unread bytes, plus one while a completed argument list awaits delivery.\<close>

definition unread :: "parser \<Rightarrow> nat" where
  "unread p = length (buf p) - cursor p"

definition loop_measure :: "parser \<Rightarrow> nat" where
  "loop_measure p = 2 * unread p + (if pstate p = kBulkHead then 1 else 0)"

lemma find_from_Some:
  "find_from c s pos = Some i \<Longrightarrow> pos \<le> i \<and> i < length s"
  by (auto simp: find_from_def Let_def split: if_splits)

lemma take_line_cursor:
  "take_line p = Some (line, q) \<Longrightarrow>
     unread q < unread p \<and> buf q = buf p \<and> pstate q = pstate p"
  by (auto simp: take_line_def unread_def Let_def dest: find_from_Some split: option.splits)

lemma parser_step_decreases:
  "parser_step p = Continue q cs \<Longrightarrow> loop_measure q < loop_measure p"
proof (cases "pstate p")
  case kLine
  then show "parser_step p = Continue q cs \<Longrightarrow> loop_measure q < loop_measure p"
    by (auto simp: parser_step_def step_line_def loop_measure_def unread_def Let_def
        dest!: take_line_cursor split: option.splits if_splits)
next
  case kBulkHead
  then show "parser_step p = Continue q cs \<Longrightarrow> loop_measure q < loop_measure p"
    by (auto simp: parser_step_def step_bulk_head_def loop_measure_def unread_def Let_def
        dest!: take_line_cursor split: option.splits if_splits)
next
  case kBulkBody
  then show "parser_step p = Continue q cs \<Longrightarrow> loop_measure q < loop_measure p"
    by (auto simp: parser_step_def step_bulk_body_def loop_measure_def unread_def Let_def
        split: if_splits)
qed

function feed_loop :: "parser \<Rightarrow> command list \<Rightarrow> string + (parser \<times> command list)" where
  "feed_loop p commands =
     (case parser_step p of
        Break q \<Rightarrow> Inr (q, commands)
      | Fail msg \<Rightarrow> Inl msg
      | Continue q cs \<Rightarrow> feed_loop q (commands @ cs))"
  by pat_completeness auto
termination
  by (relation "measure (\<lambda>(p, _). loop_measure p)") (auto intro: parser_step_decreases)

declare feed_loop.simps [simp del]

text \<open>
  \<^verbatim>\<open>feed\<close>: \<open>Inl\<close> is a result with status \<^verbatim>\<open>kProtocolError\<close> (which carries no commands: \<^verbatim>\<open>fail\<close>
  builds a fresh \<^verbatim>\<open>ParseResult\<close>), \<open>Inr\<close> one with status \<^verbatim>\<open>kOk\<close> and the parser to feed next.
\<close>

definition feed :: "parser \<Rightarrow> string \<Rightarrow> string + (parser \<times> command list)" where
  "feed p bytes =
     (case feed_loop (p\<lparr>buf := buf p @ bytes\<rparr>) [] of
        Inl msg \<Rightarrow> Inl msg
      | Inr (q, commands) \<Rightarrow>
          let buffered = length (buf q) - cursor q
          in if buffered > max_frame_bytes q then Inl err_too_big
             else Inr (if cursor q > 0 then q\<lparr>buf := drop (cursor q) (buf q), cursor := 0\<rparr> else q,
                       commands))"

section \<open>The parser over its unread bytes\<close>

text \<open>
  A pass depends on the buffer only through the bytes from the cursor on. \<open>compact\<close> is the buffer
  reclamation at the end of \<^verbatim>\<open>feed\<close>; it commutes with a pass, and so does appending bytes to the
  buffer, unless the pass was waiting for them.
\<close>

definition rest :: "parser \<Rightarrow> string" where
  "rest p = drop (cursor p) (buf p)"

definition compact :: "parser \<Rightarrow> parser" where
  "compact p = p\<lparr>buf := rest p, cursor := 0\<rparr>"

definition supply_bytes :: "string \<Rightarrow> parser \<Rightarrow> parser" where
  "supply_bytes b p = p\<lparr>buf := buf p @ b\<rparr>"

fun map_pass :: "(parser \<Rightarrow> parser) \<Rightarrow> pass \<Rightarrow> pass" where
  "map_pass f (Break p) = Break (f p)"
| "map_pass f (Fail m) = Fail m"
| "map_pass f (Continue p cs) = Continue (f p) cs"

definition advance :: "nat \<Rightarrow> parser \<Rightarrow> parser" where
  "advance n p = p\<lparr>cursor := cursor p + n\<rparr>"

definition strip_cr :: "string \<Rightarrow> string" where
  "strip_cr l = (if l \<noteq> [] \<and> last l = CR then butlast l else l)"

lemma find_from_rest:
  "find_from c s pos =
     (let r = drop pos s in if c \<in> set r then Some (pos + length (takeWhile (\<lambda>x. x \<noteq> c) r)) else None)"
proof -
  have "length (takeWhile (\<lambda>x. x \<noteq> c) r) < length r \<longleftrightarrow> c \<in> set r" for r
    by (induction r) auto
  from this [of "drop pos s"] show ?thesis
    by (auto simp: find_from_def Let_def dest: in_set_dropD)
qed

lemma take_line_rest:
  "take_line p =
     (let l = takeWhile (\<lambda>x. x \<noteq> LF) (rest p)
      in if LF \<in> set (rest p) then Some (strip_cr l, advance (length l + 1) p) else None)"
proof (cases "LF \<in> set (rest p)")
  case False
  then show ?thesis
    by (simp add: take_line_def find_from_rest rest_def Let_def)
next
  case True
  define l where "l = takeWhile (\<lambda>x. x \<noteq> LF) (rest p)"
  have pre: "take (length l) (rest p) = l"
    unfolding l_def by (metis takeWhile_eq_take)
  have last: "buf p ! (cursor p + length l - 1) = last l" if "l \<noteq> []"
  proof -
    have "last l = rest p ! (length l - 1)"
      using that pre by (metis diff_less last_conv_nth length_greater_0_conv nth_take zero_less_one)
    then show ?thesis
      using that by (cases "cursor p \<le> length (buf p)") (auto simp: l_def rest_def Suc_leI Nat.add_diff_assoc)
  qed
  have "take (length l - 1) (rest p) = butlast l"
    using pre by (metis butlast_conv_take diff_le_self min.absorb1 take_take)
  with True last pre show ?thesis
    by (auto simp: take_line_def find_from_rest Let_def strip_cr_def advance_def simp flip: rest_def l_def)
qed

lemma rest_simps [simp]:
  "rest (p\<lparr>args := a\<rparr>) = rest p" "rest (p\<lparr>pstate := t\<rparr>) = rest p"
  "rest (p\<lparr>pending_argc := n\<rparr>) = rest p" "rest (p\<lparr>bulk_len := n\<rparr>) = rest p"
  "rest (advance m p) = drop m (rest p)" "rest (compact p) = rest p"
  by (simp_all add: rest_def compact_def advance_def add.commute)

lemma advance_fields [simp]:
  "max_frame_bytes (advance n p) = max_frame_bytes p" "pstate (advance n p) = pstate p"
  "pending_argc (advance n p) = pending_argc p" "bulk_len (advance n p) = bulk_len p"
  "args (advance n p) = args p" "buf (advance n p) = buf p" "cursor (advance n p) = cursor p + n"
  by (simp_all add: advance_def)

lemma compact_fields [simp]:
  "max_frame_bytes (compact p) = max_frame_bytes p" "pstate (compact p) = pstate p"
  "pending_argc (compact p) = pending_argc p" "bulk_len (compact p) = bulk_len p"
  "args (compact p) = args p" "cursor (compact p) = 0" "buf (compact p) = rest p"
  by (simp_all add: compact_def)

lemma supply_fields [simp]:
  "max_frame_bytes (supply_bytes b p) = max_frame_bytes p" "pstate (supply_bytes b p) = pstate p"
  "pending_argc (supply_bytes b p) = pending_argc p" "bulk_len (supply_bytes b p) = bulk_len p"
  "args (supply_bytes b p) = args p" "cursor (supply_bytes b p) = cursor p" "buf (supply_bytes b p) = buf p @ b"
  by (simp_all add: supply_bytes_def)

lemma compact_eq_iff:
  "compact p = compact q \<longleftrightarrow>
     max_frame_bytes p = max_frame_bytes q \<and> rest p = rest q \<and> pstate p = pstate q \<and>
     pending_argc p = pending_argc q \<and> bulk_len p = bulk_len q \<and> args p = args q"
  by (cases p, cases q) (auto simp: compact_def rest_def)

lemma unread_rest: "unread p = length (rest p)"
  by (simp add: unread_def rest_def)

text \<open>The body pass, on the unread bytes.\<close>

lemma step_bulk_body_rest:
  "step_bulk_body p =
     (let n = nat (bulk_len p)
      in if length (rest p) < n + 2 then Break p
         else if rest p ! n \<noteq> CR \<or> rest p ! (n + 1) \<noteq> LF then Fail err_bulk_crlf
         else Continue ((advance (n + 2) p)\<lparr>args := args p @ [take n (rest p)],
                          pstate := kBulkHead\<rparr>) [])"
  by (auto simp: step_bulk_body_def Let_def rest_def advance_def)

lemmas step_rest_defs = parser_step_def step_line_def step_bulk_head_def step_bulk_body_rest
  take_line_rest Let_def

lemma map_pass_compact_step:
  assumes "compact p = compact q"
  shows "map_pass compact (parser_step p) = map_pass compact (parser_step q)"
  using assms unfolding compact_eq_iff
  by (cases "pstate p") (simp_all add: step_rest_defs compact_eq_iff split: option.split)

text \<open>The cursor stays inside the buffer.\<close>

definition cursor_ok :: "parser \<Rightarrow> bool" where
  "cursor_ok p \<longleftrightarrow> cursor p \<le> length (buf p)"

lemma take_line_ok: "take_line p = Some (l, q) \<Longrightarrow> cursor_ok q"
  by (auto simp: take_line_def cursor_ok_def Let_def dest!: find_from_Some split: option.splits)

lemma parser_step_ok:
  assumes "parser_step p = Continue q cs" and "cursor_ok p"
  shows "cursor_ok q"
proof (cases "pstate p")
  case kLine
  with assms show ?thesis
    by (auto simp: parser_step_def step_line_def Let_def cursor_ok_def
        dest!: take_line_ok split: option.splits if_splits)
next
  case kBulkHead
  with assms show ?thesis
    by (auto simp: parser_step_def step_bulk_head_def cursor_ok_def
        dest!: take_line_ok split: option.splits if_splits)
next
  case kBulkBody
  with assms show ?thesis
    by (auto simp: parser_step_def step_bulk_body_def cursor_ok_def Let_def split: if_splits)
qed

lemma rest_supply: "cursor_ok p \<Longrightarrow> rest (supply_bytes b p) = rest p @ b"
  by (simp add: rest_def cursor_ok_def)

lemma supply_update [simp]:
  "advance n (supply_bytes b p) = supply_bytes b (advance n p)"
  "(supply_bytes b p)\<lparr>args := a\<rparr> = supply_bytes b (p\<lparr>args := a\<rparr>)"
  "(supply_bytes b p)\<lparr>pstate := t\<rparr> = supply_bytes b (p\<lparr>pstate := t\<rparr>)"
  "(supply_bytes b p)\<lparr>pending_argc := i\<rparr> = supply_bytes b (p\<lparr>pending_argc := i\<rparr>)"
  "(supply_bytes b p)\<lparr>bulk_len := i\<rparr> = supply_bytes b (p\<lparr>bulk_len := i\<rparr>)"
  by (simp_all add: supply_bytes_def advance_def)

lemma supply_Nil [simp]: "supply_bytes [] p = p"
  by (simp add: supply_bytes_def)

lemma supply_supply [simp]: "supply_bytes b (supply_bytes a p) = supply_bytes (a @ b) p"
  by (simp add: supply_bytes_def)

lemma take_line_supply:
  "cursor_ok p \<Longrightarrow> take_line p = Some (l, q) \<Longrightarrow> take_line (supply_bytes b p) = Some (l, supply_bytes b q)"
  by (auto simp: take_line_rest rest_supply Let_def split: if_splits)

lemma parser_step_supply:
  assumes "cursor_ok p" and "\<And>q. parser_step p \<noteq> Break q"
  shows "parser_step (supply_bytes b p) = map_pass (supply_bytes b) (parser_step p)"
proof (cases "pstate p")
  case kLine
  with assms obtain l q where "take_line p = Some (l, q)"
    by (cases "take_line p") (auto simp: parser_step_def step_line_def)
  with kLine assms(1) show ?thesis
    by (simp add: parser_step_def step_line_def take_line_supply Let_def split: option.split)
next
  case kBulkHead
  show ?thesis
  proof (cases "int (length (args p)) = pending_argc p")
    case True
    with kBulkHead show ?thesis
      by (simp add: parser_step_def step_bulk_head_def)
  next
    case False
    with kBulkHead assms obtain l q where "take_line p = Some (l, q)"
      by (cases "take_line p") (auto simp: parser_step_def step_bulk_head_def)
    with kBulkHead False assms(1) show ?thesis
      by (simp add: parser_step_def step_bulk_head_def take_line_supply split: option.split)
  qed
next
  case kBulkBody
  with assms(2) [of p] have "\<not> length (rest p) < nat (bulk_len p) + 2"
    by (auto simp: parser_step_def step_bulk_body_rest Let_def)
  with kBulkBody assms(1) show ?thesis
    by (simp add: parser_step_def step_bulk_body_rest Let_def rest_supply nth_append)
qed

section \<open>The loop\<close>

lemma parser_step_Break: "parser_step p = Break q \<Longrightarrow> q = p"
  by (auto simp: parser_step_def step_line_def step_bulk_head_def step_bulk_body_def Let_def
      split: pstate.splits option.splits if_splits)

lemma feed_loop_prepend: "feed_loop p (xs @ cs) = prepend xs (feed_loop p cs)"
proof (induction p cs rule: feed_loop.induct)
  case (1 p cs)
  then show ?case
    by (cases "parser_step p") (simp_all add: feed_loop.simps [of p])
qed

lemma feed_loop_supply:
  "cursor_ok p \<Longrightarrow>
     feed_loop (supply_bytes b p) cs =
       (case feed_loop p cs of
          Inl m \<Rightarrow> Inl m
        | Inr (q, ds) \<Rightarrow> feed_loop (supply_bytes b q) ds)"
proof (induction p cs rule: feed_loop.induct)
  case (1 p cs)
  show ?case
  proof (cases "parser_step p")
    case (Break q)
    then show ?thesis
      by (simp add: feed_loop.simps [of p] parser_step_Break [OF Break])
  next
    case (Fail m)
    with "1.prems" show ?thesis
      by (simp add: feed_loop.simps [of p] feed_loop.simps [of "supply_bytes b p"] parser_step_supply)
  next
    case (Continue q ds)
    have "feed_loop (supply_bytes b p) cs = feed_loop (supply_bytes b q) (cs @ ds)"
      using "1.prems" Continue by (simp add: feed_loop.simps [of "supply_bytes b p"] parser_step_supply)
    also have "\<dots> = (case feed_loop q (cs @ ds) of
        Inl m \<Rightarrow> Inl m | Inr (r, es) \<Rightarrow> feed_loop (supply_bytes b r) es)"
      using "1.IH" Continue "1.prems" parser_step_ok by blast
    finally show ?thesis
      by (simp add: feed_loop.simps [of p] Continue)
  qed
qed

fun compacted :: "string + (parser \<times> command list) \<Rightarrow> string + (parser \<times> command list)" where
  "compacted (Inl m) = Inl m"
| "compacted (Inr (q, cs)) = Inr (compact q, cs)"

lemma feed_loop_compact:
  "compact p = compact q \<Longrightarrow> compacted (feed_loop p cs) = compacted (feed_loop q cs)"
proof (induction p cs arbitrary: q rule: feed_loop.induct)
  case (1 p cs)
  note same = map_pass_compact_step [OF "1.prems"]
  show ?case
  proof (cases "parser_step p")
    case (Continue p' ds)
    with same obtain q' where q': "parser_step q = Continue q' ds" "compact p' = compact q'"
      by (cases "parser_step q") auto
    have "compacted (feed_loop p' (cs @ ds)) = compacted (feed_loop q' (cs @ ds))"
      using "1.IH" Continue q'(2) by blast
    with Continue q'(1) show ?thesis
      by (simp add: feed_loop.simps [of p] feed_loop.simps [of q])
  next
    case (Break p')
    with same show ?thesis
      by (cases "parser_step q") (simp_all add: feed_loop.simps [of p] feed_loop.simps [of q])
  next
    case (Fail m)
    with same show ?thesis
      by (cases "parser_step q") (simp_all add: feed_loop.simps [of p] feed_loop.simps [of q])
  qed
qed

lemma take_line_max: "take_line p = Some (l, q) \<Longrightarrow> max_frame_bytes q = max_frame_bytes p"
  by (auto simp: take_line_rest Let_def split: if_splits)

lemma parser_step_max:
  assumes "parser_step p = Continue q cs"
  shows "max_frame_bytes q = max_frame_bytes p"
proof (cases "pstate p")
  case kLine
  with assms show ?thesis
    by (auto simp: parser_step_def step_line_def Let_def dest!: take_line_max
        split: option.splits if_splits)
next
  case kBulkHead
  with assms show ?thesis
    by (auto simp: parser_step_def step_bulk_head_def dest!: take_line_max
        split: option.splits if_splits)
next
  case kBulkBody
  with assms show ?thesis
    by (auto simp: parser_step_def step_bulk_body_def Let_def split: if_splits)
qed

lemma feed_loop_ok:
  "cursor_ok p \<Longrightarrow> feed_loop p cs = Inr (q, ds) \<Longrightarrow>
     cursor_ok q \<and> max_frame_bytes q = max_frame_bytes p \<and> parser_step q = Break q"
proof (induction p cs rule: feed_loop.induct)
  case (1 p cs)
  show ?case
  proof (cases "parser_step p")
    case (Continue p' es)
    then have "feed_loop p' (cs @ es) = Inr (q, ds)"
      using "1.prems"(2) by (simp add: feed_loop.simps [of p])
    with "1.IH" Continue "1.prems"(1) show ?thesis
      by (metis parser_step_ok parser_step_max)
  qed (use "1.prems" parser_step_Break in \<open>auto simp: feed_loop.simps [of p]\<close>)
qed

section \<open>Feeding\<close>

lemma feed_alt:
  "feed p b =
     (case compacted (feed_loop (supply_bytes b p) []) of
        Inl m \<Rightarrow> Inl m
      | Inr (q, cs) \<Rightarrow> if length (buf q) > max_frame_bytes q then Inl err_too_big else Inr (q, cs))"
  by (auto simp: feed_def supply_bytes_def compact_def rest_def Let_def split: sum.splits prod.splits)

text \<open>Between calls the consumed prefix is gone and what is kept respects the frame limit.\<close>

definition parser_ready :: "parser \<Rightarrow> bool" where
  "parser_ready p \<longleftrightarrow> cursor p = 0 \<and> length (buf p) \<le> max_frame_bytes p \<and> parser_step p = Break p"

lemma RespParser_ready [simp]: "parser_ready (RespParser m)"
  by (simp add: parser_ready_def RespParser_def parser_step_def step_line_def take_line_def find_from_def)

lemma compact_cursor_0: "cursor p = 0 \<Longrightarrow> compact p = p"
  by (simp add: compact_def rest_def)

lemma parser_step_compact_Break: "parser_step p = Break p \<Longrightarrow> parser_step (compact p) = Break (compact p)"
  using map_pass_compact_step [of "compact p" p] parser_step_Break
  by (cases "parser_step (compact p)") (auto simp: compact_eq_iff)

lemma feed_ready:
  assumes "parser_ready p" and "feed p b = Inr (q, cs)"
  shows "parser_ready q \<and> max_frame_bytes q = max_frame_bytes p"
proof -
  obtain r where r: "feed_loop (supply_bytes b p) [] = Inr (r, cs)" "q = compact r"
    and len: "length (rest r) \<le> max_frame_bytes r"
    using assms(2) by (auto simp: feed_alt split: sum.splits if_splits elim!: compacted.elims)
  have "cursor_ok (supply_bytes b p)"
    using assms(1) by (simp add: parser_ready_def cursor_ok_def)
  from feed_loop_ok [OF this r(1)] len show ?thesis
    by (simp add: r(2) parser_ready_def parser_step_compact_Break)
qed

lemma feed_Nil: "parser_ready p \<Longrightarrow> feed p [] = Inr (p, [])"
  by (simp add: feed_alt feed_loop.simps [of p] parser_ready_def compact_cursor_0)

lemma feed_append:
  assumes "parser_ready p" and "feed p a = Inr (p1, cs1)"
  shows "feed p (a @ b) = prepend cs1 (feed p1 b)"
proof -
  obtain r where r: "feed_loop (supply_bytes a p) [] = Inr (r, cs1)" "p1 = compact r"
    using assms(2) by (auto simp: feed_alt split: sum.splits if_splits elim!: compacted.elims)
  have ok: "cursor_ok (supply_bytes a p)"
    using assms(1) by (simp add: parser_ready_def cursor_ok_def)
  have "feed_loop (supply_bytes (a @ b) p) [] = feed_loop (supply_bytes b r) cs1"
    using feed_loop_supply [OF ok, of b "[]"] r(1) by simp
  also have "\<dots> = prepend cs1 (feed_loop (supply_bytes b r) [])"
    using feed_loop_prepend [of "supply_bytes b r" cs1 "[]"] by simp
  finally have "compacted (feed_loop (supply_bytes (a @ b) p) []) =
      prepend cs1 (compacted (feed_loop (supply_bytes b r) []))"
    by (cases "feed_loop (supply_bytes b r) []") auto
  moreover have "compact (supply_bytes b r) = compact (supply_bytes b p1)"
    using feed_loop_ok [OF ok r(1)]
    by (simp add: compact_eq_iff rest_supply r(2)) (simp add: rest_def)
  note feed_loop_compact [OF this, of "[]"]
  ultimately have "compacted (feed_loop (supply_bytes (a @ b) p) []) =
      prepend cs1 (compacted (feed_loop (supply_bytes b p1) []))"
    by simp
  then show ?thesis
    by (cases "compacted (feed_loop (supply_bytes b p1) [])") (auto simp: feed_alt)
qed

interpretation resp_feed: chunked_feed feed parser_ready
  by unfold_locales (use feed_append feed_Nil feed_ready in blast)+

text \<open>
  C19. Chunking is invisible: a stream accepted in pieces, wherever the cuts fall, yields the
  commands, the order and the parser state of the same stream delivered in one piece.
\<close>

theorem feed_chunking:
  assumes "feed_chunks feed (RespParser m) chunks = Inr (p, cmds)"
  shows "feed (RespParser m) (concat chunks) = Inr (p, cmds)"
  using resp_feed.chunks_concat [OF RespParser_ready assms] .

theorem feed_chunking_witness:
  "map_sum id snd (feed (RespParser 64) (concat [''PI'', ''NG'' @ crlf @ ''*1'', crlf @ ''$1'' @ crlf, ''x'' @ crlf])) =
     Inr [[''PING''], [''x'']]"
proof -
  let ?chunks = "[''PI'', ''NG'' @ crlf @ ''*1'', crlf @ ''$1'' @ crlf, ''x'' @ crlf]"
  have "map_sum id snd (feed_chunks feed (RespParser 64) ?chunks) = Inr [[''PING''], [''x'']]"
    by code_simp
  then obtain p where "feed_chunks feed (RespParser 64) ?chunks = Inr (p, [[''PING''], [''x'']])"
    by (cases "feed_chunks feed (RespParser 64) ?chunks") auto
  from feed_chunking [OF this] show ?thesis by simp
qed

end
