(* ===== verification/Resp_Writer.thy ===== *)
theory Resp_Writer
  imports Hermit_Prelude
begin

text \<open>
  Reply serialisation, \<^verbatim>\<open>src/src/protocol/resp_writer.cpp\<close>: one definition per function of the
  namespace \<^verbatim>\<open>resp\<close>, and the facts the dispatcher relies on when it inspects a reply by its bytes
  (\<^verbatim>\<open>log_mutation\<close> compares replies with \<^verbatim>\<open>"+OK"\<close>, \<^verbatim>\<open>":1"\<close>, \<^verbatim>\<open>":0"\<close>, \<^verbatim>\<open>"$-1"\<close> and their first byte).
\<close>

definition resp_simple :: "string \<Rightarrow> string" where
  [resp_defs]: "resp_simple s = CHR ''+'' # s @ crlf"

definition resp_error :: "string \<Rightarrow> string" where
  [resp_defs]: "resp_error msg = CHR ''-'' # msg @ crlf"

definition resp_integer :: "int \<Rightarrow> string" where
  [resp_defs]: "resp_integer n = '':'' @ to_string n @ crlf"

definition resp_bulk :: "string \<Rightarrow> string" where
  [resp_defs]: "resp_bulk payload =
     CHR ''$'' # to_string (int (length payload)) @ crlf @ payload @ crlf"

definition resp_null_bulk :: string where
  [resp_defs]: "resp_null_bulk = ''$-1'' @ crlf"

definition resp_array :: "string list \<Rightarrow> string" where
  [resp_defs]: "resp_array encoded_elements =
     ''*'' @ to_string (int (length encoded_elements)) @ crlf @ concat encoded_elements"

definition resp_null_array :: string where
  [resp_defs]: "resp_null_array = ''*-1'' @ crlf"

definition resp_empty_array :: string where
  [resp_defs]: "resp_empty_array = ''*0'' @ crlf"

section \<open>Replies are told apart by their bytes\<close>

lemma resp_nonempty [simp]:
  "resp_simple s \<noteq> []" "resp_error s \<noteq> []" "resp_integer n \<noteq> []" "resp_bulk s \<noteq> []"
  "resp_null_bulk \<noteq> []" "resp_array es \<noteq> []"
  by (simp_all add: resp_defs)

lemma resp_hd [simp]:
  "hd (resp_simple s) = CHR ''+''" "hd (resp_error s) = CHR ''-''"
  "hd (resp_integer n) = CHR '':''" "hd (resp_bulk s) = CHR ''$''"
  "hd resp_null_bulk = CHR ''$''" "hd (resp_array es) = CHR ''*''"
  by (simp_all add: resp_defs)

lemma resp_integer_inject [simp]: "resp_integer m = resp_integer n \<longleftrightarrow> m = n"
  by (simp add: resp_integer_def)

lemma resp_simple_inject [simp]: "resp_simple s = resp_simple t \<longleftrightarrow> s = t"
  by (simp add: resp_simple_def)

text \<open>A bulk reply is never the null bulk: a length is printed without a sign.\<close>

lemma resp_bulk_not_null [simp]: "resp_bulk s \<noteq> resp_null_bulk"
proof
  assume "resp_bulk s = resp_null_bulk"
  then have "hd (tl (resp_bulk s)) = hd (tl resp_null_bulk)"
    by (rule arg_cong)
  then show False
    by (simp add: resp_bulk_def resp_null_bulk_def to_string_def hd_append hd_nat_to_string)
qed

lemma resp_distinct [simp]:
  "resp_simple s \<noteq> resp_error t" "resp_simple s \<noteq> resp_integer n" "resp_simple s \<noteq> resp_bulk t"
  "resp_simple s \<noteq> resp_null_bulk" "resp_simple s \<noteq> resp_array es"
  "resp_integer n \<noteq> resp_error t" "resp_integer n \<noteq> resp_bulk t"
  "resp_integer n \<noteq> resp_null_bulk" "resp_integer n \<noteq> resp_array es"
  "resp_bulk t \<noteq> resp_error s" "resp_bulk t \<noteq> resp_array es"
  "resp_null_bulk \<noteq> resp_error s" "resp_null_bulk \<noteq> resp_array es" "resp_array es \<noteq> resp_error s"
  by (simp_all add: resp_defs)

lemmas resp_distinct_sym [simp] = resp_distinct [THEN not_sym] resp_bulk_not_null [THEN not_sym]

end
