(* ===== verification/Wal_Format.thy ===== *)
theory Wal_Format
  imports Resp_Parser Resp_Writer
begin

text \<open>
  The record format of the write-ahead log, \<^verbatim>\<open>Wal::encode\<close> of \<^verbatim>\<open>src/src/persist/wal.cpp\<close>, against
  the parser that reads it back: the log is a stream of RESP arrays, so the format is also what a
  client sends. The lemmas: encoding then feeding gives the commands back, and a log cut anywhere
  looks incomplete, never malformed.
\<close>

definition encode :: "command \<Rightarrow> string" where
  "encode cmd =
     ''*'' @ to_string (int (length cmd)) @ crlf @
     concat (map (\<lambda>arg. ''$'' @ to_string (int (length arg)) @ crlf @ arg @ crlf) cmd)"

lemma encode_resp: "encode cmd = resp_array (map resp_bulk cmd)"
  by (simp add: encode_def resp_array_def resp_bulk_def [abs_def])

text \<open>What a parser with frame limit \<open>m\<close> takes: the limits checked in \<^verbatim>\<open>feed\<close>.\<close>

definition arg_fits :: "nat \<Rightarrow> string \<Rightarrow> bool" where
  "arg_fits m arg \<longleftrightarrow> length arg + 2 \<le> m \<and> in_i64 (int (length arg))"

definition cmd_fits :: "nat \<Rightarrow> command \<Rightarrow> bool" where
  "cmd_fits m cmd \<longleftrightarrow>
     cmd \<noteq> [] \<and> int (length cmd) \<le> kMaxArgs \<and> length cmd \<le> m \<and> list_all (arg_fits m) cmd"

section \<open>Reading a header line\<close>

lemma take_line_header:
  assumes "rest p = l @ crlf @ t" and "LF \<notin> set l"
  shows "take_line p = Some (l, advance (length l + 2) p)"
proof -
  have "takeWhile (\<lambda>x. x \<noteq> LF) (l @ crlf @ t) = l @ [CR]"
    using assms(2) by (induction l) auto
  with assms(1) show ?thesis
    by (simp add: take_line_rest strip_cr_def)
qed

lemma kBulkHead_next:
  assumes "pstate p = kBulkHead" and "int (length (args p)) \<noteq> pending_argc p"
    and "rest p = ''$'' @ to_string (int n) @ crlf @ t"
    and "n + 2 \<le> max_frame_bytes p" and "in_i64 (int n)"
  shows "parser_step p = Continue ((advance (length (to_string (int n)) + 3) p)
           \<lparr>bulk_len := int n, pstate := kBulkBody\<rparr>) []"
proof -
  have "take_line p = Some (''$'' @ to_string (int n),
          advance (length (''$'' @ to_string (int n)) + 2) p)"
    by (rule take_line_header [of p _ t]) (simp_all add: assms(3))
  with assms(1,2,4,5) show ?thesis
    by (simp add: parser_step_def step_bulk_head_def parse_i64_to_string numeral_3_eq_3)
qed

lemma kBulkBody_next:
  assumes "pstate p = kBulkBody" and "bulk_len p = int (length a)" and "rest p = a @ crlf @ t"
  shows "parser_step p =
           Continue ((advance (length a + 2) p)\<lparr>args := args p @ [a], pstate := kBulkHead\<rparr>) []"
  using assms by (simp add: parser_step_def step_bulk_body_rest nth_append)

lemma kBulkBody_cut:
  "pstate p = kBulkBody \<Longrightarrow> bulk_len p = int n \<Longrightarrow> length (rest p) < n + 2 \<Longrightarrow> parser_step p = Break p"
  by (simp add: parser_step_def step_bulk_body_rest)

lemma feed_loop_Continue:
  "parser_step p = Continue q ds \<Longrightarrow> feed_loop p cs = feed_loop q (cs @ ds)"
  by (simp add: feed_loop.simps [of p])

text \<open>One argument, read from its header to its terminator.\<close>

lemma feed_loop_arg:
  assumes "pstate p = kBulkHead" and "int (length (args p)) \<noteq> pending_argc p"
    and "rest p = resp_bulk a @ t" and "arg_fits (max_frame_bytes p) a"
  shows "\<exists>q. feed_loop p cs = feed_loop q cs \<and> pstate q = kBulkHead \<and> args q = args p @ [a] \<and>
           pending_argc q = pending_argc p \<and> rest q = t \<and> max_frame_bytes q = max_frame_bytes p"
proof -
  define p1 where "p1 = (advance (length (to_string (int (length a))) + 3) p)
     \<lparr>bulk_len := int (length a), pstate := kBulkBody\<rparr>"
  define p2 where "p2 = (advance (length a + 2) p1)\<lparr>args := args p @ [a], pstate := kBulkHead\<rparr>"
  have s1: "parser_step p = Continue p1 []"
    using assms unfolding p1_def
    by (intro kBulkHead_next [where t = "a @ crlf @ t"]) (simp_all add: resp_bulk_def arg_fits_def)
  have r1: "rest p1 = a @ crlf @ t"
    by (simp add: p1_def assms(3) resp_bulk_def numeral_3_eq_3)
  have s2: "parser_step p1 = Continue p2 []"
    using kBulkBody_next [OF _ _ r1] by (simp add: p1_def p2_def)
  have "feed_loop p cs = feed_loop p2 cs"
    by (simp add: feed_loop_Continue [OF s1] feed_loop_Continue [OF s2])
  moreover have "rest p2 = t"
    by (simp add: p2_def r1)
  ultimately show ?thesis
    by (intro exI [of _ p2]) (simp add: p1_def p2_def)
qed

lemma feed_loop_args:
  "pstate p = kBulkHead \<Longrightarrow> pending_argc p = int (length (args p) + length bs) \<Longrightarrow>
   rest p = concat (map resp_bulk bs) @ t \<Longrightarrow> list_all (arg_fits (max_frame_bytes p)) bs \<Longrightarrow>
   \<exists>q. feed_loop p cs = feed_loop q (cs @ [args p @ bs]) \<and> pstate q = kLine \<and> rest q = t \<and>
       max_frame_bytes q = max_frame_bytes p"
proof (induction bs arbitrary: p)
  case Nil
  then have "parser_step p = Continue (p\<lparr>args := [], pstate := kLine\<rparr>) [args p]"
    by (simp add: parser_step_def step_bulk_head_def)
  with Nil show ?case
    by (intro exI [of _ "p\<lparr>args := [], pstate := kLine\<rparr>"]) (simp add: feed_loop_Continue)
next
  case (Cons b bs)
  then obtain q where "feed_loop p cs = feed_loop q cs" and q: "pstate q = kBulkHead"
    "args q = args p @ [b]" "pending_argc q = pending_argc p"
    "rest q = concat (map resp_bulk bs) @ t" "max_frame_bytes q = max_frame_bytes p"
    using feed_loop_arg [of p b "concat (map resp_bulk bs) @ t" cs] by auto
  with Cons.IH [of q] Cons.prems show ?case
    by simp
qed

section \<open>Round trip\<close>

lemma feed_loop_cmd:
  assumes "pstate p = kLine" and "rest p = encode cmd @ t" and "cmd_fits (max_frame_bytes p) cmd"
  shows "\<exists>q. feed_loop p cs = feed_loop q (cs @ [cmd]) \<and> pstate q = kLine \<and> rest q = t \<and>
           max_frame_bytes q = max_frame_bytes p"
proof -
  let ?n = "int (length cmd)"
  define p1 where "p1 = (advance (length (''*'' @ to_string ?n) + 2) p)
     \<lparr>pending_argc := ?n, args := [], pstate := kBulkHead\<rparr>"
  have line: "take_line p = Some (''*'' @ to_string ?n, advance (length (''*'' @ to_string ?n) + 2) p)"
    using assms(2) by (intro take_line_header [where t = "concat (map resp_bulk cmd) @ t"])
      (simp_all add: encode_resp resp_array_def)
  have n: "0 < ?n" "?n \<le> kMaxArgs" "in_i64 ?n"
    using assms(3) by (auto simp: cmd_fits_def kMaxArgs_def i64_simps)
  have "parser_step p = Continue p1 []"
    using line n assms(1,3)
    by (simp add: parser_step_def step_line_def parse_i64_to_string p1_def cmd_fits_def)
  then have "feed_loop p cs = feed_loop p1 cs"
    by (simp add: feed_loop_Continue)
  moreover have "rest p1 = concat (map resp_bulk cmd) @ t"
    by (simp add: p1_def assms(2) encode_resp resp_array_def)
  ultimately show ?thesis
    using feed_loop_args [of p1 cmd t cs] assms(3) by (simp add: p1_def cmd_fits_def)
qed

abbreviation encode_all :: "command list \<Rightarrow> string" where
  "encode_all cmds \<equiv> concat (map encode cmds)"

lemma feed_loop_cmds:
  "pstate p = kLine \<Longrightarrow> rest p = encode_all cmds @ t \<Longrightarrow> list_all (cmd_fits (max_frame_bytes p)) cmds \<Longrightarrow>
   \<exists>q. feed_loop p cs = feed_loop q (cs @ cmds) \<and> pstate q = kLine \<and> rest q = t \<and>
       max_frame_bytes q = max_frame_bytes p"
proof (induction cmds arbitrary: p cs)
  case Nil
  then show ?case by auto
next
  case (Cons c cmds)
  then obtain q where "feed_loop p cs = feed_loop q (cs @ [c])" and q: "pstate q = kLine"
    "rest q = encode_all cmds @ t" "max_frame_bytes q = max_frame_bytes p"
    using feed_loop_cmd [of p c "encode_all cmds @ t" cs] by auto
  with Cons.IH [of q "cs @ [c]"] Cons.prems show ?case
    by simp
qed

lemma feed_encode_all:
  assumes "pstate p = kLine" "buf p = []" "cursor p = 0" "list_all (cmd_fits (max_frame_bytes p)) cmds"
  shows "\<exists>q. feed p (encode_all cmds) = Inr (q, cmds) \<and> pstate q = kLine \<and> buf q = [] \<and> cursor q = 0"
proof -
  let ?p = "supply_bytes (encode_all cmds) p"
  obtain q where "feed_loop ?p [] = feed_loop q cmds" and q: "pstate q = kLine" "rest q = []"
    using feed_loop_cmds [of ?p cmds "[]" "[]"] assms by (auto simp: rest_def)
  moreover have "feed_loop q cmds = Inr (q, cmds)"
    using q by (simp add: feed_loop.simps [of q] parser_step_def step_line_def take_line_rest)
  ultimately show ?thesis
    using q by (intro exI [of _ "compact q"]) (simp add: feed_alt)
qed

section \<open>The bytes determine the records\<close>

lemma number_line_inject:
  assumes "to_string (int m) @ crlf @ x = to_string (int n) @ crlf @ y"
  shows "m = n \<and> x = y"
proof -
  have digits: "takeWhile is_digit (nat_to_string k @ CR # z) = nat_to_string k" for k z
    by (simp add: takeWhile_append2 nat_to_string_digits)
  have "nat_to_string m @ CR # LF # x = nat_to_string n @ CR # LF # y"
    using assms by (simp add: to_string_def)
  from arg_cong [OF this, of "takeWhile is_digit"] have "nat_to_string m = nat_to_string n"
    by (simp only: digits)
  from arg_cong [OF this, of digits_val] have "m = n" by simp
  with assms show ?thesis by simp
qed

lemma resp_bulk_inject:
  assumes "resp_bulk a @ x = resp_bulk b @ y"
  shows "a = b \<and> x = y"
  using assms number_line_inject [of "length a" "a @ crlf @ x" "length b" "b @ crlf @ y"]
  by (auto simp: resp_bulk_def)

lemma resp_bulks_inject:
  "length as = length bs \<Longrightarrow> concat (map resp_bulk as) @ x = concat (map resp_bulk bs) @ y \<Longrightarrow> as = bs \<and> x = y"
proof (induction as bs rule: list_induct2)
  case (Cons a as b bs)
  with resp_bulk_inject [of a "concat (map resp_bulk as) @ x" b "concat (map resp_bulk bs) @ y"] show ?case by simp
qed simp

lemma encode_inject:
  assumes "encode a @ x = encode b @ y"
  shows "a = b \<and> x = y"
  using assms resp_bulks_inject [of a b x y]
    number_line_inject [of "length a" "concat (map resp_bulk a) @ x" "length b" "concat (map resp_bulk b) @ y"]
  by (auto simp: encode_resp resp_array_def)

lemma encode_all_inject: "encode_all as = encode_all bs \<Longrightarrow> as = bs"
proof (induction as arbitrary: bs)
  case Nil
  then show ?case by (cases bs) (auto simp: encode_resp resp_array_def)
next
  case (Cons a as)
  then obtain b bs' where "bs = b # bs'" by (cases bs) (auto simp: encode_resp resp_array_def)
  with Cons encode_inject [of a "encode_all as" b "encode_all bs'"] show ?case by simp
qed

section \<open>A torn log looks incomplete\<close>

lemma length_nat_to_string: "n < 10 ^ Suc k \<Longrightarrow> length (nat_to_string n) \<le> Suc k"
proof (induction k arbitrary: n)
  case 0
  then show ?case by (simp add: nat_to_string.simps)
next
  case (Suc k)
  show ?case
  proof (cases "n < 10")
    case True
    then show ?thesis by (simp add: nat_to_string.simps)
  next
    case False
    have "n div 10 < 10 ^ Suc k"
      using Suc.prems by (simp add: less_mult_imp_div_less)
    from Suc.IH [OF this] False show ?thesis
      by (simp add: nat_to_string.simps [of n])
  qed
qed

lemma length_to_string_i64: "in_i64 n \<Longrightarrow> 0 \<le> n \<Longrightarrow> length (to_string n) \<le> 19"
  using length_nat_to_string [of "nat n" 18] by (auto simp: to_string_def i64_simps)

text \<open>A header line without its line feed makes the parser wait.\<close>

lemma take_line_cut:
  assumes "rest p = take n (l @ crlf @ t)" and "n < length l + 2" and "LF \<notin> set l"
  shows "take_line p = None"
proof -
  have "take n (l @ crlf @ t) = take n (l @ [CR])"
    using assms(2) by (auto simp: take_Cons')
  then have "LF \<notin> set (rest p)"
    using assms(1,3) by (auto dest: in_set_takeD)
  then show ?thesis by (simp add: take_line_rest)
qed

lemma feed_loop_torn_arg:
  assumes "pstate p = kBulkHead" and "int (length (args p)) \<noteq> pending_argc p"
    and "rest p = take n (resp_bulk a)" and "n < length (resp_bulk a)"
    and "arg_fits (max_frame_bytes p) a" and "32 \<le> max_frame_bytes p"
  shows "\<exists>q. feed_loop p cs = Inr (q, cs) \<and> length (rest q) \<le> max_frame_bytes q"
proof -
  let ?h = "''$'' @ to_string (int (length a))"
  have bulk: "resp_bulk a = ?h @ crlf @ a @ crlf"
    by (simp add: resp_bulk_def)
  have h: "length ?h \<le> 20"
    using assms(5) length_to_string_i64 by (simp add: arg_fits_def)
  show ?thesis
  proof (cases "n < length ?h + 2")
    case True
    then have "take_line p = None"
      using assms(3) bulk by (intro take_line_cut [of p n ?h "a @ crlf"]) simp_all
    with assms(1,2) have "feed_loop p cs = Inr (p, cs)"
      by (simp add: feed_loop.simps [of p] parser_step_def step_bulk_head_def)
    moreover have "length (rest p) \<le> max_frame_bytes p"
      using True h assms(3,6) by simp
    ultimately show ?thesis by blast
  next
    case False
    define q where "q = (advance (length (to_string (int (length a))) + 3) p)
      \<lparr>bulk_len := int (length a), pstate := kBulkBody\<rparr>"
    let ?b = "take (n - (length ?h + 2)) (a @ crlf)"
    have r: "rest p = ''$'' @ to_string (int (length a)) @ crlf @ ?b"
      using False assms(3) bulk by (simp add: take_Cons')
    have "parser_step p = Continue q []"
      unfolding q_def using assms(5) kBulkHead_next [OF assms(1,2) r] by (simp add: arg_fits_def)
    moreover have rq: "rest q = ?b"
      by (simp add: q_def r numeral_3_eq_3)
    moreover have len: "length ?b < length a + 2"
      using assms(4) False by (simp add: bulk)
    then have "parser_step q = Break q"
      using kBulkBody_cut [of q "length a"] unfolding rq by (simp add: q_def)
    ultimately have "feed_loop p cs = Inr (q, cs)"
      by (simp add: feed_loop_Continue) (simp add: feed_loop.simps [of q])
    moreover have "length (rest q) \<le> max_frame_bytes q"
    proof -
      have "max_frame_bytes q = max_frame_bytes p"
        by (simp add: q_def)
      then show ?thesis
        unfolding rq using len assms(5) unfolding arg_fits_def by linarith
    qed
    ultimately show ?thesis by blast
  qed
qed

lemma feed_loop_torn_args:
  "pstate p = kBulkHead \<Longrightarrow> pending_argc p = int (length (args p) + length bs) \<Longrightarrow>
   rest p = take n (concat (map resp_bulk bs)) \<Longrightarrow> n < length (concat (map resp_bulk bs)) \<Longrightarrow>
   list_all (arg_fits (max_frame_bytes p)) bs \<Longrightarrow> 32 \<le> max_frame_bytes p \<Longrightarrow>
   \<exists>q. feed_loop p cs = Inr (q, cs) \<and> length (rest q) \<le> max_frame_bytes q"
proof (induction bs arbitrary: p n)
  case Nil
  then show ?case by simp
next
  case (Cons b bs)
  show ?case
  proof (cases "n < length (resp_bulk b)")
    case True
    with Cons.prems show ?thesis
      using feed_loop_torn_arg [of p n b cs] by simp
  next
    case False
    let ?t = "take (n - length (resp_bulk b)) (concat (map resp_bulk bs))"
    from False Cons.prems obtain q where "feed_loop p cs = feed_loop q cs"
      and "pstate q = kBulkHead" "args q = args p @ [b]" "pending_argc q = pending_argc p"
      "rest q = ?t" "max_frame_bytes q = max_frame_bytes p"
      using feed_loop_arg [of p b ?t cs] by auto
    with False Cons.prems show ?thesis
      using Cons.IH [of q "n - length (resp_bulk b)"] by (simp add: less_diff_conv2)
  qed
qed

lemma feed_loop_torn_cmd:
  assumes "pstate p = kLine" and "rest p = take n (encode cmd)" and "n < length (encode cmd)"
    and "cmd_fits (max_frame_bytes p) cmd" and "32 \<le> max_frame_bytes p"
  shows "\<exists>q. feed_loop p cs = Inr (q, cs) \<and> length (rest q) \<le> max_frame_bytes q"
proof -
  let ?n = "int (length cmd)" and ?h = "''*'' @ to_string (int (length cmd))"
  let ?args = "concat (map resp_bulk cmd)"
  have enc: "encode cmd = ?h @ crlf @ ?args"
    by (simp add: encode_resp resp_array_def)
  have num: "0 < ?n" "?n \<le> kMaxArgs" "in_i64 ?n"
    using assms(4) by (auto simp: cmd_fits_def kMaxArgs_def i64_simps)
  have h: "length ?h \<le> 20"
    using num length_to_string_i64 by simp
  show ?thesis
  proof (cases "n < length ?h + 2")
    case True
    then have "take_line p = None"
      using assms(2) enc by (intro take_line_cut [of p n ?h ?args]) simp_all
    with assms(1) have "feed_loop p cs = Inr (p, cs)"
      by (simp add: feed_loop.simps [of p] parser_step_def step_line_def)
    moreover have "length (rest p) \<le> max_frame_bytes p"
      using True h assms(2,5) by simp
    ultimately show ?thesis by blast
  next
    case False
    define q where "q = (advance (length ?h + 2) p)
      \<lparr>pending_argc := ?n, args := [], pstate := kBulkHead\<rparr>"
    have r: "rest p = ?h @ crlf @ take (n - (length ?h + 2)) ?args"
      using False assms(2) enc by (simp add: take_Cons')
    then have "take_line p = Some (?h, advance (length ?h + 2) p)"
      by (intro take_line_header) simp_all
    then have "parser_step p = Continue q []"
      using num assms(1,4)
      by (simp add: parser_step_def step_line_def parse_i64_to_string q_def cmd_fits_def)
    moreover have "rest q = take (n - (length ?h + 2)) ?args"
      by (simp add: q_def r)
    moreover have "n - (length ?h + 2) < length ?args"
      using assms(3) False by (simp add: enc)
    ultimately show ?thesis
      using feed_loop_torn_args [of q cmd "n - (length ?h + 2)" cs] assms(4,5)
      by (simp add: feed_loop_Continue) (simp add: q_def cmd_fits_def)
  qed
qed

text \<open>How many whole records the first \<open>n\<close> bytes of a log hold.\<close>

fun whole_records :: "nat \<Rightarrow> command list \<Rightarrow> nat" where
  "whole_records n [] = 0"
| "whole_records n (c # cs) =
     (if n < length (encode c) then 0 else Suc (whole_records (n - length (encode c)) cs))"

lemma whole_records_le: "whole_records n cmds \<le> length cmds"
  by (induction n cmds rule: whole_records.induct) auto

lemma whole_records_bytes:
  "length (encode_all (take (whole_records n cmds) cmds)) \<le> n"
  by (induction n cmds rule: whole_records.induct) auto

lemma whole_records_max:
  "whole_records n cmds < length cmds \<Longrightarrow>
     n < length (encode_all (take (whole_records n cmds) cmds)) + length (encode (cmds ! whole_records n cmds))"
  by (induction n cmds rule: whole_records.induct) (auto simp: less_diff_conv2)

lemma take_encode_all:
  "take n (encode_all cmds) =
     encode_all (take (whole_records n cmds) cmds) @
     (if whole_records n cmds < length cmds
      then take (n - length (encode_all (take (whole_records n cmds) cmds))) (encode (cmds ! whole_records n cmds))
      else [])"
  by (induction n cmds rule: whole_records.induct) auto

lemma feed_loop_torn:
  assumes "pstate p = kLine" and "rest p = take n (encode_all cmds)"
    and "list_all (cmd_fits (max_frame_bytes p)) cmds" and "32 \<le> max_frame_bytes p"
  shows "\<exists>q. feed_loop p cs = Inr (q, cs @ take (whole_records n cmds) cmds) \<and>
             length (rest q) \<le> max_frame_bytes q"
proof -
  let ?k = "whole_records n cmds"
  define t where "t = (if ?k < length cmds
      then take (n - length (encode_all (take ?k cmds))) (encode (cmds ! ?k)) else [])"
  have "rest p = encode_all (take ?k cmds) @ t"
    using assms(2) take_encode_all [of n cmds] by (simp add: t_def)
  moreover have "list_all (cmd_fits (max_frame_bytes p)) (take ?k cmds)"
    using assms(3) by (auto simp: list_all_iff dest: in_set_takeD)
  ultimately obtain q where q: "feed_loop p cs = feed_loop q (cs @ take ?k cmds)" "pstate q = kLine"
    "rest q = t" "max_frame_bytes q = max_frame_bytes p"
    using feed_loop_cmds [of p "take ?k cmds" t cs] assms(1) by blast
  show ?thesis
  proof (cases "?k < length cmds")
    case True
    have "n - length (encode_all (take ?k cmds)) < length (encode (cmds ! ?k))"
      using whole_records_max [OF True] by (simp add: less_diff_conv2 whole_records_bytes)
    moreover have "cmd_fits (max_frame_bytes q) (cmds ! ?k)"
      using assms(3) True q(4) by (simp add: list_all_length)
    ultimately show ?thesis
      using feed_loop_torn_cmd [of q _ "cmds ! ?k" "cs @ take ?k cmds"] q True assms(4)
      by (auto simp: t_def)
  next
    case False
    then have "parser_step q = Break q"
      using q by (simp add: t_def parser_step_def step_line_def take_line_rest)
    with q False show ?thesis
      by (simp add: feed_loop.simps [of q] t_def)
  qed
qed

lemma feed_torn:
  assumes "pstate p = kLine" and "buf p = []" and "cursor p = 0"
    and "list_all (cmd_fits (max_frame_bytes p)) cmds" and "32 \<le> max_frame_bytes p"
  shows "\<exists>q. feed p (take n (encode_all cmds)) = Inr (q, take (whole_records n cmds) cmds)"
proof -
  let ?p = "supply_bytes (take n (encode_all cmds)) p"
  obtain q where "feed_loop ?p [] = Inr (q, take (whole_records n cmds) cmds)"
    "length (rest q) \<le> max_frame_bytes q"
    using feed_loop_torn [of ?p n cmds "[]"] assms by (auto simp: rest_def)
  then show ?thesis
    by (intro exI [of _ "compact q"]) (simp add: feed_alt)
qed

text \<open>
  C20. Round trip: any sequence of commands within the parser's limits, encoded one after the
  other, is parsed back to exactly those commands, and the parser ends between frames with an
  empty buffer.
\<close>

theorem encode_feed_roundtrip:
  assumes "list_all (cmd_fits m) cmds"
  shows "\<exists>p. feed (RespParser m) (encode_all cmds) = Inr (p, cmds) \<and> pstate p = kLine \<and> buf p = []"
  using feed_encode_all [of "RespParser m" cmds] assms by (auto simp: RespParser_def)

theorem encode_feed_roundtrip_witness:
  "\<exists>p. feed (RespParser 64) (encode_all [[''SET'', ''a'', [CR, LF]], [''PING'']]) =
         Inr (p, [[''SET'', ''a'', [CR, LF]], [''PING'']]) \<and> pstate p = kLine \<and> buf p = []"
  by (rule encode_feed_roundtrip) (simp add: cmd_fits_def arg_fits_def kMaxArgs_def i64_simps)

text \<open>
  A log cut at any byte is incomplete, never malformed: the parser accepts the first \<open>n\<close> bytes
  and delivers exactly the records that are whole.
\<close>

theorem torn_log_never_malformed:
  assumes "list_all (cmd_fits m) cmds" and "32 \<le> m"
  shows "\<exists>p. feed (RespParser m) (take n (encode_all cmds)) =
             Inr (p, take (whole_records n cmds) cmds)"
  using feed_torn [of "RespParser m" cmds n] assms by (simp add: RespParser_def)

theorem torn_log_never_malformed_witness:
  "\<exists>p. feed (RespParser 64) (take 35 (encode_all [[''SET'', ''a'', ''1''], [''DEL'', ''a'']])) =
         Inr (p, [[''SET'', ''a'', ''1'']])"
proof -
  let ?cmds = "[[''SET'', ''a'', ''1''], [''DEL'', ''a'']]"
  have fits: "list_all (cmd_fits 64) ?cmds" "32 \<le> (64 :: nat)"
    by (simp_all add: cmd_fits_def arg_fits_def kMaxArgs_def i64_simps)
  have "take (whole_records 35 ?cmds) ?cmds = [[''SET'', ''a'', ''1'']]"
    by code_simp
  with torn_log_never_malformed [OF fits, of 35] show ?thesis
    by (simp only:)
qed

end
