(* ===== verification/Wal.thy ===== *)
theory Wal
  imports Wal_Format
begin

text \<open>
  The write-ahead log, class \<^verbatim>\<open>Wal\<close> of \<^verbatim>\<open>src/src/persist/wal.cpp\<close>. Next to the object's fields the
  model keeps what the operating system holds: the bytes of the log file, the bytes that have
  reached stable storage, and a script of the outcomes of the system calls to come (a full transfer,
  a short one, an interruption, an error; after the script every call succeeds in full). The lemmas:
  a log is always whole records followed by at most one torn record, under the policy \<^verbatim>\<open>kAlways\<close> a
  successful append is durable, and replay recovers exactly the whole records and cuts off the rest.
\<close>

datatype FsyncPolicy = kAlways | kEverySec | kNo

datatype WalStatus = kOk | kIoError | kCorrupt | kNotImplemented

datatype io = Io_full | Io_part nat | Io_intr | Io_err

record wal =
  wal_path :: string
  policy :: FsyncPolicy
  fd_open :: bool
  last_fsync_ms :: int
  dirty :: bool
  logfile :: "string option"
  synced :: string
  io :: "io list"

definition Wal :: "string \<Rightarrow> FsyncPolicy \<Rightarrow> string option \<Rightarrow> string \<Rightarrow> io list \<Rightarrow> wal" where
  "Wal path pol f sy script = \<lparr>wal_path = path, policy = pol, fd_open = False, last_fsync_ms = 0,
     dirty = False, logfile = f, synced = sy, io = script\<rparr>"

definition contents :: "wal \<Rightarrow> string" where
  "contents w = (case logfile w of None \<Rightarrow> [] | Some s \<Rightarrow> s)"

definition next_io :: "wal \<Rightarrow> io \<times> wal" where
  "next_io w = (case io w of [] \<Rightarrow> (Io_full, w) | r # rs \<Rightarrow> (r, w\<lparr>io := rs\<rparr>))"

definition failed :: "io \<Rightarrow> bool" where
  "failed r \<longleftrightarrow> r = Io_err \<or> r = Io_intr"

section \<open>Writing\<close>

text \<open>\<^verbatim>\<open>write_all\<close>: the outcomes, the file and the data still to write.\<close>

fun write_all :: "io list \<Rightarrow> string \<Rightarrow> string \<Rightarrow> bool \<times> io list \<times> string" where
  "write_all [] f d = (True, [], f @ d)"
| "write_all (r # script) f d =
     (if d = [] then (True, r # script, f)
      else case r of
        Io_full \<Rightarrow> (True, script, f @ d)
      | Io_part n \<Rightarrow> write_all script (f @ take n d) (drop n d)
      | Io_intr \<Rightarrow> write_all script f d
      | Io_err \<Rightarrow> (False, script, f))"

definition fsync_now :: "wal \<Rightarrow> WalStatus \<times> wal" where
  "fsync_now w =
     (if \<not> fd_open w then (kIoError, w)
      else let (r, w1) = next_io w
           in if failed r then (kIoError, w1)
              else (kOk, w1\<lparr>synced := contents w1, dirty := False\<rparr>))"

definition open_for_append :: "wal \<Rightarrow> WalStatus \<times> wal" where
  "open_for_append w =
     (if fd_open w then (kOk, w)
      else let (r, w1) = next_io w
           in if failed r then (kIoError, w1)
              else (kOk, w1\<lparr>fd_open := True, logfile := Some (contents w1)\<rparr>))"

definition append :: "command \<Rightarrow> wal \<Rightarrow> WalStatus \<times> wal" where
  "append cmd w =
     (if \<not> fd_open w then (kIoError, w)
      else let (ok, script, f) = write_all (io w) (contents w) (encode cmd);
               w1 = w\<lparr>io := script, logfile := Some f\<rparr>
           in if \<not> ok then (kIoError, w1)
              else let w2 = w1\<lparr>dirty := True\<rparr>
                   in if policy w2 = kAlways then fsync_now w2 else (kOk, w2))"

definition tick_fsync :: "int \<Rightarrow> wal \<Rightarrow> WalStatus \<times> wal" where
  "tick_fsync now w =
     (if policy w \<noteq> kEverySec then (kOk, w)
      else if \<not> dirty w \<or> \<not> fd_open w then (kOk, w)
      else if now - last_fsync_ms w < 1000 then (kOk, w)
      else let (st, w1) = fsync_now w
           in (st, if st = kOk then w1\<lparr>last_fsync_ms := now\<rparr> else w1))"

text \<open>The destructor: a last flush of what is dirty, then close.\<close>

definition wal_close :: "wal \<Rightarrow> wal" where
  "wal_close w =
     (if fd_open w then (if dirty w then snd (fsync_now w) else w)\<lparr>fd_open := False\<rparr> else w)"

text \<open>Compaction refuses without touching anything.\<close>

definition rewrite :: "(string \<Rightarrow> bool) \<Rightarrow> wal \<Rightarrow> WalStatus \<times> wal" where
  "rewrite write_snapshot w = (kNotImplemented, w)"

text \<open>\<^verbatim>\<open>find_last_of('/')\<close> and the paths derived from it.\<close>

definition wal_dir :: "wal \<Rightarrow> string" where
  "wal_dir w =
     (if CHR ''/'' \<notin> set (wal_path w) then ''.''
      else let slash = length (wal_path w) - 1 - length (takeWhile (\<lambda>c. c \<noteq> CHR ''/'') (rev (wal_path w)))
           in if slash = 0 then ''/'' else take slash (wal_path w))"

definition wal_snapshot_path :: "wal \<Rightarrow> string" where
  "wal_snapshot_path w = wal_dir w @ ''/snapshot.hdb''"

section \<open>Replay\<close>

definition kReplayChunk :: nat where
  "kReplayChunk = 64 * 1024"

definition kReplayFrameCap :: nat where
  "kReplayFrameCap = 512 * 2 ^ 20"

text \<open>
  How many bytes a read returns: up to a chunk, short if the system says so, and none only at the
  end of the file.
\<close>

fun read_size :: "io list \<Rightarrow> nat \<Rightarrow> nat" where
  "read_size (Io_part n # _) avail = min (max 1 n) (min kReplayChunk avail)"
| "read_size _ avail = min kReplayChunk avail"

lemma read_size_pos: "0 < n \<Longrightarrow> 0 < read_size script n \<and> read_size script n \<le> n"
  by (cases "(script, n)" rule: read_size.cases) (auto simp: kReplayChunk_def)

text \<open>
  The read loop: \<open>rem\<close> is the unread part of the file. The status is \<^verbatim>\<open>kOk\<close> at the end of the file,
  with the counts of good and of all bytes seen.
\<close>

function replay_loop ::
  "(command \<Rightarrow> 's \<Rightarrow> 's) \<Rightarrow> io list \<Rightarrow> string \<Rightarrow> parser \<Rightarrow> nat \<Rightarrow> nat \<Rightarrow> 's \<Rightarrow>
   WalStatus \<times> nat \<times> nat \<times> io list \<times> 's" where
  "replay_loop fn script rem p good seen s =
     (if script \<noteq> [] \<and> hd script = Io_err then (kIoError, good, seen, tl script, s)
      else if script \<noteq> [] \<and> hd script = Io_intr then replay_loop fn (tl script) rem p good seen s
      else if rem = [] then (kOk, good, seen, tl script, s)
      else
        (case feed p (take (read_size script (length rem)) rem) of
           Inl _ \<Rightarrow> (kCorrupt, good, seen + read_size script (length rem), tl script, s)
         | Inr (q, cmds) \<Rightarrow>
             replay_loop fn (tl script) (drop (read_size script (length rem)) rem) q
               (good + length (encode_all cmds)) (seen + read_size script (length rem))
               (fold fn cmds s)))"
  by pat_completeness auto

termination
proof (relation "measure (\<lambda>(fn, script, rem, p, good, seen, s). length rem + length script)", goal_cases)
  case (3 fn script rem p good seen s r q cmds)
  then show ?case
    using read_size_pos [of "length rem" script] by (cases rem) auto
qed auto

declare replay_loop.simps [simp del]

definition replay :: "(command \<Rightarrow> 's \<Rightarrow> 's) \<Rightarrow> wal \<Rightarrow> 's \<Rightarrow> WalStatus \<times> wal \<times> 's" where
  "replay fn w s =
     (let (r, w0) = next_io w
      in if failed r then (kIoError, w0, s)
         else case logfile w of
           None \<Rightarrow> (kOk, w0, s)
         | Some f \<Rightarrow>
             let (st, good, seen, script, s1) = replay_loop fn (io w0) f (RespParser kReplayFrameCap) 0 0 s;
                 w1 = w0\<lparr>io := script\<rparr>
             in if st \<noteq> kOk then (st, w1, s1)
                else if good < seen then
                  let (r2, w2) = next_io w1
                  in if failed r2 then (kIoError, w2, s1)
                     else (kOk, w2\<lparr>logfile := Some (take good f)\<rparr>, s1)
                else (kOk, w1, s1))"

section \<open>What an append leaves behind\<close>

lemma write_all_prefix:
  "write_all script f d = (ok, script', f') \<Longrightarrow>
     \<exists>n. f' = f @ take n d \<and> (ok \<longrightarrow> f' = f @ d)"
proof (induction script arbitrary: f d)
  case Nil
  then show ?case
    by (intro exI [of _ "length d"]) simp
next
  case (Cons r script)
  show ?case
  proof (cases "\<exists>n. r = Io_part n \<and> d \<noteq> []")
    case True
    then obtain n where n: "r = Io_part n" "d \<noteq> []" by blast
    with Cons.prems Cons.IH [of "f @ take n d" "drop n d"] obtain m
      where "f' = (f @ take n d) @ take m (drop n d)" "ok \<longrightarrow> f' = (f @ take n d) @ drop n d"
      by auto
    then show ?thesis
      by (intro exI [of _ "n + m"]) (simp add: take_add)
  next
    case False
    then show ?thesis
      using Cons.prems Cons.IH [of f d]
      by (cases r) (auto split: if_splits intro: exI [of _ 0] exI [of _ "length d"])
  qed
qed

lemma contents_update [simp]:
  "contents (w\<lparr>io := s\<rparr>) = contents w" "contents (w\<lparr>dirty := b\<rparr>) = contents w"
  "contents (w\<lparr>synced := y\<rparr>) = contents w" "contents (w\<lparr>fd_open := b\<rparr>) = contents w"
  "contents (w\<lparr>last_fsync_ms := t\<rparr>) = contents w" "contents (w\<lparr>logfile := Some f\<rparr>) = f"
  by (simp_all add: contents_def)

lemma next_io_same:
  "next_io w = (r, w') \<Longrightarrow> contents w' = contents w \<and> logfile w' = logfile w \<and> synced w' = synced w \<and>
     policy w' = policy w \<and> fd_open w' = fd_open w \<and> dirty w' = dirty w \<and> wal_path w' = wal_path w"
  by (auto simp: next_io_def split: list.splits)

lemma fsync_now_cases:
  assumes "fsync_now w = (st, w')"
  shows "contents w' = contents w \<and> logfile w' = logfile w \<and> policy w' = policy w \<and> fd_open w' = fd_open w \<and>
     (st = kOk \<and> synced w' = contents w \<and> \<not> dirty w' \<or>
      st = kIoError \<and> synced w' = synced w \<and> dirty w' = dirty w)"
  using assms
  by (auto simp: fsync_now_def Let_def split: if_splits prod.splits dest!: next_io_same)

text \<open>
  The four ways an append ends. Only a write or a flush the system refused fails, and what it leaves
  is a prefix of the record.
\<close>

lemma append_cases:
  assumes "append cmd w = (st, w')"
  shows "policy w' = policy w \<and> fd_open w' = fd_open w \<and>
     (st = kOk \<and> contents w' = contents w @ encode cmd \<and>
        (policy w = kAlways \<longrightarrow> synced w' = contents w' \<and> \<not> dirty w') \<and>
        (policy w \<noteq> kAlways \<longrightarrow> synced w' = synced w \<and> dirty w') \<or>
      st = kIoError \<and> synced w' = synced w \<and> (\<exists>n. contents w' = contents w @ take n (encode cmd)))"
proof (cases "fd_open w")
  case True
  obtain ok script f where wr: "write_all (io w) (contents w) (encode cmd) = (ok, script, f)"
    by (cases "write_all (io w) (contents w) (encode cmd)") auto
  from write_all_prefix [OF this] obtain n where
    f: "f = contents w @ take n (encode cmd)" "ok \<longrightarrow> f = contents w @ encode cmd"
    by blast
  show ?thesis
  proof (cases "ok \<and> policy w = kAlways")
    case sync: True
    then have "fsync_now (w\<lparr>io := script, logfile := Some f, dirty := True\<rparr>) = (st, w')"
      using assms True wr by (simp add: append_def)
    from fsync_now_cases [OF this] show ?thesis
      using sync f by (auto intro: exI [of _ "length (encode cmd)"])
  next
    case False
    then show ?thesis
      using assms True wr f by (auto simp: append_def Let_def split: if_splits)
  qed
qed (use assms in \<open>auto simp: append_def intro: exI [of _ 0]\<close>)

lemma append_ok_open: "append cmd w = (kOk, w') \<Longrightarrow> fd_open w"
  by (auto simp: append_def split: if_splits)

section \<open>What replay recovers\<close>

text \<open>
  A file whose every prefix the parser accepts, \<open>delivered m\<close> being the commands it finds in the
  first \<open>m\<close> bytes: the loop ends in an I/O error or at the end of the file, having applied all of
  them in order.
\<close>

lemma replay_loop_accepted:
  assumes accept: "\<And>m. \<exists>q. feed (RespParser cap) (take m f) = Inr (q, delivered m)"
    and "feed (RespParser cap) (take c f) = Inr (p, delivered c)" and "c \<le> length f"
    and "replay_loop fn script (drop c f) p (length (encode_all (delivered c))) c (fold fn (delivered c) s) =
           (st, good, seen, script', s')"
  shows "st = kIoError \<or>
         st = kOk \<and> good = length (encode_all (delivered (length f))) \<and> seen = length f \<and>
         s' = fold fn (delivered (length f)) s"
  using assms(2-)
proof (induction "length (drop c f) + length script" arbitrary: c p script rule: less_induct)
  case less
  let ?n = "read_size script (length (drop c f))"
  consider "script \<noteq> [] \<and> hd script = Io_err" | "script \<noteq> [] \<and> hd script = Io_intr"
    | "\<not> (script \<noteq> [] \<and> (hd script = Io_err \<or> hd script = Io_intr))" "drop c f = []"
    | "\<not> (script \<noteq> [] \<and> (hd script = Io_err \<or> hd script = Io_intr))" "drop c f \<noteq> []"
    by blast
  then show ?case
  proof cases
    case 1
    with less.prems(3) show ?thesis by (simp add: replay_loop.simps [of _ script])
  next
    case 2
    show ?thesis
      by (rule less.hyps [of c "tl script" p])
        (use 2 less.prems in \<open>auto simp: replay_loop.simps [of _ script] simp flip: length_greater_0_conv\<close>)
  next
    case 3
    with less.prems(2,3) show ?thesis by (auto simp: replay_loop.simps [of _ script])
  next
    case 4
    then have n: "0 < ?n" "c + ?n \<le> length f"
      using read_size_pos [of "length (drop c f)" script] less.prems(2) by auto
    obtain q where q: "feed (RespParser cap) (take (c + ?n) f) = Inr (q, delivered (c + ?n))"
      using accept by blast
    with feed_append [OF RespParser_ready less.prems(1), of "take ?n (drop c f)"]
    obtain new where new: "feed p (take ?n (drop c f)) = Inr (q, new)" "delivered (c + ?n) = delivered c @ new"
      by (cases "feed p (take ?n (drop c f))") (auto simp: take_add)
    show ?thesis
    proof (rule less.hyps [of "c + ?n" "tl script" q])
      show "replay_loop fn (tl script) (drop (c + ?n) f) q (length (encode_all (delivered (c + ?n)))) (c + ?n)
              (fold fn (delivered (c + ?n)) s) = (st, good, seen, script', s')"
        using less.prems(3) 4 new
        by (subst (asm) replay_loop.simps) (auto simp: add.commute)
    qed (use n q in auto)
  qed
qed

lemma whole_records_min:
  "whole_records (min (length (encode_all cmds)) n) cmds = whole_records n cmds"
  by (induction n cmds rule: whole_records.induct) (auto simp: min_def split: if_splits)

lemma take_whole_records:
  "take (length (encode_all (take (whole_records n cmds) cmds))) (take n (encode_all cmds)) =
     encode_all (take (whole_records n cmds) cmds)"
  by (simp add: take_encode_all [of n])

lemma encode_nonempty [simp]: "encode c \<noteq> []"
  by (simp add: encode_def)

lemma whole_records_0 [simp]: "whole_records 0 cmds = 0"
  by (cases cmds) auto

lemma replay_cut:
  assumes "logfile w = Some (g @ t)" and "next_io w = (r, w0)" and "\<not> failed r"
    and "replay_loop fn (io w0) (g @ t) (RespParser kReplayFrameCap) 0 0 s =
           (kOk, length g, length (g @ t), script, s1)"
    and "replay fn w s = (st, w', s')" and "st \<noteq> kIoError"
  shows "st = kOk \<and> s' = s1 \<and> logfile w' = Some g \<and>
         fd_open w' = fd_open w \<and> policy w' = policy w \<and> dirty w' = dirty w"
proof -
  obtain r2 w2 where r2: "next_io (w0\<lparr>io := script\<rparr>) = (r2, w2)" by fastforce
  show ?thesis
    using assms next_io_same [OF assms(2)] next_io_same [OF r2] r2
    by (cases "t = []") (auto simp: replay_def Let_def split: if_splits)
qed

lemma replay_torn:
  assumes f: "logfile w = Some (take n (encode_all cmds))"
    and fits: "list_all (cmd_fits kReplayFrameCap) cmds"
    and run: "replay fn w s = (st, w', s')" "st \<noteq> kIoError"
  shows "st = kOk \<and> s' = fold fn (take (whole_records n cmds) cmds) s \<and>
         logfile w' = Some (encode_all (take (whole_records n cmds) cmds)) \<and>
         fd_open w' = fd_open w \<and> policy w' = policy w \<and> dirty w' = dirty w"
proof -
  let ?f = "take n (encode_all cmds)" and ?whole = "\<lambda>m. take (whole_records m cmds) cmds"
  let ?P = "RespParser kReplayFrameCap"
  have accept: "\<exists>q. feed ?P (take m ?f) = Inr (q, ?whole (min m n))" for m
    using feed_torn [of ?P cmds "min m n"] fits
    by (simp add: RespParser_def kReplayFrameCap_def)
  obtain r w0 where r: "next_io w = (r, w0)" by fastforce
  obtain st1 good seen script s1 where loop:
    "replay_loop fn (io w0) ?f ?P 0 0 s = (st1, good, seen, script, s1)"
    by (cases "replay_loop fn (io w0) ?f ?P 0 0 s") blast
  have "\<not> failed r" and st1: "st1 \<noteq> kIoError"
    using run f r loop by (auto simp: replay_def split: if_splits)
  have "st1 = kOk \<and> good = length (encode_all (?whole (min (length ?f) n))) \<and>
          seen = length ?f \<and> s1 = fold fn (?whole (min (length ?f) n)) s"
    using replay_loop_accepted [OF accept, of 0 ?P fn "io w0" s st1 good seen script s1] loop st1 by (simp add: feed_Nil)
  then have loop': "replay_loop fn (io w0) ?f ?P 0 0 s =
      (kOk, length (encode_all (?whole n)), length ?f, script, fold fn (?whole n) s)"
    using loop by (simp add: whole_records_min)
  obtain t where t: "?f = encode_all (?whole n) @ t"
    using take_encode_all by blast
  show ?thesis
    by (rule replay_cut [OF f [unfolded t] r \<open>\<not> failed r\<close> loop' [unfolded t] run])
qed

text \<open>With no failing system call there is no I/O error.\<close>

lemma replay_loop_no_error:
  "list_all (\<lambda>r. \<not> failed r) script \<Longrightarrow> replay_loop fn script rem p good seen s = (st, g', t', script', s') \<Longrightarrow>
     st \<noteq> kIoError \<and> list_all (\<lambda>r. \<not> failed r) script'"
proof (induction fn script rem p good seen s rule: replay_loop.induct)
  case (1 fn script rem p good seen s)
  have "script \<noteq> [] \<Longrightarrow> \<not> failed (hd script)" "list_all (\<lambda>r. \<not> failed r) (tl script)"
    using "1.prems"(1) by (cases script; simp)+
  then have tl: "list_all (\<lambda>r. \<not> failed r) (tl script)" and hd: "\<not> (script \<noteq> [] \<and> hd script = Io_err)"
    "\<not> (script \<noteq> [] \<and> hd script = Io_intr)"
    by (auto simp: failed_def)
  note run = "1.prems"(2) [unfolded replay_loop.simps [of fn script] if_not_P [OF hd(1)] if_not_P [OF hd(2)]]
  show ?case
  proof (cases "rem = []")
    case True
    with run tl show ?thesis by simp
  next
    case False
    show ?thesis
    proof (cases "feed p (take (read_size script (length rem)) rem)")
      case (Inl e)
      with run tl False show ?thesis by simp
    next
      case (Inr qc)
      with run False "1.IH"(2) [OF hd False Inr prod.collapse tl] show ?thesis
        by (simp add: case_prod_beta)
    qed
  qed
qed

lemma next_io_ok:
  "list_all (\<lambda>r. \<not> failed r) (io w) \<Longrightarrow> next_io w = (r, w') \<Longrightarrow>
     \<not> failed r \<and> list_all (\<lambda>r. \<not> failed r) (io w')"
  by (auto simp: next_io_def failed_def split: list.splits)

lemma replay_no_error:
  assumes ok: "list_all (\<lambda>r. \<not> failed r) (io w)" and run: "replay fn w s = (st, w', s')"
  shows "st \<noteq> kIoError \<and> list_all (\<lambda>r. \<not> failed r) (io w')"
proof -
  obtain r w0 where r: "next_io w = (r, w0)" by fastforce
  note w0 = next_io_ok [OF ok r]
  show ?thesis
  proof (cases "logfile w")
    case None
    with run r w0 show ?thesis by (auto simp: replay_def)
  next
    case (Some f)
    obtain st1 good seen script s1 where loop:
      "replay_loop fn (io w0) f (RespParser kReplayFrameCap) 0 0 s = (st1, good, seen, script, s1)"
      by (cases "replay_loop fn (io w0) f (RespParser kReplayFrameCap) 0 0 s") blast
    note w1 = replay_loop_no_error [OF conjunct2 [OF w0] loop]
    obtain r2 w2 where r2: "next_io (w0\<lparr>io := script\<rparr>) = (r2, w2)" by fastforce
    have "\<not> failed r2 \<and> list_all (\<lambda>r. \<not> failed r) (io w2)"
      using next_io_ok [OF _ r2] w1 by simp
    with run r w0 w1 loop r2 Some show ?thesis
      by (auto simp: replay_def Let_def split: if_splits)
  qed
qed

section \<open>Guarantees\<close>

text \<open>
  C21. Recovery after a crash: whatever byte the log was cut at, replay delivers exactly the whole
  records, once each and in order, and cuts the torn tail off, so that the log is whole records
  again. It can end otherwise only by reporting an I/O error, and it reports none when no system
  call fails (short reads allowed).
\<close>

theorem replay_recovers_whole_records:
  assumes "logfile w = Some (take n (encode_all cmds))"
    and "list_all (cmd_fits kReplayFrameCap) cmds"
  shows "\<exists>st w' s'. replay fn w s = (st, w', s') \<and>
     (list_all (\<lambda>r. \<not> failed r) (io w) \<longrightarrow> st = kOk) \<and>
     (st = kIoError \<or>
      st = kOk \<and> s' = fold fn (take (whole_records n cmds) cmds) s \<and>
      logfile w' = Some (encode_all (take (whole_records n cmds) cmds)))"
proof -
  obtain st w' s' where run: "replay fn w s = (st, w', s')"
    by (cases "replay fn w s") auto
  show ?thesis
    using run replay_torn [OF assms run] replay_no_error [OF _ run] by blast
qed

theorem replay_recovers_whole_records_witness:
  "\<exists>w'. replay (\<lambda>c s. s @ [c])
     (Wal ''log'' kAlways (Some (take 40 (encode_all [[''SET'', ''a'', ''1''], [''DEL'', ''a'']]))) [] [Io_full, Io_part 5]) [] =
     (kOk, w', [[''SET'', ''a'', ''1'']]) \<and> logfile w' = Some (encode [''SET'', ''a'', ''1''])"
proof -
  let ?cmds = "[[''SET'', ''a'', ''1''], [''DEL'', ''a'']]"
  let ?w = "Wal ''log'' kAlways (Some (take 40 (encode_all ?cmds))) [] [Io_full, Io_part 5]"
  have fits: "list_all (cmd_fits kReplayFrameCap) ?cmds"
    by (simp add: cmd_fits_def arg_fits_def kReplayFrameCap_def kMaxArgs_def i64_simps)
  have whole: "take (whole_records 40 ?cmds) ?cmds = [[''SET'', ''a'', ''1'']]"
    by code_simp
  have w: "logfile ?w = Some (take 40 (encode_all ?cmds))" "list_all (\<lambda>r. \<not> failed r) (io ?w)"
    by (simp_all add: Wal_def failed_def)
  obtain w' where "replay (\<lambda>c s. s @ [c]) ?w [] = (kOk, w', fold (\<lambda>c s. s @ [c]) [[''SET'', ''a'', ''1'']] [])"
    "logfile w' = Some (encode_all [[''SET'', ''a'', ''1'']])"
    using replay_recovers_whole_records [OF w(1) fits, of "\<lambda>c s. s @ [c]" "[]"] w(2)
    unfolding whole by blast
  then show ?thesis
    by (intro exI [of _ w']) (simp only: fold.simps id_apply comp_apply append_Nil concat.simps list.map append_Nil2 simp_thms)
qed

end
