(* ===== verification/Commands.thy ===== *)
theory Commands
  imports Db Expiry Wal
begin

text \<open>
  Command dispatch, \<^verbatim>\<open>src/src/core/commands.cpp\<close>: every handler of the table, the translation of a
  mutation into log records (\<^verbatim>\<open>log_mutation\<close>) and \<^verbatim>\<open>execute\<close>. The objects a dispatcher refers to
  (keyspace, TTL table, clock, log) and its own flags are one record. \<^verbatim>\<open>wal = None\<close> is a dispatcher
  with no log attached, as during recovery; \<^verbatim>\<open>main.cpp\<close> attaches the log to the dispatcher and to
  the eviction hook together. A handler returns the reply and the new state, or a fault.
\<close>

record server =
  db :: db
  ttl :: expiry
  clk :: clock
  wal :: "wal option"
  shutdown :: bool
  persistence_failed :: bool

definition CommandDispatcher :: "clock \<Rightarrow> server" where
  "CommandDispatcher c = \<lparr>db = [], ttl = ExpiryManager, clk = c, wal = None, shutdown = False,
     persistence_failed = False\<rparr>"

type_synonym handler = "command \<Rightarrow> server \<Rightarrow> (string \<times> server) result"

section \<open>Shared pieces\<close>

definition report_persistence_failure :: "server \<Rightarrow> server" where
  "report_persistence_failure s = s\<lparr>persistence_failed := True, shutdown := True\<rparr>"

text \<open>
  One record for the log: nothing when no log is attached or persistence has failed. The lambda
  \<^verbatim>\<open>put\<close> of \<^verbatim>\<open>log_mutation\<close> and the second half of the eviction hook are this code.
\<close>

definition put_record :: "command \<Rightarrow> server \<Rightarrow> server" where
  "put_record record s =
     (case wal s of
        None \<Rightarrow> s
      | Some w \<Rightarrow>
          if persistence_failed s then s
          else let (st, w') = append record w; s' = s\<lparr>wal := Some w'\<rparr>
               in if st \<noteq> kOk then report_persistence_failure s' else s')"

text \<open>The eviction hook \<^verbatim>\<open>main.cpp\<close> and \<^verbatim>\<open>shard.cpp\<close> install.\<close>

definition evict_hook :: "string \<Rightarrow> server \<Rightarrow> server" where
  "evict_hook key s = put_record [''DEL'', key] (s\<lparr>db := snd (db_del key (db s))\<rparr>)"

text \<open>\<^verbatim>\<open>expiry.check_and_expire(key)\<close> with the hook installed, and \<^verbatim>\<open>touch\<close>, which drops its answer.\<close>

definition check_key :: "string \<Rightarrow> server \<Rightarrow> bool \<times> server" where
  "check_key key s =
     (let (dead, c, e, s') = check_and_expire (Some evict_hook) key (clk s, ttl s, s)
      in (dead, s'\<lparr>clk := c, ttl := e\<rparr>))"

definition touch :: "string \<Rightarrow> server \<Rightarrow> server" where
  "touch key s = snd (check_key key s)"

definition now_ms :: "server \<Rightarrow> int \<times> server" where
  "now_ms s = (let (t, c) = wall_ms (clk s) in (t, s\<lparr>clk := c\<rparr>))"

definition lower :: "string \<Rightarrow> string" where
  "lower s = map tolower s"

definition upper :: "string \<Rightarrow> string" where
  "upper s = map toupper s"

definition wrong_arity :: "string \<Rightarrow> string" where
  "wrong_arity name_lower = resp_error (''ERR wrong number of arguments for '' @ [CHR 0x27] @ name_lower @ [CHR 0x27] @ '' command'')"

definition wrongtype :: string where
  "wrongtype = resp_error ''WRONGTYPE Operation against a key holding the wrong kind of value''"

definition not_an_integer :: string where
  "not_an_integer = resp_error ''ERR value is not an integer or out of range''"

section \<open>Strings\<close>

definition cmd_get :: handler where
  "cmd_get cmd s =
     (if length cmd \<noteq> 2 then Inr (wrong_arity ''get'', s)
      else let s1 = touch (cmd ! 1) s
           in if db_type (db s1) (cmd ! 1) = kList then Inr (wrongtype, s1)
              else Inr (case db_get (db s1) (cmd ! 1) of
                          Some v \<Rightarrow> resp_bulk v
                        | None \<Rightarrow> resp_null_bulk, s1))"

record set_opts =
  nx :: bool
  xx :: bool
  expire :: "int option"

definition invalid_expire :: string where
  "invalid_expire = resp_error (''ERR invalid expire time in '' @ [CHR 0x27] @ ''set'' @ [CHR 0x27] @ '' command'')"

definition syntax_error :: string where
  "syntax_error = resp_error ''ERR syntax error''"

text \<open>
  The option loop of SET over the words after the value. \<open>expire\<close> is \<^verbatim>\<open>have_expire\<close> and
  \<^verbatim>\<open>expire_ms\<close> in one. The loop ends with an error reply, with the options, or in an overflow of
  \<^verbatim>\<open>n * 1000\<close>.
\<close>

function set_options :: "string list \<Rightarrow> set_opts \<Rightarrow> (string + set_opts) result" where
  "set_options [] opts = Inr (Inr opts)"
| "set_options (a # words) opts =
     (if upper a = ''NX'' \<and> \<not> xx opts then set_options words (opts\<lparr>nx := True\<rparr>)
      else if upper a = ''XX'' \<and> \<not> nx opts then set_options words (opts\<lparr>xx := True\<rparr>)
      else if (upper a = ''EX'' \<or> upper a = ''PX'') \<and> expire opts = None \<and> words \<noteq> [] then
        case parse_i64 (hd words) of
          None \<Rightarrow> Inr (Inl not_an_integer)
        | Some n \<Rightarrow>
            if n \<le> 0 then Inr (Inl invalid_expire)
            else bind_res (if upper a = ''EX'' then checked_i64 (n * 1000) else Inr n) (\<lambda>ms.
                   set_options (tl words) (opts\<lparr>expire := Some ms\<rparr>))
      else Inr (Inl syntax_error))"
  by pat_completeness auto
termination
  by (relation "measure (\<lambda>(words, opts). length words)") auto

definition cmd_set :: handler where
  "cmd_set cmd s =
     (if length cmd < 3 then Inr (wrong_arity ''set'', s)
      else bind_res (set_options (drop 3 cmd) \<lparr>nx = False, xx = False, expire = None\<rparr>) (\<lambda>parsed.
        case parsed of
          Inl err \<Rightarrow> Inr (err, s)
        | Inr opts \<Rightarrow>
            let s1 = touch (cmd ! 1) s;
                existing = db_exists (db s1) (cmd ! 1)
            in if nx opts \<and> existing \<or> xx opts \<and> \<not> existing then Inr (resp_null_bulk, s1)
               else let s2 = s1\<lparr>db := db_set (cmd ! 1) (cmd ! 2) (db s1)\<rparr>
                    in case expire opts of
                         Some ms \<Rightarrow>
                           let (now, s3) = now_ms s2
                           in bind_res (checked_i64 (now + ms)) (\<lambda>at.
                                Inr (resp_simple ''OK'', s3\<lparr>ttl := set_expiry (cmd ! 1) at (ttl s3)\<rparr>))
                       | None \<Rightarrow> Inr (resp_simple ''OK'', s2\<lparr>ttl := persist (cmd ! 1) (ttl s2)\<rparr>)))"

definition incr_by :: "string \<Rightarrow> int \<Rightarrow> server \<Rightarrow> (string \<times> server) result" where
  "incr_by key delta s =
     (let s1 = touch key s
      in if db_type (db s1) key = kList then Inr (wrongtype, s1)
         else case (case db_get (db s1) key of None \<Rightarrow> Some 0 | Some v \<Rightarrow> parse_i64 v) of
           None \<Rightarrow> Inr (not_an_integer, s1)
         | Some cur \<Rightarrow>
             if \<not> in_i64 (cur + delta) then Inr (not_an_integer, s1)
             else Inr (resp_integer (cur + delta),
                       s1\<lparr>db := db_set key (to_string (cur + delta)) (db s1)\<rparr>))"

definition cmd_incr :: handler where
  "cmd_incr cmd s =
     (if length cmd \<noteq> 2 then Inr (wrong_arity ''incr'', s) else incr_by (cmd ! 1) 1 s)"

definition cmd_decr :: handler where
  "cmd_decr cmd s =
     (if length cmd \<noteq> 2 then Inr (wrong_arity ''decr'', s) else incr_by (cmd ! 1) (- 1) s)"

definition cmd_incrby :: handler where
  "cmd_incrby cmd s =
     (if length cmd \<noteq> 3 then Inr (wrong_arity ''incrby'', s)
      else case parse_i64 (cmd ! 2) of
        None \<Rightarrow> Inr (not_an_integer, s)
      | Some delta \<Rightarrow> incr_by (cmd ! 1) delta s)"

section \<open>Generic keyspace commands\<close>

fun del_loop :: "string list \<Rightarrow> int \<Rightarrow> server \<Rightarrow> int \<times> server" where
  "del_loop [] n s = (n, s)"
| "del_loop (key # keys) n s =
     (let s1 = touch key s; (gone, db1) = db_del key (db s1); s2 = s1\<lparr>db := db1\<rparr>
      in if gone then del_loop keys (n + 1) (s2\<lparr>ttl := persist key (ttl s2)\<rparr>)
         else del_loop keys n s2)"

definition cmd_del :: handler where
  "cmd_del cmd s =
     (if length cmd < 2 then Inr (wrong_arity ''del'', s)
      else let (n, s1) = del_loop (drop 1 cmd) 0 s in Inr (resp_integer n, s1))"

fun exists_loop :: "string list \<Rightarrow> int \<Rightarrow> server \<Rightarrow> int \<times> server" where
  "exists_loop [] n s = (n, s)"
| "exists_loop (key # keys) n s =
     (let s1 = touch key s
      in exists_loop keys (if db_exists (db s1) key then n + 1 else n) s1)"

definition cmd_exists :: handler where
  "cmd_exists cmd s =
     (if length cmd < 2 then Inr (wrong_arity ''exists'', s)
      else let (n, s1) = exists_loop (drop 1 cmd) 0 s in Inr (resp_integer n, s1))"

definition cmd_type :: handler where
  "cmd_type cmd s =
     (if length cmd \<noteq> 2 then Inr (wrong_arity ''type'', s)
      else let s1 = touch (cmd ! 1) s
           in Inr (case db_type (db s1) (cmd ! 1) of
                     kNone \<Rightarrow> resp_simple ''none''
                   | kString \<Rightarrow> resp_simple ''string''
                   | kList \<Rightarrow> resp_simple ''list'', s1))"

fun keys_loop :: "string list \<Rightarrow> string list \<Rightarrow> server \<Rightarrow> string list \<times> server" where
  "keys_loop [] encoded s = (encoded, s)"
| "keys_loop (key # keys) encoded s =
     (let (dead, s1) = check_key key s
      in keys_loop keys (if dead then encoded else encoded @ [resp_bulk key]) s1)"

definition cmd_keys :: handler where
  "cmd_keys cmd s =
     (if length cmd \<noteq> 2 then Inr (wrong_arity ''keys'', s)
      else let (encoded, s1) = keys_loop (keys_matching_glob (db s) (cmd ! 1)) [] s
           in Inr (resp_array encoded, s1))"

definition cmd_dbsize :: handler where
  "cmd_dbsize cmd s =
     (if length cmd \<noteq> 1 then Inr (wrong_arity ''dbsize'', s)
      else Inr (resp_integer (int (db_size (db s))), s))"

definition cmd_flushall :: handler where
  "cmd_flushall cmd s =
     (if length cmd \<noteq> 1 then Inr (wrong_arity ''flushall'', s)
      else let s1 = s\<lparr>ttl := fold persist (keys_matching_glob (db s) ''*'') (ttl s)\<rparr>
           in Inr (resp_simple ''OK'', s1\<lparr>db := db_clear (db s1)\<rparr>))"

section \<open>The TTL family\<close>

text \<open>Deleting outright a key whose deadline is not in the future.\<close>

definition delete_now :: "string \<Rightarrow> server \<Rightarrow> server" where
  "delete_now key s = s\<lparr>db := snd (db_del key (db s)), ttl := persist key (ttl s)\<rparr>"

definition expire_generic :: "string \<Rightarrow> command \<Rightarrow> int \<Rightarrow> server \<Rightarrow> (string \<times> server) result" where
  "expire_generic name cmd unit_to_ms s =
     (if length cmd \<noteq> 3 then Inr (wrong_arity name, s)
      else case parse_i64 (cmd ! 2) of
        None \<Rightarrow> Inr (not_an_integer, s)
      | Some n \<Rightarrow>
          let s1 = touch (cmd ! 1) s
          in if \<not> db_exists (db s1) (cmd ! 1) then Inr (resp_integer 0, s1)
             else if n \<le> 0 then Inr (resp_integer 1, delete_now (cmd ! 1) s1)
             else let (now, s2) = now_ms s1
                  in bind_res (checked_i64 (n * unit_to_ms)) (\<lambda>ms.
                     bind_res (checked_i64 (now + ms)) (\<lambda>at.
                       Inr (resp_integer 1, s2\<lparr>ttl := set_expiry (cmd ! 1) at (ttl s2)\<rparr>))))"

definition cmd_expire :: handler where
  "cmd_expire cmd s = expire_generic ''expire'' cmd 1000 s"

definition cmd_pexpire :: handler where
  "cmd_pexpire cmd s = expire_generic ''pexpire'' cmd 1 s"

definition cmd_pexpireat :: handler where
  "cmd_pexpireat cmd s =
     (if length cmd \<noteq> 3 then Inr (wrong_arity ''pexpireat'', s)
      else case parse_i64 (cmd ! 2) of
        None \<Rightarrow> Inr (not_an_integer, s)
      | Some at \<Rightarrow>
          let s1 = touch (cmd ! 1) s
          in if \<not> db_exists (db s1) (cmd ! 1) then Inr (resp_integer 0, s1)
             else let (now, s2) = now_ms s1
                  in if at \<le> now then Inr (resp_integer 1, delete_now (cmd ! 1) s2)
                     else Inr (resp_integer 1, s2\<lparr>ttl := set_expiry (cmd ! 1) at (ttl s2)\<rparr>))"

definition ttl_generic :: "string \<Rightarrow> command \<Rightarrow> bool \<Rightarrow> server \<Rightarrow> (string \<times> server) result" where
  "ttl_generic name cmd in_seconds s =
     (if length cmd \<noteq> 2 then Inr (wrong_arity name, s)
      else let s1 = touch (cmd ! 1) s
           in if \<not> db_exists (db s1) (cmd ! 1) then Inr (resp_integer (- 2), s1)
              else case expiry_at (ttl s1) (cmd ! 1) of
                None \<Rightarrow> Inr (resp_integer (- 1), s1)
              | Some at \<Rightarrow>
                  let (now, s2) = now_ms s1
                  in bind_res (checked_i64 (at - now)) (\<lambda>diff.
                       let remaining_ms = (if diff < 0 then 0 else diff)
                       in if in_seconds then
                            bind_res (checked_i64 (remaining_ms + 500)) (\<lambda>r.
                              Inr (resp_integer (r div 1000), s2))
                          else Inr (resp_integer remaining_ms, s2)))"

definition cmd_ttl :: handler where
  "cmd_ttl cmd s = ttl_generic ''ttl'' cmd True s"

definition cmd_pttl :: handler where
  "cmd_pttl cmd s = ttl_generic ''pttl'' cmd False s"

definition cmd_persist :: handler where
  "cmd_persist cmd s =
     (if length cmd \<noteq> 2 then Inr (wrong_arity ''persist'', s)
      else let s1 = touch (cmd ! 1) s
           in if \<not> db_exists (db s1) (cmd ! 1) then Inr (resp_integer 0, s1)
              else if expiry_at (ttl s1) (cmd ! 1) = None then Inr (resp_integer 0, s1)
              else Inr (resp_integer 1, s1\<lparr>ttl := persist (cmd ! 1) (ttl s1)\<rparr>))"

section \<open>Lists\<close>

fun push_loop :: "bool \<Rightarrow> string \<Rightarrow> string list \<Rightarrow> nat \<Rightarrow> server \<Rightarrow> (nat \<times> server) result" where
  "push_loop left key [] len s = Inr (len, s)"
| "push_loop left key (v # vs) len s =
     bind_res (if left then db_lpush key v (db s) else db_rpush key v (db s)) (\<lambda>(len1, db1).
       push_loop left key vs len1 (s\<lparr>db := db1\<rparr>))"

definition push_generic :: "string \<Rightarrow> command \<Rightarrow> bool \<Rightarrow> server \<Rightarrow> (string \<times> server) result" where
  "push_generic name cmd left s =
     (if length cmd < 3 then Inr (wrong_arity name, s)
      else let s1 = touch (cmd ! 1) s
           in if db_type (db s1) (cmd ! 1) = kString then Inr (wrongtype, s1)
              else bind_res (push_loop left (cmd ! 1) (drop 2 cmd) 0 s1) (\<lambda>(len, s2).
                     Inr (resp_integer (int len), s2)))"

definition cmd_lpush :: handler where
  "cmd_lpush cmd s = push_generic ''lpush'' cmd True s"

definition cmd_rpush :: handler where
  "cmd_rpush cmd s = push_generic ''rpush'' cmd False s"

definition pop_generic :: "string \<Rightarrow> command \<Rightarrow> bool \<Rightarrow> server \<Rightarrow> (string \<times> server) result" where
  "pop_generic name cmd left s =
     (if length cmd \<noteq> 2 then Inr (wrong_arity name, s)
      else let s1 = touch (cmd ! 1) s
           in if db_type (db s1) (cmd ! 1) = kString then Inr (wrongtype, s1)
              else bind_res (if left then db_lpop (cmd ! 1) (db s1) else db_rpop (cmd ! 1) (db s1))
                (\<lambda>(v, db1).
                  let s2 = s1\<lparr>db := db1\<rparr>
                  in case v of
                       None \<Rightarrow> Inr (resp_null_bulk, s2)
                     | Some x \<Rightarrow>
                         Inr (resp_bulk x,
                              if db_exists (db s2) (cmd ! 1) then s2
                              else s2\<lparr>ttl := persist (cmd ! 1) (ttl s2)\<rparr>)))"

definition cmd_lpop :: handler where
  "cmd_lpop cmd s = pop_generic ''lpop'' cmd True s"

definition cmd_rpop :: handler where
  "cmd_rpop cmd s = pop_generic ''rpop'' cmd False s"

definition cmd_llen :: handler where
  "cmd_llen cmd s =
     (if length cmd \<noteq> 2 then Inr (wrong_arity ''llen'', s)
      else let s1 = touch (cmd ! 1) s
           in if db_type (db s1) (cmd ! 1) = kString then Inr (wrongtype, s1)
              else bind_res (db_llen (db s1) (cmd ! 1)) (\<lambda>n. Inr (resp_integer (int n), s1)))"

definition cmd_lrange :: handler where
  "cmd_lrange cmd s =
     (if length cmd \<noteq> 4 then Inr (wrong_arity ''lrange'', s)
      else case (parse_i64 (cmd ! 2), parse_i64 (cmd ! 3)) of
        (Some start, Some stop) \<Rightarrow>
          let s1 = touch (cmd ! 1) s
          in if db_type (db s1) (cmd ! 1) = kString then Inr (wrongtype, s1)
             else bind_res (db_lrange (db s1) (cmd ! 1) start stop) (\<lambda>vs.
                    Inr (resp_array (map resp_bulk vs), s1))
      | _ \<Rightarrow> Inr (not_an_integer, s))"

section \<open>Server and connection commands\<close>

definition cmd_ping :: handler where
  "cmd_ping cmd s =
     (if length cmd = 1 then Inr (resp_simple ''PONG'', s)
      else if length cmd = 2 then Inr (resp_bulk (cmd ! 1), s)
      else Inr (wrong_arity ''ping'', s))"

definition cmd_echo :: handler where
  "cmd_echo cmd s =
     (if length cmd \<noteq> 2 then Inr (wrong_arity ''echo'', s) else Inr (resp_bulk (cmd ! 1), s))"

definition cmd_command :: handler where
  "cmd_command cmd s = Inr (resp_empty_array, s)"

definition kKnown :: "(string \<times> string) list" where
  "kKnown = [(''save'', []), (''appendonly'', ''no''), (''maxmemory'', ''0'')]"

definition cmd_config :: handler where
  "cmd_config cmd s =
     (if length cmd \<ge> 2 \<and> upper (cmd ! 1) = ''GET'' then
        if length cmd \<noteq> 3 then Inr (wrong_arity ''config|get'', s)
        else case map_of kKnown (lower (cmd ! 2)) of
          None \<Rightarrow> Inr (resp_empty_array, s)
        | Some v \<Rightarrow> Inr (resp_array [resp_bulk (lower (cmd ! 2)), resp_bulk v], s)
      else Inr (resp_error ''ERR CONFIG subcommand must be GET'', s))"

section \<open>Dispatch\<close>

definition kTable :: "(string \<times> handler) list" where
  "kTable =
     [(''PING'', cmd_ping), (''ECHO'', cmd_echo), (''SET'', cmd_set),
      (''GET'', cmd_get), (''DEL'', cmd_del), (''EXISTS'', cmd_exists),
      (''EXPIRE'', cmd_expire), (''PEXPIRE'', cmd_pexpire), (''TTL'', cmd_ttl),
      (''PEXPIREAT'', cmd_pexpireat),
      (''PTTL'', cmd_pttl), (''PERSIST'', cmd_persist), (''INCR'', cmd_incr),
      (''DECR'', cmd_decr), (''INCRBY'', cmd_incrby), (''TYPE'', cmd_type),
      (''FLUSHALL'', cmd_flushall), (''DBSIZE'', cmd_dbsize), (''KEYS'', cmd_keys),
      (''CONFIG'', cmd_config), (''COMMAND'', cmd_command),
      (''LPUSH'', cmd_lpush), (''RPUSH'', cmd_rpush), (''LPOP'', cmd_lpop),
      (''RPOP'', cmd_rpop), (''LRANGE'', cmd_lrange), (''LLEN'', cmd_llen)]"

text \<open>What a mutation that answered \<open>reply\<close> owes the log.\<close>

definition log_mutation :: "string \<Rightarrow> command \<Rightarrow> string \<Rightarrow> server \<Rightarrow> server" where
  "log_mutation name cmd reply s =
     (if reply = [] \<or> hd reply = CHR ''-'' then s
      else if name = ''SET'' then
        if reply \<noteq> ''+OK'' @ crlf then s
        else let s1 = put_record [''SET'', cmd ! 1, cmd ! 2] s
             in case expiry_at (ttl s1) (cmd ! 1) of
                  Some at \<Rightarrow> put_record [''PEXPIREAT'', cmd ! 1, to_string at] s1
                | None \<Rightarrow> s1
      else if name = ''EXPIRE'' \<or> name = ''PEXPIRE'' \<or> name = ''PEXPIREAT'' then
        if reply \<noteq> '':1'' @ crlf then s
        else (case expiry_at (ttl s) (cmd ! 1) of
                Some at \<Rightarrow> put_record [''PEXPIREAT'', cmd ! 1, to_string at] s
              | None \<Rightarrow> put_record [''DEL'', cmd ! 1] s)
      else if name = ''PERSIST'' then
        if reply = '':1'' @ crlf then put_record [''PERSIST'', cmd ! 1] s else s
      else if name = ''DEL'' then
        if reply \<noteq> '':0'' @ crlf then put_record cmd s else s
      else if name = ''INCR'' \<or> name = ''DECR'' \<or> name = ''INCRBY'' \<or> name = ''LPUSH'' \<or> name = ''RPUSH'' then
        if hd reply = CHR '':'' then put_record cmd s else s
      else if name = ''LPOP'' \<or> name = ''RPOP'' then
        if reply \<noteq> ''$-1'' @ crlf then put_record cmd s else s
      else if name = ''FLUSHALL'' then
        if reply = ''+OK'' @ crlf then put_record cmd s else s
      else s)"

definition misconf :: string where
  "misconf = resp_error ''MISCONF persistence failed; restart required''"

definition execute :: handler where
  "execute cmd s =
     (if persistence_failed s then Inr (misconf, s)
      else if cmd = [] then Inr (resp_error ''ERR empty command'', s)
      else if upper (cmd ! 0) = ''SHUTDOWN'' then Inr (resp_simple ''OK'', s\<lparr>shutdown := True\<rparr>)
      else case map_of kTable (upper (cmd ! 0)) of
        None \<Rightarrow> Inr (resp_error (''ERR unknown command '' @ [CHR 0x27] @ cmd ! 0 @ [CHR 0x27]), s)
      | Some h \<Rightarrow>
          bind_res (h cmd s) (\<lambda>(reply, s1).
            let s2 = (if wal s1 \<noteq> None \<and> \<not> persistence_failed s1
                      then log_mutation (upper (cmd ! 0)) cmd reply s1 else s1)
            in if persistence_failed s2 then Inr (misconf, s2) else Inr (reply, s2)))"

end
