(* ===== verification/Command_Laws.thy ===== *)
theory Command_Laws
  imports Commands
begin

text \<open>
  What every command keeps: the keyspace and the TTL table stay well formed, every deadline belongs
  to a key that exists, and no handler faults except by signed overflow of a deadline. The observable
  state of a server is its view, the map of entries and the map of deadlines; the lemmas describe
  each operation by what it does to the view.
\<close>

type_synonym view = "(string \<rightharpoonup> entry) \<times> (string \<rightharpoonup> int)"

definition view :: "server \<Rightarrow> view" where
  "view s = (map_of (db s), expiry_at (ttl s))"

definition server_wf :: "server \<Rightarrow> bool" where
  "server_wf s \<longleftrightarrow> db_wf (db s) \<and> expiry_wf (ttl s) \<and>
     (\<forall>k. expiry_at (ttl s) k \<noteq> None \<longrightarrow> map_of (db s) k \<noteq> None)"

lemma server_wfD:
  "server_wf s \<Longrightarrow> db_wf (db s)" "server_wf s \<Longrightarrow> expiry_wf (ttl s)"
  "server_wf s \<Longrightarrow> map_of (db s) k = None \<Longrightarrow> expiry_at (ttl s) k = None"
  by (auto simp: server_wf_def)

lemma server_wf_start [simp]: "server_wf (CommandDispatcher c)" "view (CommandDispatcher c) = (Map.empty, Map.empty)"
  by (auto simp: server_wf_def view_def CommandDispatcher_def ExpiryManager_def expiry_at_def expiry_wf_def)

lemma view_fields [simp]:
  "view (s\<lparr>clk := c\<rparr>) = view s" "view (s\<lparr>wal := w\<rparr>) = view s" "view (s\<lparr>shutdown := b\<rparr>) = view s"
  "view (s\<lparr>persistence_failed := b\<rparr>) = view s"
  "server_wf (s\<lparr>clk := c\<rparr>) = server_wf s" "server_wf (s\<lparr>wal := w\<rparr>) = server_wf s"
  "server_wf (s\<lparr>shutdown := b\<rparr>) = server_wf s" "server_wf (s\<lparr>persistence_failed := b\<rparr>) = server_wf s"
  by (simp_all add: view_def server_wf_def)

section \<open>The log is beside the view\<close>

lemma put_record_fields [simp]:
  "db (put_record r s) = db s" "ttl (put_record r s) = ttl s" "clk (put_record r s) = clk s"
  "wal (put_record r s) = None \<longleftrightarrow> wal s = None"
  by (simp_all add: put_record_def report_persistence_failure_def Let_def split: option.split prod.split)

lemma put_record_view [simp]: "view (put_record r s) = view s" "server_wf (put_record r s) = server_wf s"
  by (simp_all add: view_def server_wf_def)

section \<open>Lazy expiry\<close>

definition expired_key :: "string \<Rightarrow> server \<Rightarrow> bool" where
  "expired_key k s \<longleftrightarrow> (case expiry_at (ttl s) k of None \<Rightarrow> False | Some t \<Rightarrow> t \<le> clk s 0)"

text \<open>The view without some keys.\<close>

definition vdel :: "string list \<Rightarrow> view \<Rightarrow> view" where
  "vdel ks v = (fst v |` (- set ks), snd v |` (- set ks))"

lemma restrict_UNIV [simp]: "m |` UNIV = m"
  by (simp add: restrict_map_def)

lemma vdel_Nil [simp]: "vdel [] v = v"
  by (simp add: vdel_def)

lemma vdel_vdel [simp]: "vdel ks (vdel ls v) = vdel (ls @ ks) v"
  by (simp add: vdel_def)

lemma restrict_Compl_single [simp]: "m |` (- {k}) = m(k := None)"
  by (auto simp: restrict_map_def)

lemma check_key_cases:
  "check_key k s =
     (if expired_key k s
      then (True, (evict_hook k s)\<lparr>clk := (\<lambda>i. clk s (Suc i)), ttl := persist k (ttl s)\<rparr>)
      else (False, if expiry_at (ttl s) k = None then s else s\<lparr>clk := (\<lambda>i. clk s (Suc i))\<rparr>))"
  by (auto simp: check_key_def check_and_expire_cases expired_key_def run_hook_def split: option.split)

lemma evict_hook_fields [simp]:
  "db (evict_hook k s) = snd (db_del k (db s))" "ttl (evict_hook k s) = ttl s" "clk (evict_hook k s) = clk s"
  by (simp_all add: evict_hook_def)

lemma check_key_wf:
  assumes "server_wf s"
  shows "server_wf (snd (check_key k s))"
    and "view (snd (check_key k s)) = (if expired_key k s then vdel [k] (view s) else view s)"
  using server_wfD [OF assms] assms
  by (auto simp: check_key_cases server_wf_def view_def vdel_def db_wf_del deadline_simps)

lemma touch_wf [simp]: "server_wf s \<Longrightarrow> server_wf (touch k s)"
  by (simp add: touch_def check_key_wf)

lemma touch_view: "server_wf s \<Longrightarrow> view (touch k s) = (if expired_key k s then vdel [k] (view s) else view s)"
  by (simp add: touch_def check_key_wf)

lemma now_ms_eq: "now_ms s = (clk s 0, s\<lparr>clk := (\<lambda>i. clk s (Suc i))\<rparr>)"
  by (simp add: now_ms_def wall_ms_def)

section \<open>Updates of a well-formed server\<close>

lemma server_wf_update:
  assumes "server_wf s" and "entry_ok e"
  shows "server_wf (s\<lparr>db := AList.update k e (db s)\<rparr>)"
    and "view (s\<lparr>db := AList.update k e (db s)\<rparr>) = ((fst (view s))(k \<mapsto> e), snd (view s))"
  using assms by (auto simp: server_wf_def view_def map_of_update db_wf_update)

lemma server_wf_set:
  assumes "server_wf s"
  shows "server_wf (s\<lparr>db := db_set k v (db s)\<rparr>)"
    and "view (s\<lparr>db := db_set k v (db s)\<rparr>) = ((fst (view s))(k \<mapsto> Str v), snd (view s))"
  using server_wf_update [OF assms, of "Str v"] by (simp_all add: db_set_def entry_ok_def)

lemma server_wf_persist:
  assumes "server_wf s"
  shows "server_wf (s\<lparr>ttl := persist k (ttl s)\<rparr>)"
    and "view (s\<lparr>ttl := persist k (ttl s)\<rparr>) = (fst (view s), (snd (view s))(k := None))"
  using server_wfD [OF assms] assms by (auto simp: server_wf_def view_def deadline_simps)

lemma server_wf_set_expiry:
  assumes "server_wf s" and "map_of (db s) k \<noteq> None"
  shows "server_wf (s\<lparr>ttl := set_expiry k at (ttl s)\<rparr>)"
    and "view (s\<lparr>ttl := set_expiry k at (ttl s)\<rparr>) = (fst (view s), (snd (view s))(k \<mapsto> at))"
  using server_wfD [OF assms(1)] assms by (auto simp: server_wf_def view_def deadline_simps)

lemma server_wf_delete_now:
  assumes "server_wf s"
  shows "server_wf (delete_now k s)" and "view (delete_now k s) = vdel [k] (view s)"
  using server_wfD [OF assms] assms
  by (auto simp: delete_now_def server_wf_def view_def vdel_def db_wf_del deadline_simps)

text \<open>A delete that finds nothing changes nothing.\<close>

lemma db_del_absent: "map_of m k = None \<Longrightarrow> db_del k m = (False, m)"
  by (simp add: db_del_def map_of_eq_None_iff delete_id)

lemma fold_persist:
  assumes "expiry_wf e"
  shows "expiry_wf (fold persist ks e)" and "expiry_at (fold persist ks e) = expiry_at e |` (- set ks)"
  using deadlines.wf_fold_erase [OF assms] deadlines.find_fold_erase [OF assms] by auto

section \<open>No handler faults, all keep the server well formed\<close>

abbreviation keeps :: "(string \<times> server) result \<Rightarrow> bool" where
  "keeps \<equiv> safe (\<lambda>(r, s'). server_wf s')"

named_theorems handler_safe \<open>a handler keeps a well-formed server well formed and does not fault\<close>

lemma set_options_safe: "safe (\<lambda>_. True) (set_options ws opts)"
  by (induction ws opts rule: set_options.induct)
    (auto simp: checked_i64_def split: option.split)

lemma cmd_get_safe [handler_safe]: "server_wf s \<Longrightarrow> keeps (cmd_get cmd s)"
  by (simp add: cmd_get_def Let_def)

lemma cmd_set_safe [handler_safe]:
  assumes "server_wf s"
  shows "keeps (cmd_set cmd s)"
proof (cases "length cmd < 3")
  case False
  let ?k = "cmd ! 1" and ?s1 = "touch (cmd ! 1) s"
  let ?s2 = "?s1\<lparr>db := db_set ?k (cmd ! 2) (db ?s1)\<rparr>"
  have wf: "server_wf ?s2" using assms by (simp add: server_wf_set)
  have "keeps (bind_res (checked_i64 (clk ?s2 0 + ms)) (\<lambda>at.
          Inr (resp_simple ''OK'', ?s2\<lparr>clk := \<lambda>i. clk ?s2 (Suc i), ttl := set_expiry ?k at (ttl ?s2)\<rparr>)))" for ms
    using server_wf_set_expiry(1) [of "?s2\<lparr>clk := \<lambda>i. clk ?s2 (Suc i)\<rparr>" ?k] wf
    by (intro safe_bind [OF safe_checked_i64]) simp
  with False server_wf_persist [OF wf] assms show ?thesis
    unfolding cmd_set_def
    by (auto simp: Let_def now_ms_eq intro!: safe_bind [OF set_options_safe] split: sum.split option.split)
qed (simp add: cmd_set_def assms)

lemma incr_by_safe: "server_wf s \<Longrightarrow> keeps (incr_by k d s)"
  by (auto simp: incr_by_def Let_def server_wf_set split: option.split)

lemma incr_safe [handler_safe]:
  "server_wf s \<Longrightarrow> keeps (cmd_incr cmd s)" "server_wf s \<Longrightarrow> keeps (cmd_decr cmd s)"
  "server_wf s \<Longrightarrow> keeps (cmd_incrby cmd s)"
  by (simp_all add: cmd_incr_def cmd_decr_def cmd_incrby_def incr_by_safe split: option.split)

lemma del_loop_Cons:
  "del_loop (k # keys) n s =
     (if map_of (db (touch k s)) k = None then del_loop keys n (touch k s)
      else del_loop keys (n + 1) (delete_now k (touch k s)))"
  by (simp add: Let_def delete_now_def db_del_absent split: prod.split) (simp add: db_del_def)

lemma del_loop_wf: "server_wf s \<Longrightarrow> server_wf (snd (del_loop keys n s))"
  by (induction keys arbitrary: n s)
    (simp_all add: del_loop_Cons server_wf_delete_now del: del_loop.simps(2))

lemma exists_loop_wf: "server_wf s \<Longrightarrow> server_wf (snd (exists_loop keys n s))"
  by (induction keys n s rule: exists_loop.induct) (simp_all add: Let_def)

lemma keys_loop_wf: "server_wf s \<Longrightarrow> server_wf (snd (keys_loop keys es s))"
proof (induction keys es s rule: keys_loop.induct)
  case (2 key keys encoded s)
  then show ?case
    using check_key_wf(1) [OF "2.prems", of key] by (simp add: split_beta Let_def)
qed simp

lemma flushall_wf:
  assumes "server_wf s"
  shows "server_wf (s\<lparr>ttl := fold persist (keys_matching_glob (db s) ''*'') (ttl s), db := db_clear (db s)\<rparr>)"
    and "view (s\<lparr>ttl := fold persist (keys_matching_glob (db s) ''*'') (ttl s), db := db_clear (db s)\<rparr>) =
           (Map.empty, Map.empty)"
proof -
  have "expiry_at (ttl s) |` (- dom (map_of (db s))) = Map.empty"
    using server_wfD(3) [OF assms] by (auto simp: restrict_map_def fun_eq_iff domIff)
  then show "server_wf (s\<lparr>ttl := fold persist (keys_matching_glob (db s) ''*'') (ttl s), db := db_clear (db s)\<rparr>)"
    "view (s\<lparr>ttl := fold persist (keys_matching_glob (db s) ''*'') (ttl s), db := db_clear (db s)\<rparr>) =
       (Map.empty, Map.empty)"
    using fold_persist [OF server_wfD(2) [OF assms]]
    by (simp_all add: server_wf_def view_def keys_matching_glob_all)
qed

lemma keyspace_safe [handler_safe]:
  "server_wf s \<Longrightarrow> keeps (cmd_del cmd s)" "server_wf s \<Longrightarrow> keeps (cmd_exists cmd s)"
  "server_wf s \<Longrightarrow> keeps (cmd_type cmd s)" "server_wf s \<Longrightarrow> keeps (cmd_keys cmd s)"
  "server_wf s \<Longrightarrow> keeps (cmd_dbsize cmd s)" "server_wf s \<Longrightarrow> keeps (cmd_flushall cmd s)"
  using del_loop_wf [of s "drop 1 cmd" 0] exists_loop_wf [of s "drop 1 cmd" 0]
    keys_loop_wf [of s "keys_matching_glob (db s) (cmd ! 1)" "[]"] flushall_wf(1) [of s]
  by (simp_all add: cmd_del_def cmd_exists_def cmd_type_def cmd_keys_def cmd_dbsize_def cmd_flushall_def
      Let_def split_beta)

lemma expire_generic_safe:
  assumes "server_wf s"
  shows "keeps (expire_generic name cmd u s)"
proof -
  let ?s1 = "touch (cmd ! 1) s"
  have wf: "server_wf ?s1" using assms by simp
  have "keeps (bind_res (checked_i64 (n * u)) (\<lambda>ms. bind_res (checked_i64 (clk ?s1 0 + ms)) (\<lambda>at.
          Inr (resp_integer 1, ?s1\<lparr>clk := \<lambda>i. clk ?s1 (Suc i), ttl := set_expiry (cmd ! 1) at (ttl ?s1)\<rparr>))))"
    if "map_of (db ?s1) (cmd ! 1) \<noteq> None" for n
    using server_wf_set_expiry(1) [of "?s1\<lparr>clk := \<lambda>i. clk ?s1 (Suc i)\<rparr>" "cmd ! 1"] wf that
    by (intro safe_bind [OF safe_checked_i64]) simp
  with assms server_wf_delete_now [OF wf] show ?thesis
    by (auto simp: expire_generic_def Let_def now_ms_eq db_exists_def split: option.split)
qed

lemma pexpireat_safe [handler_safe]: "server_wf s \<Longrightarrow> keeps (cmd_pexpireat cmd s)"
  using server_wf_set_expiry(1) [of "(touch (cmd ! 1) s)\<lparr>clk := \<lambda>i. clk (touch (cmd ! 1) s) (Suc i)\<rparr>" "cmd ! 1"]
    server_wf_delete_now [of "(touch (cmd ! 1) s)\<lparr>clk := \<lambda>i. clk (touch (cmd ! 1) s) (Suc i)\<rparr>" "cmd ! 1"]
  by (auto simp: cmd_pexpireat_def Let_def now_ms_eq db_exists_def split: option.split)

lemma ttl_generic_safe: "server_wf s \<Longrightarrow> keeps (ttl_generic name cmd b s)"
  by (auto simp: ttl_generic_def Let_def now_ms_eq split: option.split intro!: safe_bind [OF safe_checked_i64])

lemma ttl_safe [handler_safe]:
  "server_wf s \<Longrightarrow> keeps (cmd_expire cmd s)" "server_wf s \<Longrightarrow> keeps (cmd_pexpire cmd s)"
  "server_wf s \<Longrightarrow> keeps (cmd_ttl cmd s)" "server_wf s \<Longrightarrow> keeps (cmd_pttl cmd s)"
  "server_wf s \<Longrightarrow> keeps (cmd_persist cmd s)"
  by (simp_all add: cmd_expire_def cmd_pexpire_def expire_generic_safe cmd_ttl_def cmd_pttl_def
      ttl_generic_safe cmd_persist_def Let_def server_wf_persist)

text \<open>LPUSH reverses the pushed values in front, RPUSH appends them in order.\<close>

definition pushed :: "bool \<Rightarrow> string list \<Rightarrow> string list \<Rightarrow> string list" where
  "pushed left vs l = (if left then rev vs @ l else l @ vs)"

lemma pushed_Cons: "pushed left vs (pushed left [v] l) = pushed left (v # vs) l"
  by (simp add: pushed_def)

lemma length_pushed: "length (pushed left vs l) = length vs + length l"
  by (simp add: pushed_def)

lemma push_loop_ok:
  assumes "db_wf (db s)" and "db_type (db s) k \<noteq> kString" and "vs \<noteq> []"
  shows "\<exists>db'. push_loop left k vs n s = Inr (length vs + length (list_at (db s) k), s\<lparr>db := db'\<rparr>) \<and>
     db_wf db' \<and> map_of db' = (map_of (db s))(k \<mapsto> Lst (pushed left vs (list_at (db s) k)))"
  using assms
proof (induction vs arbitrary: s n)
  case (Cons v vs)
  let ?l1 = "pushed left [v] (list_at (db s) k)"
  define db1 where "db1 = AList.update k (Lst ?l1) (db s)"
  have step: "push_loop left k (v # vs) n s = push_loop left k vs (Suc (length (list_at (db s) k))) (s\<lparr>db := db1\<rparr>)"
    using Cons.prems(2) by (simp add: db_lpush_ok db_rpush_ok db1_def pushed_def)
  have db1: "map_of db1 = (map_of (db s))(k \<mapsto> Lst ?l1)" "db_wf db1"
    using Cons.prems(1) by (simp_all add: db1_def map_of_update db_wf_update entry_ok_def pushed_def)
  then have l1: "list_at db1 k = ?l1" and ty: "db_type db1 k \<noteq> kString"
    by (simp_all add: list_at_def)
  show ?case
  proof (cases "vs = []")
    case True
    then show ?thesis using step db1 by auto
  next
    case False
    have "\<exists>db'. push_loop left k vs (Suc (length (list_at (db s) k))) (s\<lparr>db := db1\<rparr>) =
        Inr (length vs + length ?l1, s\<lparr>db := db'\<rparr>) \<and> db_wf db' \<and>
      map_of db' = (map_of db1)(k \<mapsto> Lst (pushed left vs ?l1))"
      using Cons.IH [OF _ _ False, of "s\<lparr>db := db1\<rparr>" "Suc (length (list_at (db s) k))"] db1(2) ty l1
      by (simp add: fun_upd_def del: db_type_simps)
    then obtain db' where "push_loop left k vs (Suc (length (list_at (db s) k))) (s\<lparr>db := db1\<rparr>) =
        Inr (length vs + length ?l1, s\<lparr>db := db'\<rparr>)" "db_wf db'"
      "map_of db' = (map_of db1)(k \<mapsto> Lst (pushed left vs ?l1))"
      by blast
    then show ?thesis
      unfolding step by (intro exI [of _ db']) (simp add: db1(1) pushed_Cons length_pushed)
  qed
qed simp

lemma push_generic_ok:
  assumes "server_wf s" and "3 \<le> length cmd" and "k = cmd ! 1" and "s1 = touch k s"
  shows "\<exists>db'. push_generic name cmd left s =
      (if db_type (db s1) k = kString then Inr (wrongtype, s1)
       else Inr (resp_integer (int (length (drop 2 cmd) + length (list_at (db s1) k))), s1\<lparr>db := db'\<rparr>)) \<and>
     (db_type (db s1) k \<noteq> kString \<longrightarrow>
       server_wf (s1\<lparr>db := db'\<rparr>) \<and>
       view (s1\<lparr>db := db'\<rparr>) =
         ((fst (view s1))(k \<mapsto> Lst (pushed left (drop 2 cmd) (list_at (db s1) k))), snd (view s1)))"
proof (cases "db_type (db s1) k = kString")
  case True
  with assms show ?thesis by (simp add: push_generic_def)
next
  case False
  have wf: "server_wf s1" using assms by simp
  obtain db' where "push_loop left k (drop 2 cmd) 0 s1 =
      Inr (length (drop 2 cmd) + length (list_at (db s1) k), s1\<lparr>db := db'\<rparr>)" "db_wf db'"
    "map_of db' = (map_of (db s1))(k \<mapsto> Lst (pushed left (drop 2 cmd) (list_at (db s1) k)))"
    using push_loop_ok [OF server_wfD(1) [OF wf] False, of "drop 2 cmd" left 0] assms(2) by auto
  with False assms(2-) wf show ?thesis
    by (intro exI [of _ db']) (auto simp: push_generic_def Let_def server_wf_def view_def)
qed

lemma push_generic_safe: "server_wf s \<Longrightarrow> keeps (push_generic name cmd left s)"
  using push_generic_ok [of s cmd "cmd ! 1" "touch (cmd ! 1) s" name left]
  by (cases "length cmd < 3") (auto simp: push_generic_def not_less split: if_splits)

definition popped :: "bool \<Rightarrow> string list \<Rightarrow> string list" where
  "popped left l = (if left then tl l else butlast l)"

definition popped_elem :: "bool \<Rightarrow> string list \<Rightarrow> string" where
  "popped_elem left l = (if left then hd l else last l)"

definition keep_list :: "string \<Rightarrow> string list \<Rightarrow> server \<Rightarrow> server" where
  "keep_list k l s = (if l = [] then delete_now k s else s\<lparr>db := AList.update k (Lst l) (db s)\<rparr>)"

lemma keep_list_wf:
  assumes "server_wf s"
  shows "server_wf (keep_list k l s)"
    and "view (keep_list k l s) = (if l = [] then vdel [k] (view s) else ((fst (view s))(k \<mapsto> Lst l), snd (view s)))"
  using server_wf_delete_now [OF assms] server_wf_update [OF assms, of "Lst l"]
  by (simp_all add: keep_list_def entry_ok_def)

lemma pop_generic_ok:
  assumes "server_wf s" and "length cmd = 2" and "k = cmd ! 1" and "s1 = touch k s" and "l = list_at (db s1) k"
  shows "pop_generic name cmd left s =
     (if db_type (db s1) k = kString then Inr (wrongtype, s1)
      else if l = [] then Inr (resp_null_bulk, s1)
      else Inr (resp_bulk (popped_elem left l), keep_list k (popped left l) s1))"
proof (cases "db_type (db s1) k = kString")
  case True
  with assms show ?thesis by (simp add: pop_generic_def)
next
  case False
  have wf: "db_wf (db s1)" using assms(1,4) by (simp add: server_wfD)
  have "(if left then db_lpop k (db s1) else db_rpop k (db s1)) =
      (if l = [] then Inr (None, db s1)
       else Inr (Some (popped_elem left l), put_list k (popped left l) (db s1)))"
    using db_lpop_ok [OF wf False] db_rpop_ok [OF wf False] assms(5)
    by (cases "list_at (db s1) k") (auto simp: popped_elem_def popped_def)
  moreover have "\<not> db_exists (AList.delete k m) k" "db_exists (AList.update k e m) k" for m e
    by (simp_all add: db_exists_def map_of_update map_of_delete)
  ultimately show ?thesis
    using False assms(2-4)
    by (auto simp: pop_generic_def Let_def keep_list_def delete_now_def put_list_def db_del_def)
qed

lemma pop_generic_safe: "server_wf s \<Longrightarrow> keeps (pop_generic name cmd left s)"
  using pop_generic_ok [of s cmd "cmd ! 1" "touch (cmd ! 1) s" "list_at (db (touch (cmd ! 1) s)) (cmd ! 1)" name left]
  by (cases "length cmd = 2") (auto simp: pop_generic_def keep_list_wf simp del: db_type_simps)

lemma list_safe [handler_safe]:
  "server_wf s \<Longrightarrow> keeps (cmd_lpush cmd s)" "server_wf s \<Longrightarrow> keeps (cmd_rpush cmd s)"
  "server_wf s \<Longrightarrow> keeps (cmd_lpop cmd s)" "server_wf s \<Longrightarrow> keeps (cmd_rpop cmd s)"
  "server_wf s \<Longrightarrow> keeps (cmd_llen cmd s)" "server_wf s \<Longrightarrow> keeps (cmd_lrange cmd s)"
  by (auto simp: cmd_lpush_def cmd_rpush_def push_generic_safe cmd_lpop_def cmd_rpop_def pop_generic_safe
      cmd_llen_def cmd_lrange_def Let_def db_llen_ok db_lrange_ok split: option.split simp del: db_type_simps)

lemma connection_safe [handler_safe]:
  "server_wf s \<Longrightarrow> keeps (cmd_ping cmd s)" "server_wf s \<Longrightarrow> keeps (cmd_echo cmd s)"
  "server_wf s \<Longrightarrow> keeps (cmd_command cmd s)" "server_wf s \<Longrightarrow> keeps (cmd_config cmd s)"
  by (simp_all add: cmd_ping_def cmd_echo_def cmd_command_def cmd_config_def split: option.split)

section \<open>The dispatcher is a safe service\<close>

text \<open>The records a mutation owes the log, read off its reply; \<^verbatim>\<open>log_mutation\<close> puts them in order.\<close>

definition log_records :: "string \<Rightarrow> command \<Rightarrow> string \<Rightarrow> expiry \<Rightarrow> command list" where
  "log_records name cmd reply e =
     (if reply = [] \<or> hd reply = CHR ''-'' then []
      else if name = ''SET'' then
        if reply = resp_simple ''OK''
        then [''SET'', cmd ! 1, cmd ! 2] #
             (case expiry_at e (cmd ! 1) of
                Some at \<Rightarrow> [[''PEXPIREAT'', cmd ! 1, to_string at]]
              | None \<Rightarrow> [])
        else []
      else if name \<in> {''EXPIRE'', ''PEXPIRE'', ''PEXPIREAT''} then
        if reply = resp_integer 1
        then [case expiry_at e (cmd ! 1) of
                Some at \<Rightarrow> [''PEXPIREAT'', cmd ! 1, to_string at]
              | None \<Rightarrow> [''DEL'', cmd ! 1]]
        else []
      else if name = ''PERSIST'' then if reply = resp_integer 1 then [[''PERSIST'', cmd ! 1]] else []
      else if name = ''DEL'' then if reply = resp_integer 0 then [] else [cmd]
      else if name \<in> {''INCR'', ''DECR'', ''INCRBY'', ''LPUSH'', ''RPUSH''} then
        if hd reply = CHR '':'' then [cmd] else []
      else if name \<in> {''LPOP'', ''RPOP''} then if reply = resp_null_bulk then [] else [cmd]
      else if name = ''FLUSHALL'' then if reply = resp_simple ''OK'' then [cmd] else []
      else [])"

lemma reply_literals:
  "''+OK'' @ crlf = resp_simple ''OK''" "'':1'' @ crlf = resp_integer 1" "'':0'' @ crlf = resp_integer 0"
  "''$-1'' @ crlf = resp_null_bulk"
  by code_simp+

lemma log_mutation_records:
  "log_mutation name cmd reply s = fold put_record (log_records name cmd reply (ttl s)) s"
  unfolding log_mutation_def log_records_def reply_literals
  by (simp add: Let_def split: option.split)

lemma fold_put_record [simp]:
  "db (fold put_record rs s) = db s" "ttl (fold put_record rs s) = ttl s" "clk (fold put_record rs s) = clk s"
  "view (fold put_record rs s) = view s" "server_wf (fold put_record rs s) = server_wf s"
  "wal (fold put_record rs s) = None \<longleftrightarrow> wal s = None"
  by (induction rs arbitrary: s) simp_all

lemma kTable_safe: "map_of kTable name = Some h \<Longrightarrow> server_wf s \<Longrightarrow> keeps (h cmd s)"
  by (auto simp: kTable_def handler_safe split: if_splits)

text \<open>What \<^verbatim>\<open>execute\<close> makes of the handler's answer.\<close>

lemma execute_handler:
  assumes "\<not> persistence_failed s" and "cmd \<noteq> []" and "upper (cmd ! 0) = name"
    and "map_of kTable name = Some h"
  shows "execute cmd s = bind_res (h cmd s) (\<lambda>(reply, s1).
     let s2 = (if wal s1 \<noteq> None \<and> \<not> persistence_failed s1
               then fold put_record (log_records name cmd reply (ttl s1)) s1 else s1)
     in Inr (if persistence_failed s2 then misconf else reply, s2))"
proof -
  have "name \<noteq> ''SHUTDOWN''"
    using assms(4) by (auto simp: kTable_def)
  with assms show ?thesis
    by (cases "h cmd s") (auto simp: execute_def log_mutation_records Let_def)
qed

lemma execute_safe: "server_wf s \<Longrightarrow> keeps (execute cmd s)"
proof -
  assume wf: "server_wf s"
  consider "persistence_failed s" | "cmd = []" | "upper (cmd ! 0) = ''SHUTDOWN''"
    | "map_of kTable (upper (cmd ! 0)) = None"
    | h where "\<not> persistence_failed s" "cmd \<noteq> []" "map_of kTable (upper (cmd ! 0)) = Some h"
    by blast
  then show "keeps (execute cmd s)"
  proof cases
    case 5
    show ?thesis
      unfolding execute_handler [OF 5(1,2) refl 5(3)]
      by (rule safe_bind [OF kTable_safe [OF 5(3) wf]]) (auto simp: Let_def)
  qed (use wf in \<open>simp_all add: execute_def split: option.split\<close>)
qed

interpretation dispatcher: safe_service execute server_wf
  by unfold_locales (rule execute_safe)

section \<open>Handlers in terms of the view\<close>

lemma error_replies [simp]:
  "hd (wrong_arity n) = CHR ''-''" "hd wrongtype = CHR ''-''" "hd not_an_integer = CHR ''-''"
  "hd invalid_expire = CHR ''-''" "hd syntax_error = CHR ''-''" "hd misconf = CHR ''-''"
  by (simp_all add: wrong_arity_def wrongtype_def not_an_integer_def invalid_expire_def syntax_error_def
      misconf_def)

lemma log_records_error: "hd r = CHR ''-'' \<Longrightarrow> log_records name cmd r e = []"
  by (simp add: log_records_def)

text \<open>The number INCR leaves under a key, or the error it answers.\<close>

definition incr_result :: "(string \<rightharpoonup> entry) \<Rightarrow> string \<Rightarrow> int \<Rightarrow> string + int" where
  "incr_result m k delta =
     (case m k of
        Some (Lst _) \<Rightarrow> Inl wrongtype
      | Some (Str v) \<Rightarrow>
          (case parse_i64 v of
             None \<Rightarrow> Inl not_an_integer
           | Some cur \<Rightarrow> if in_i64 (cur + delta) then Inr (cur + delta) else Inl not_an_integer)
      | None \<Rightarrow> if in_i64 delta then Inr delta else Inl not_an_integer)"

lemma incr_by_eq:
  "incr_by k delta s =
     (let s1 = touch k s
      in case incr_result (map_of (db s1)) k delta of
           Inl err \<Rightarrow> Inr (err, s1)
         | Inr n \<Rightarrow> Inr (resp_integer n, s1\<lparr>db := db_set k (to_string n) (db s1)\<rparr>))"
  by (auto simp: incr_by_def incr_result_def Let_def db_type_def db_get_def split: option.split entry.split)

lemma incr_result_error: "incr_result m k delta = Inl err \<Longrightarrow> hd err = CHR ''-''"
  by (auto simp: incr_result_def split: option.splits entry.splits if_splits)

lemma list_at_view: "fst (view t) = fst (view s) \<Longrightarrow> list_at (db t) k = list_at (db s) k"
  by (simp add: list_at_def view_def)

lemma db_type_view: "fst (view t) = fst (view s) \<Longrightarrow> db_type (db t) k = db_type (db s) k"
  by (simp add: db_type_def view_def)

end
