(* ===== verification/Redo_Log.thy ===== *)
theory Redo_Log
  imports Command_Laws
begin

text \<open>
  The vocabulary of the redo log: what a step appends (\<open>appended\<close>), what it evicts (\<open>evicted\<close>), and
  what replaying records does to the view of a recovering server (\<open>replays\<close>), with one lemma per
  kind of record: SET, PEXPIREAT, DEL and PERSIST.
\<close>

section \<open>What is appended\<close>

definition grown :: "command list \<Rightarrow> wal \<Rightarrow> wal \<Rightarrow> bool" where
  "grown recs w w' \<longleftrightarrow>
     contents w' = contents w @ encode_all recs \<and> policy w' = policy w \<and> fd_open w' = fd_open w \<and>
     (policy w = kAlways \<longrightarrow> synced w = contents w \<longrightarrow> synced w' = contents w')"

lemma grown_refl: "grown [] w w"
  by (simp add: grown_def)

lemma grown_trans: "grown r1 w w1 \<Longrightarrow> grown r2 w1 w2 \<Longrightarrow> grown (r1 @ r2) w w2"
  by (simp add: grown_def)

text \<open>
  From \<open>s\<close> to \<open>s'\<close> the log, if one is attached, grew by exactly the records; under \<^verbatim>\<open>kAlways\<close> what was
  durable still covers the whole file. Nothing is claimed once persistence has failed.
\<close>

definition appended :: "server \<Rightarrow> command list \<Rightarrow> server \<Rightarrow> bool" where
  "appended s recs s' \<longleftrightarrow>
     (persistence_failed s \<longrightarrow> persistence_failed s') \<and>
     (case (wal s, wal s') of
        (None, None) \<Rightarrow> True
      | (Some w, Some w') \<Rightarrow> persistence_failed s' \<or> grown recs w w'
      | _ \<Rightarrow> False)"

lemma appended_same: "wal s' = wal s \<Longrightarrow> persistence_failed s' = persistence_failed s \<Longrightarrow> appended s [] s'"
  by (cases "wal s") (simp_all add: appended_def grown_refl)

lemma appended_refl: "appended s [] s"
  by (rule appended_same) simp_all

lemma appended_trans:
  assumes "appended s r1 s1" and "appended s1 r2 s2"
  shows "appended s (r1 @ r2) s2"
  using assms grown_trans unfolding appended_def
  by (cases "wal s"; cases "wal s1"; cases "wal s2"; simp; blast)

lemma appended_frame:
  "appended s r s1 \<Longrightarrow> wal s2 = wal s1 \<Longrightarrow> persistence_failed s2 = persistence_failed s1 \<Longrightarrow> appended s r s2"
  by (cases "wal s"; cases "wal s1"; simp add: appended_def)

lemma appended_put_record: "appended s [r] (put_record r s)"
proof (cases "wal s")
  case None
  then show ?thesis by (simp add: appended_def put_record_def)
next
  case (Some w)
  obtain st w' where "append r w = (st, w')" by fastforce
  with append_cases [OF this] Some show ?thesis
    by (auto simp: appended_def put_record_def report_persistence_failure_def grown_def)
qed

lemma appended_fold: "appended s rs (fold put_record rs s)"
proof (induction rs arbitrary: s)
  case (Cons r rs)
  from appended_trans [OF appended_put_record Cons.IH] show ?case by simp
qed (simp add: appended_refl)

section \<open>Evictions\<close>

definition del_recs :: "string list \<Rightarrow> command list" where
  "del_recs ks = map (\<lambda>k. [''DEL'', k]) ks"

text \<open>
  Between \<open>s\<close> and \<open>s'\<close> exactly the keys \<open>ks\<close> were evicted, each because a clock reading had reached
  its deadline, and each logged.
\<close>

definition evicted :: "server \<Rightarrow> string list \<Rightarrow> server \<Rightarrow> bool" where
  "evicted s ks s' \<longleftrightarrow>
     server_wf s' \<and> appended s (del_recs ks) s' \<and> view s' = vdel ks (view s) \<and>
     (\<forall>k \<in> set ks. \<exists>t i. snd (view s) k = Some t \<and> t \<le> clk s i) \<and>
     (\<exists>n. clk s' = (\<lambda>i. clk s (i + n)))"

lemma evicted_refl: "server_wf s \<Longrightarrow> evicted s [] s"
  by (auto simp: evicted_def del_recs_def appended_refl intro: exI [of _ 0])

lemma evicted_trans:
  assumes "evicted s ks s1" and "evicted s1 ls s2"
  shows "evicted s (ks @ ls) s2"
proof -
  obtain n where n: "clk s1 = (\<lambda>i. clk s (i + n))" using assms(1) unfolding evicted_def by blast
  obtain m where m: "clk s2 = (\<lambda>i. clk s1 (i + m))" using assms(2) unfolding evicted_def by blast
  have v: "view s1 = vdel ks (view s)" "view s2 = vdel ls (view s1)"
    using assms unfolding evicted_def by blast+
  have "appended s (del_recs (ks @ ls)) s2"
    using assms appended_trans [of s "del_recs ks" s1 "del_recs ls" s2]
    by (simp add: evicted_def del_recs_def)
  moreover have "clk s2 = (\<lambda>i. clk s (i + (m + n)))"
    by (simp add: n m add.assoc)
  moreover have "\<exists>t i. snd (view s) k = Some t \<and> t \<le> clk s i" if k: "k \<in> set (ks @ ls)" for k
  proof (cases "k \<in> set ks")
    case True
    then show ?thesis using assms(1) unfolding evicted_def by blast
  next
    case False
    then obtain t i where "snd (view s1) k = Some t" "t \<le> clk s1 i"
      using k assms(2) unfolding evicted_def by auto
    then show ?thesis
      unfolding v(1) n by (auto simp: vdel_def restrict_map_def split: if_splits)
  qed
  moreover have "server_wf s2" using assms(2) unfolding evicted_def by blast
  ultimately show ?thesis
    unfolding evicted_def using v by auto
qed

lemma evicted_tick:
  assumes "evicted s ks s'"
  shows "evicted s ks (s'\<lparr>clk := \<lambda>i. clk s' (Suc i)\<rparr>)"
proof -
  obtain n where "clk s' = (\<lambda>i. clk s (i + n))" using assms unfolding evicted_def by blast
  then have "(\<lambda>i. clk s' (Suc i)) = (\<lambda>i. clk s (i + Suc n))" by simp
  moreover have "appended s (del_recs ks) s'" using assms unfolding evicted_def by blast
  then have "appended s (del_recs ks) (s'\<lparr>clk := \<lambda>i. clk s' (Suc i)\<rparr>)"
    by (rule appended_frame) simp_all
  ultimately show ?thesis
    using assms unfolding evicted_def by (auto simp del: add_Suc_right)
qed

lemma evicted_check_key:
  assumes "server_wf s"
  shows "evicted s (if expired_key k s then [k] else []) (snd (check_key k s))"
proof (cases "expired_key k s")
  case True
  have "appended s [[''DEL'', k]] (evict_hook k s)"
    using appended_trans [OF appended_same appended_put_record, of "s\<lparr>db := snd (db_del k (db s))\<rparr>" s]
    by (simp add: evict_hook_def)
  then have "appended s [[''DEL'', k]] (snd (check_key k s))"
    by (rule appended_frame) (simp_all add: check_key_cases True)
  moreover have "\<exists>t i. snd (view s) k = Some t \<and> t \<le> clk s i"
    using True by (auto simp: expired_key_def view_def split: option.splits)
  moreover have "clk (snd (check_key k s)) = (\<lambda>i. clk s (i + 1))"
    by (simp add: check_key_cases True)
  ultimately show ?thesis
    using True check_key_wf [OF assms, of k] unfolding evicted_def
    by (auto simp: del_recs_def simp del: One_nat_def)
next
  case False
  with assms evicted_tick [OF evicted_refl [OF assms]] evicted_refl [OF assms] show ?thesis
    by (simp add: check_key_cases)
qed

lemma evicted_touch: "server_wf s \<Longrightarrow> \<exists>ks. set ks \<subseteq> {k} \<and> evicted s ks (touch k s)"
  using evicted_check_key [of s k] unfolding touch_def
  by (cases "expired_key k s") (auto intro: exI [of _ "[]"] exI [of _ "[k]"])

section \<open>Replaying records\<close>

text \<open>
  The callback recovery hands to \<^verbatim>\<open>Wal::replay\<close>: execute the record, drop the reply. A fault ends
  the recovery.
\<close>

definition recover_cmd :: "command \<Rightarrow> server result \<Rightarrow> server result" where
  "recover_cmd cmd r = bind_res r (\<lambda>t. bind_res (execute cmd t) (\<lambda>(reply, t'). Inr t'))"

text \<open>
  A recovering server before time \<open>T\<close>: well formed, no log attached, every clock reading before \<open>T\<close>
  and every deadline at \<open>T\<close> or later.
\<close>

definition ready :: "int \<Rightarrow> server \<Rightarrow> bool" where
  "ready T t \<longleftrightarrow> server_wf t \<and> wal t = None \<and> \<not> persistence_failed t \<and> (\<forall>i. clk t i < T) \<and>
     (\<forall>k d. snd (view t) k = Some d \<longrightarrow> T \<le> d)"

definition replays :: "int \<Rightarrow> command list \<Rightarrow> view \<Rightarrow> view \<Rightarrow> bool" where
  "replays T recs v v' \<longleftrightarrow>
     (\<forall>t. ready T t \<and> view t = v \<longrightarrow>
        (\<exists>t'. fold recover_cmd recs (Inr t) = Inr t' \<and> ready T t' \<and> view t' = v'))"

lemma replays_Nil: "replays T [] v v"
  by (simp add: replays_def)

lemma replays_append: "replays T r1 v v1 \<Longrightarrow> replays T r2 v1 v2 \<Longrightarrow> replays T (r1 @ r2) v v2"
  by (fastforce simp: replays_def)

lemma ready_update:
  assumes "ready T t" and "server_wf t'" and "wal t' = wal t" and "persistence_failed t' = persistence_failed t"
    and "clk t' = (\<lambda>i. clk t (i + n))" and "\<And>k d. snd (view t') k = Some d \<Longrightarrow> T \<le> d"
  shows "ready T t'"
  using assms by (simp add: ready_def)

lemma ready_touch:
  assumes "ready T t"
  shows "ready T (touch k t)" and "view (touch k t) = view t"
    and "touch k t = t \<or> touch k t = t\<lparr>clk := \<lambda>i. clk t (Suc i)\<rparr>"
proof -
  have "\<not> expired_key k t"
  proof (cases "expiry_at (ttl t) k")
    case (Some d)
    then have "T \<le> d" "clk t 0 < T"
      using assms by (simp_all add: ready_def view_def)
    with Some show ?thesis by (simp add: expired_key_def)
  qed (simp add: expired_key_def)
  then show touch: "touch k t = t \<or> touch k t = t\<lparr>clk := \<lambda>i. clk t (Suc i)\<rparr>"
    by (simp add: touch_def check_key_cases)
  show "view (touch k t) = view t" using touch by (elim disjE) simp_all
  show "ready T (touch k t)" using touch
  proof
    assume "touch k t = t\<lparr>clk := \<lambda>i. clk t (Suc i)\<rparr>"
    with assms show ?thesis by (simp add: ready_def)
  qed (use assms in simp)
qed

lemma ready_tick: "ready T t \<Longrightarrow> ready T (t\<lparr>clk := \<lambda>i. clk t (Suc i)\<rparr>)"
  by (simp add: ready_def)

text \<open>One record: the handler's answer is all there is, since no log is attached.\<close>

lemma recover_cmd_handler:
  assumes "ready T t" and "cmd \<noteq> []" and "map_of kTable (upper (cmd ! 0)) = Some h"
    and "h cmd t = Inr (r, t1)" and "ready T t1"
  shows "recover_cmd cmd (Inr t) = Inr t1"
  using assms execute_handler [of t cmd, OF _ assms(2) refl assms(3)]
  by (simp add: recover_cmd_def ready_def Let_def)

lemma replays_single:
  assumes "cmd \<noteq> []" and "map_of kTable (upper (cmd ! 0)) = Some h"
    and "\<And>t. ready T t \<Longrightarrow> view t = v \<Longrightarrow> \<exists>r t1. h cmd t = Inr (r, t1) \<and> ready T t1 \<and> view t1 = v'"
  shows "replays T [cmd] v v'"
  unfolding replays_def using recover_cmd_handler [OF _ assms(1,2)] assms(3) by fastforce

lemma upper_names:
  "upper ''SET'' = ''SET''" "upper ''DEL'' = ''DEL''" "upper ''PEXPIREAT'' = ''PEXPIREAT''"
  "upper ''PERSIST'' = ''PERSIST''"
  by code_simp+

lemma replays_SET: "replays T [[''SET'', k, x]] (m, d) (m(k \<mapsto> Str x), d(k := None))"
proof (rule replays_single [where h = cmd_set])
  fix t
  assume t: "ready T t" "view t = (m, d)"
  define t1 where "t1 = touch k t"
  define t2 where "t2 = t1\<lparr>db := db_set k x (db t1)\<rparr>"
  define t3 where "t3 = t2\<lparr>ttl := persist k (ttl t2)\<rparr>"
  have t1: "ready T t1" "view t1 = (m, d)"
    using ready_touch [OF t(1)] t(2) by (simp_all add: t1_def)
  then have "server_wf t1" by (simp add: ready_def)
  from server_wf_set [OF this, of k x] have t2: "server_wf t2" "view t2 = (m(k \<mapsto> Str x), d)"
    by (simp_all add: t2_def t1)
  from server_wf_persist [OF this(1), of k] have t3: "server_wf t3" "view t3 = (m(k \<mapsto> Str x), d(k := None))"
    by (simp_all add: t3_def t2)
  have "ready T t3"
    by (rule ready_update [OF t1(1) t3(1), of 0])
      (use t1 t3(2) in \<open>auto simp: t3_def t2_def ready_def split: if_splits\<close>)
  moreover have "cmd_set [''SET'', k, x] t = Inr (resp_simple ''OK'', t3)"
    by (simp add: cmd_set_def Let_def t1_def t2_def t3_def)
  ultimately show "\<exists>r t'. cmd_set [''SET'', k, x] t = Inr (r, t') \<and> ready T t' \<and>
      view t' = (m(k \<mapsto> Str x), d(k := None))"
    using t3(2) by blast
qed (simp_all add: upper_names kTable_def)

lemma ready_wf: "ready T t \<Longrightarrow> server_wf t"
  by (simp add: ready_def)

lemma ready_deadline: "ready T t \<Longrightarrow> view t = (m, d) \<Longrightarrow> d k = Some x \<Longrightarrow> T \<le> x"
  by (simp add: ready_def)

lemma ready_absent: "ready T t \<Longrightarrow> view t = (m, d) \<Longrightarrow> m k = None \<Longrightarrow> d k = None"
  by (auto simp: ready_def server_wf_def view_def)

lemma ready_delete_now:
  assumes "ready T t"
  shows "ready T (delete_now k t)"
proof (rule ready_update [OF assms server_wf_delete_now(1) [OF ready_wf [OF assms]], where n = 0])
  show "T \<le> x" if "snd (view (delete_now k t)) k' = Some x" for k' x
    using assms that server_wf_delete_now(2) [OF ready_wf [OF assms], of k]
    by (auto simp: ready_def vdel_def split: if_splits)
qed (simp_all add: delete_now_def)

lemma ready_del_loop:
  "ready T t \<Longrightarrow> ready T (snd (del_loop keys n t)) \<and> view (snd (del_loop keys n t)) = vdel keys (view t)"
proof (induction keys arbitrary: n t)
  case (Cons k keys)
  let ?t1 = "touch k t"
  have t1: "ready T ?t1" "view ?t1 = view t"
    using ready_touch [OF Cons.prems] by simp_all
  show ?case
  proof (cases "map_of (db ?t1) k")
    case None
    then have "expiry_at (ttl ?t1) k = None"
      using t1(1) by (simp add: ready_def server_wfD)
    with None t1 have "vdel [k] (view t) = view t"
      unfolding t1(2) [symmetric] by (auto simp: vdel_def view_def fun_eq_iff)
    with Cons.IH [OF t1(1)] None t1(2) show ?thesis
      by (simp add: del_loop_Cons del: del_loop.simps) (metis append_Cons append_Nil vdel_vdel)
  next
    case (Some e)
    with Cons.IH [OF ready_delete_now [OF t1(1), of k]] server_wf_delete_now(2) [OF ready_wf [OF t1(1)], of k] t1(2)
    show ?thesis
      by (simp add: del_loop_Cons del: del_loop.simps)
  qed
qed simp

lemma replays_DEL:
  assumes "cmd \<noteq> []" and "upper (cmd ! 0) = ''DEL''" and "2 \<le> length cmd"
  shows "replays T [cmd] v (vdel (drop 1 cmd) v)"
proof (rule replays_single [where h = cmd_del])
  fix t
  assume "ready T t" "view t = v"
  with ready_del_loop [of T t "drop 1 cmd" 0] assms(3)
  show "\<exists>r t1. cmd_del cmd t = Inr (r, t1) \<and> ready T t1 \<and> view t1 = vdel (drop 1 cmd) v"
    by (simp add: cmd_del_def split_beta)
qed (use assms in \<open>simp_all add: kTable_def\<close>)

lemma replays_del_recs: "replays T (del_recs ks) v (vdel ks v)"
proof (induction ks arbitrary: v)
  case (Cons k ks)
  have "replays T [[''DEL'', k]] v (vdel [k] v)"
    using replays_DEL [of "[''DEL'', k]" T v] by (simp add: upper_names)
  from replays_append [OF this Cons.IH] show ?case
    by (simp add: del_recs_def)
qed (simp add: del_recs_def replays_Nil)

lemma ready_set_expiry:
  assumes "ready T t" and "map_of (db t) k \<noteq> None" and "T \<le> a"
  shows "ready T (t\<lparr>ttl := set_expiry k a (ttl t)\<rparr>)"
proof (rule ready_update [OF assms(1) server_wf_set_expiry(1) [OF ready_wf [OF assms(1)] assms(2)], where n = 0])
  show "T \<le> x" if "snd (view (t\<lparr>ttl := set_expiry k a (ttl t)\<rparr>)) k' = Some x" for k' x
    using assms(1,3) that server_wf_set_expiry(2) [OF ready_wf [OF assms(1)] assms(2), of a]
    by (auto simp: ready_def split: if_splits)
qed simp_all

lemma replays_PEXPIREAT:
  assumes "m k \<noteq> None" and "T \<le> a" and "in_i64 a"
  shows "replays T [[''PEXPIREAT'', k, to_string a]] (m, d) (m, d(k \<mapsto> a))"
proof (rule replays_single [where h = cmd_pexpireat])
  fix t
  assume t: "ready T t" "view t = (m, d)"
  define t1 where "t1 = touch k t"
  define t2 where "t2 = t1\<lparr>clk := \<lambda>i. clk t1 (Suc i)\<rparr>"
  have t1: "ready T t1" "view t1 = (m, d)"
    using ready_touch [OF t(1)] t(2) by (simp_all add: t1_def)
  then have t2: "ready T t2" "view t2 = (m, d)" "map_of (db t2) k \<noteq> None"
    using assms(1) by (auto simp: t2_def ready_tick view_def)
  have "\<not> a \<le> clk t1 0"
    using t1(1) assms(2) by (auto simp: ready_def not_le dest: spec [of _ 0])
  then have "cmd_pexpireat [''PEXPIREAT'', k, to_string a] t =
      Inr (resp_integer 1, t2\<lparr>ttl := set_expiry k a (ttl t2)\<rparr>)"
    using t2(3) assms(3) by (simp add: cmd_pexpireat_def parse_i64_to_string Let_def now_ms_eq db_exists_def
        t1_def t2_def)
  moreover have "view (t2\<lparr>ttl := set_expiry k a (ttl t2)\<rparr>) = (m, d(k \<mapsto> a))"
    using server_wf_set_expiry(2) [OF ready_wf [OF t2(1)] t2(3)] t2(2) by simp
  ultimately show "\<exists>r t'. cmd_pexpireat [''PEXPIREAT'', k, to_string a] t = Inr (r, t') \<and> ready T t' \<and>
      view t' = (m, d(k \<mapsto> a))"
    using ready_set_expiry [OF t2(1,3) assms(2)] by blast
qed (simp_all add: upper_names kTable_def)

lemma replays_PERSIST: "replays T [[''PERSIST'', k]] (m, d) (m, d(k := None))"
proof (rule replays_single [where h = cmd_persist])
  fix t
  assume t: "ready T t" "view t = (m, d)"
  define t1 where "t1 = touch k t"
  have t1: "ready T t1" "view t1 = (m, d)"
    using ready_touch [OF t(1)] t(2) by (simp_all add: t1_def)
  define t2 where "t2 = t1\<lparr>ttl := persist k (ttl t1)\<rparr>"
  have t2: "server_wf t2" "view t2 = (m, d(k := None))"
    using server_wf_persist [OF ready_wf [OF t1(1)], of k] t1(2) by (simp_all add: t2_def)
  have "ready T t2"
    by (rule ready_update [OF t1(1) t2(1), of 0])
      (use t1 t2(2) in \<open>auto simp: t2_def ready_def split: if_splits\<close>)
  show "\<exists>r t'. cmd_persist [''PERSIST'', k] t = Inr (r, t') \<and> ready T t' \<and> view t' = (m, d(k := None))"
  proof (cases "m k = None \<or> d k = None")
    case True
    then have "d(k := None) = d" using ready_absent [OF t1] by auto
    moreover have "\<exists>r. cmd_persist [''PERSIST'', k] t = Inr (r, t1)"
      using True t1(2) by (auto simp: cmd_persist_def Let_def t1_def [symmetric] db_exists_def view_def)
    ultimately show ?thesis using t1 by auto
  next
    case False
    then have "cmd_persist [''PERSIST'', k] t = Inr (resp_integer 1, t2)"
      using t1(2) by (auto simp: cmd_persist_def Let_def t1_def [symmetric] t2_def db_exists_def view_def)
    with t2 \<open>ready T t2\<close> show ?thesis by blast
  qed
qed (simp_all add: upper_names kTable_def)

end
