(* ===== verification/Recovery.thy ===== *)
theory Recovery
  imports Redo_Log
begin

text \<open>
  The log as a redo log. Every command, run against an attached log that does not fail, appends
  records whose replay on a server with the same view (and no log, as at boot) reaches the same
  view, provided that the recovery clock has not yet reached a deadline. Evictions are logged as
  explicit DEL records, relative deadlines as absolute ones, everything else verbatim.
\<close>

section \<open>Every handler can be redone from the log\<close>

text \<open>The deadline a record arms, and logs that arm none before a time.\<close>

definition record_deadline :: "command \<Rightarrow> int option" where
  "record_deadline r = (if length r = 3 \<and> r ! 0 = ''PEXPIREAT'' then parse_i64 (r ! 2) else None)"

definition deadlines_from :: "int \<Rightarrow> command list \<Rightarrow> bool" where
  "deadlines_from T recs \<longleftrightarrow>
     list_all (\<lambda>r. case record_deadline r of None \<Rightarrow> True | Some a \<Rightarrow> T \<le> a) recs"

lemma deadlines_from_append [simp]:
  "deadlines_from T (r1 @ r2) \<longleftrightarrow> deadlines_from T r1 \<and> deadlines_from T r2"
  by (simp add: deadlines_from_def)

lemma deadlines_from_PEXPIREAT:
  "in_i64 a \<Longrightarrow> deadlines_from T ([''PEXPIREAT'', k, to_string a] # rs) \<Longrightarrow> T \<le> a"
  by (simp add: deadlines_from_def record_deadline_def parse_i64_to_string)

text \<open>
  The step from \<open>s\<close> to \<open>s1\<close> with reply \<open>r\<close>: it logged its evictions, and replaying those and the records
  the reply owes leads from the view of \<open>s\<close> to the view of \<open>s1\<close>.
\<close>

definition redo :: "string \<Rightarrow> command \<Rightarrow> server \<Rightarrow> string \<Rightarrow> server \<Rightarrow> bool" where
  "redo name cmd s r s1 \<longleftrightarrow>
     (\<exists>ks. appended s (del_recs ks) s1 \<and>
        (\<forall>T. deadlines_from T (log_records name cmd r (ttl s1)) \<longrightarrow>
           replays T (log_records name cmd r (ttl s1)) (vdel ks (view s)) (view s1)))"

lemma redo_evicted:
  assumes "evicted s ks mid" and "wal s1 = wal mid" and "persistence_failed s1 = persistence_failed mid"
    and "\<And>T. deadlines_from T (log_records name cmd r (ttl s1)) \<Longrightarrow>
           replays T (log_records name cmd r (ttl s1)) (view mid) (view s1)"
  shows "redo name cmd s r s1"
proof -
  have "appended s (del_recs ks) s1"
    using assms(1-3) by (intro appended_frame [of s _ mid s1]) (simp_all add: evicted_def)
  with assms(1,4) show ?thesis
    unfolding redo_def evicted_def by metis
qed

lemma redo_nothing: "evicted s ks s1 \<Longrightarrow> log_records name cmd r (ttl s1) = [] \<Longrightarrow> redo name cmd s r s1"
  by (rule redo_evicted) (simp_all, rule replays_Nil)

lemma redo_error: "evicted s ks s1 \<Longrightarrow> hd r = CHR ''-'' \<Longrightarrow> redo name cmd s r s1"
  by (rule redo_nothing) (simp_all add: log_records_error)

text \<open>A touched state in place of the evictions behind it.\<close>

lemma redo_touch:
  assumes "server_wf s" and "wal s1 = wal (touch k s)" and "persistence_failed s1 = persistence_failed (touch k s)"
    and "\<And>T. deadlines_from T (log_records name cmd r (ttl s1)) \<Longrightarrow>
           replays T (log_records name cmd r (ttl s1)) (view (touch k s)) (view s1)"
  shows "redo name cmd s r s1"
  using evicted_touch [OF assms(1), of k] redo_evicted [OF _ assms(2-4)] by blast

lemma redo_touch_recs:
  assumes "server_wf s" and "mid = touch k s" and "log_records name cmd r (ttl s1) = recs" and "view s1 = v"
    and "wal s1 = wal mid \<and> persistence_failed s1 = persistence_failed mid"
    and "\<And>T. deadlines_from T recs \<Longrightarrow> replays T recs (view mid) v"
  shows "redo name cmd s r s1"
  using assms(5,6) unfolding assms(2) assms(3,4) [symmetric] by (intro redo_touch [OF assms(1)]) simp_all

lemma redo_touch_nothing:
  "server_wf s \<Longrightarrow> s1 = touch k s \<Longrightarrow> log_records name cmd r (ttl s1) = [] \<Longrightarrow> redo name cmd s r s1"
  using evicted_touch redo_nothing by blast

lemma redo_touch_error:
  "server_wf s \<Longrightarrow> s1 = touch k s \<Longrightarrow> hd r = CHR ''-'' \<Longrightarrow> redo name cmd s r s1"
  by (rule redo_touch_nothing) (simp_all add: log_records_error)

lemma redo_same: "server_wf s \<Longrightarrow> s1 = s \<Longrightarrow> log_records name cmd r (ttl s1) = [] \<Longrightarrow> redo name cmd s r s1"
  using evicted_refl redo_nothing by blast

lemma log_records_int:
  "name \<in> {''INCR'', ''DECR'', ''INCRBY'', ''LPUSH'', ''RPUSH''} \<Longrightarrow> log_records name cmd (resp_integer n) e = [cmd]"
  by (elim insertE emptyE; simp add: log_records_def)

lemma log_records_pop:
  "name \<in> {''LPOP'', ''RPOP''} \<Longrightarrow> log_records name cmd (resp_bulk v) e = [cmd]"
  "name \<in> {''LPOP'', ''RPOP''} \<Longrightarrow> log_records name cmd resp_null_bulk e = []"
  by (elim insertE emptyE; simp add: log_records_def)+

lemma redo_incr_by:
  assumes wf: "server_wf s" and run: "incr_by k delta s = Inr (r, s1)"
    and name: "name \<in> {''INCR'', ''DECR'', ''INCRBY''}"
    and h: "cmd \<noteq> []" "map_of kTable (upper (cmd ! 0)) = Some h"
      "\<And>t. h cmd t = incr_by k delta t"
  shows "redo name cmd s r s1"
proof (cases "incr_result (map_of (db (touch k s))) k delta")
  case (Inl err)
  with run have "s1 = touch k s" "hd r = CHR ''-''"
    by (auto simp: incr_by_eq Let_def dest: incr_result_error)
  with wf show ?thesis by (auto intro: redo_touch_nothing log_records_error)
next
  case (Inr n)
  let ?mid = "touch k s"
  have s1: "s1 = ?mid\<lparr>db := db_set k (to_string n) (db ?mid)\<rparr>" and r: "r = resp_integer n"
    using run Inr by (simp_all add: incr_by_eq Let_def)
  have recs: "log_records name cmd r e = [cmd]" for e
    using name unfolding r by (intro log_records_int) blast
  show ?thesis
  proof (rule redo_touch [OF wf, of _ k])
    fix T
    have "replays T [cmd] (view ?mid) (view s1)"
    proof (rule replays_single [OF h(1,2)])
      fix t
      assume t: "ready T t" "view t = view ?mid"
      define t1 where "t1 = touch k t"
      define t2 where "t2 = t1\<lparr>db := db_set k (to_string n) (db t1)\<rparr>"
      have t1: "ready T t1" "view t1 = view ?mid"
        using ready_touch [OF t(1)] t(2) by (simp_all add: t1_def)
      then have "map_of (db t1) = map_of (db ?mid)" by (simp add: view_def)
      with Inr have "h cmd t = Inr (resp_integer n, t2)"
        by (simp add: h(3) incr_by_eq Let_def t1_def [symmetric] t2_def)
      moreover have t2: "server_wf t2" "view t2 = view s1"
        using server_wf_set [OF ready_wf [OF t1(1)]] server_wf_set [OF touch_wf [OF wf]] t1(2)
        by (simp_all add: t2_def s1)
      moreover have "ready T t2"
        by (rule ready_update [OF t1(1) t2(1), of 0])
          (use t1(1) server_wf_set(2) [OF ready_wf [OF t1(1)]] in \<open>auto simp: t2_def ready_def\<close>)
      ultimately show "\<exists>r t1. h cmd t = Inr (r, t1) \<and> ready T t1 \<and> view t1 = view s1" by blast
    qed
    then show "replays T (log_records name cmd r (ttl s1)) (view ?mid) (view s1)" by (simp add: recs)
  qed (simp_all add: s1)
qed

lemma redo_incr:
  assumes "server_wf s" and "cmd \<noteq> []"
  shows "upper (cmd ! 0) = ''INCR'' \<Longrightarrow> cmd_incr cmd s = Inr (r, s1) \<Longrightarrow> redo ''INCR'' cmd s r s1"
    and "upper (cmd ! 0) = ''DECR'' \<Longrightarrow> cmd_decr cmd s = Inr (r, s1) \<Longrightarrow> redo ''DECR'' cmd s r s1"
    and "upper (cmd ! 0) = ''INCRBY'' \<Longrightarrow> cmd_incrby cmd s = Inr (r, s1) \<Longrightarrow> redo ''INCRBY'' cmd s r s1"
proof -
  show "redo ''INCR'' cmd s r s1" if "upper (cmd ! 0) = ''INCR''" "cmd_incr cmd s = Inr (r, s1)"
    using that assms redo_incr_by [OF assms(1), of "cmd ! 1" 1 r s1 "''INCR''" cmd cmd_incr]
    by (auto simp: cmd_incr_def kTable_def log_records_error split: if_splits intro: redo_same)
  show "redo ''DECR'' cmd s r s1" if "upper (cmd ! 0) = ''DECR''" "cmd_decr cmd s = Inr (r, s1)"
    using that assms redo_incr_by [OF assms(1), of "cmd ! 1" "-1" r s1 "''DECR''" cmd cmd_decr]
    by (auto simp: cmd_decr_def kTable_def log_records_error split: if_splits intro: redo_same)
  show "redo ''INCRBY'' cmd s r s1" if "upper (cmd ! 0) = ''INCRBY''" "cmd_incrby cmd s = Inr (r, s1)"
    using that assms redo_incr_by [OF assms(1), of "cmd ! 1" _ r s1 "''INCRBY''" cmd cmd_incrby]
    by (auto simp: cmd_incrby_def kTable_def log_records_error split: if_splits option.splits intro: redo_same)
qed

lemma ready_view:
  assumes "ready T t" and "server_wf t'" and "wal t' = wal t" and "persistence_failed t' = persistence_failed t"
    and "clk t' = clk t" and "snd (view t') = snd (view t)"
  shows "ready T t'"
  by (rule ready_update [OF assms(1-4), of 0]) (use assms in \<open>auto simp: ready_def\<close>)

lemma redo_push:
  assumes wf: "server_wf s" and run: "push_generic lname cmd left s = Inr (r, s1)"
    and name: "name \<in> {''LPUSH'', ''RPUSH''}"
    and h: "cmd \<noteq> []" "map_of kTable (upper (cmd ! 0)) = Some h"
      "\<And>t. h cmd t = push_generic lname cmd left t"
  shows "redo name cmd s r s1"
proof (cases "length cmd < 3")
  case True
  with wf run show ?thesis
    by (auto simp: push_generic_def log_records_error intro: redo_same)
next
  case False
  define k where "k = cmd ! 1"
  define mid where "mid = touch k s"
  define l where "l = list_at (db mid) k"
  have len: "3 \<le> length cmd" using False by simp
  obtain db' where p: "push_generic lname cmd left s =
      (if db_type (db mid) k = kString then Inr (wrongtype, mid)
       else Inr (resp_integer (int (length (drop 2 cmd) + length l)), mid\<lparr>db := db'\<rparr>))"
    "db_type (db mid) k \<noteq> kString \<longrightarrow> server_wf (mid\<lparr>db := db'\<rparr>) \<and> view (mid\<lparr>db := db'\<rparr>) =
       ((fst (view mid))(k \<mapsto> Lst (pushed left (drop 2 cmd) l)), snd (view mid))"
    by (rule exE [OF push_generic_ok [OF wf len k_def mid_def, of lname left, folded l_def]])
      (elim conjE, rule that)
  show ?thesis
  proof (cases "db_type (db mid) k = kString")
    case True
    from run [unfolded p(1) if_P [OF True]] have "s1 = touch k s" "hd r = CHR ''-''"
      by (auto simp: mid_def)
    then show ?thesis by (rule redo_touch_error [OF wf])
  next
    case ty: False
    have s1: "s1 = mid\<lparr>db := db'\<rparr>" and r: "\<exists>n. r = resp_integer n"
      using run [unfolded p(1) if_not_P [OF ty]] by blast+
    note v1 = conjunct2 [OF mp [OF p(2) ty]]
    have recs: "log_records name cmd r e = [cmd]" for e
      using name r log_records_int [of name cmd _ e] by blast
    show ?thesis
    proof (rule redo_touch [OF wf, of _ k])
      fix T
      have "replays T [cmd] (view mid) (view s1)"
      proof (rule replays_single [OF h(1,2)])
        fix t
        assume t: "ready T t" "view t = view mid"
        define t1 where "t1 = touch k t"
        have t1: "ready T t1" "view t1 = view mid"
          using ready_touch [OF t(1)] t(2) by (simp_all add: t1_def)
        have ty1: "db_type (db t1) k \<noteq> kString" and l1: "list_at (db t1) k = l"
          using ty db_type_view [of t1 mid] list_at_view [of t1 mid] t1(2) by (simp_all add: l_def del: db_type_simps)
        obtain db1 where q0: "push_generic lname cmd left t =
            Inr (resp_integer (int (length (drop 2 cmd) + length l)), t1\<lparr>db := db1\<rparr>) \<and>
          (db_type (db t1) k \<noteq> kString \<longrightarrow> server_wf (t1\<lparr>db := db1\<rparr>) \<and>
           view (t1\<lparr>db := db1\<rparr>) = ((fst (view t1))(k \<mapsto> Lst (pushed left (drop 2 cmd) l)), snd (view t1)))"
          by (rule exE [OF push_generic_ok [OF ready_wf [OF t(1)] len k_def t1_def, of lname left,
                  unfolded l1 if_not_P [OF ty1]]])
        note q = conjunct1 [OF q0] conjunct1 [OF mp [OF conjunct2 [OF q0] ty1]] conjunct2 [OF mp [OF conjunct2 [OF q0] ty1]]
        have "ready T (t1\<lparr>db := db1\<rparr>)"
          by (rule ready_view [OF t1(1) q(2)]) (simp_all add: q(3))
        moreover have "view (t1\<lparr>db := db1\<rparr>) = view s1"
          unfolding q(3) s1 v1 t1(2) ..
        ultimately show "\<exists>r t1. h cmd t = Inr (r, t1) \<and> ready T t1 \<and> view t1 = view s1"
          unfolding h(3) q(1) by blast
      qed
      then show "replays T (log_records name cmd r (ttl s1)) (view (touch k s)) (view s1)"
        by (simp add: recs mid_def)
    qed (simp_all add: s1 mid_def)
  qed
qed

lemma ready_keep_list:
  assumes "ready T t"
  shows "ready T (keep_list k l t)"
proof (cases "l = []")
  case True
  with ready_delete_now [OF assms] show ?thesis by (simp add: keep_list_def)
next
  case False
  show ?thesis
    by (rule ready_view [OF assms keep_list_wf(1) [OF ready_wf [OF assms]]])
      (use False keep_list_wf(2) [OF ready_wf [OF assms], of k l] in \<open>simp_all add: keep_list_def\<close>)
qed

lemma redo_pop:
  assumes wf: "server_wf s" and run: "pop_generic lname cmd left s = Inr (r, s1)"
    and name: "name \<in> {''LPOP'', ''RPOP''}"
    and h: "cmd \<noteq> []" "map_of kTable (upper (cmd ! 0)) = Some h"
      "\<And>t. h cmd t = pop_generic lname cmd left t"
  shows "redo name cmd s r s1"
proof (cases "length cmd = 2")
  case False
  with wf run show ?thesis
    by (auto simp: pop_generic_def log_records_error intro: redo_same)
next
  case len: True
  define k where "k = cmd ! 1"
  define mid where "mid = touch k s"
  define l where "l = list_at (db mid) k"
  note p = pop_generic_ok [OF wf len k_def mid_def l_def, of lname left]
  consider "db_type (db mid) k = kString" | "db_type (db mid) k \<noteq> kString" "l = []"
    | "db_type (db mid) k \<noteq> kString" "l \<noteq> []"
    by blast
  then show ?thesis
  proof cases
    case 1
    with run p have "s1 = touch k s" "r = wrongtype" by (simp_all add: mid_def)
    with redo_touch_error [OF wf, of s1 k wrongtype] show ?thesis by simp
  next
    case 2
    with run p have "s1 = touch k s" "r = resp_null_bulk" by (simp_all add: mid_def)
    then show ?thesis
      using redo_touch_nothing [OF wf, of s1 k name cmd resp_null_bulk] log_records_pop(2) [OF name] by simp
  next
    case 3
    with run p have s1: "s1 = keep_list k (popped left l) mid" and r: "r = resp_bulk (popped_elem left l)"
      by auto
    have recs: "log_records name cmd r e = [cmd]" for e
      using log_records_pop(1) [OF name] by (simp add: r)
    have "replays T [cmd] (view mid) (view s1)" for T
    proof (rule replays_single [OF h(1,2)])
      fix t
      assume t: "ready T t" "view t = view mid"
      define t1 where "t1 = touch k t"
      have t1: "ready T t1" "view t1 = view mid"
        using ready_touch [OF t(1)] t(2) by (simp_all add: t1_def)
      have ty1: "db_type (db t1) k \<noteq> kString" and l1: "list_at (db t1) k = l"
        using 3 db_type_view [of t1 mid] list_at_view [of t1 mid] t1(2) by (simp_all add: l_def del: db_type_simps)
      have "h cmd t = Inr (resp_bulk (popped_elem left l), keep_list k (popped left l) t1)"
        using pop_generic_ok [OF ready_wf [OF t(1)] len k_def t1_def l1 [symmetric], of lname left] ty1 3(2)
        by (simp add: h(3) del: db_type_simps)
      moreover have "view (keep_list k (popped left l) t1) = view s1"
        using keep_list_wf(2) [OF ready_wf [OF t1(1)]] keep_list_wf(2) [OF touch_wf [OF wf, of k]] t1(2)
        by (simp add: s1 mid_def)
      ultimately show "\<exists>r t1. h cmd t = Inr (r, t1) \<and> ready T t1 \<and> view t1 = view s1"
        using ready_keep_list [OF t1(1)] by blast
    qed
    with wf show ?thesis
      by (intro redo_touch [OF wf, of _ k]) (simp_all add: recs mid_def s1 keep_list_def delete_now_def)
  qed
qed

lemma redo_lists:
  assumes "server_wf s" and "cmd \<noteq> []"
  shows "upper (cmd ! 0) = ''LPUSH'' \<Longrightarrow> cmd_lpush cmd s = Inr (r, s1) \<Longrightarrow> redo ''LPUSH'' cmd s r s1"
    and "upper (cmd ! 0) = ''RPUSH'' \<Longrightarrow> cmd_rpush cmd s = Inr (r, s1) \<Longrightarrow> redo ''RPUSH'' cmd s r s1"
    and "upper (cmd ! 0) = ''LPOP'' \<Longrightarrow> cmd_lpop cmd s = Inr (r, s1) \<Longrightarrow> redo ''LPOP'' cmd s r s1"
    and "upper (cmd ! 0) = ''RPOP'' \<Longrightarrow> cmd_rpop cmd s = Inr (r, s1) \<Longrightarrow> redo ''RPOP'' cmd s r s1"
  using assms
  by (auto simp: kTable_def cmd_lpush_def cmd_rpush_def cmd_lpop_def cmd_rpop_def
      intro: redo_push [of s "''lpush''" cmd True r s1 "''LPUSH''" cmd_lpush]
        redo_push [of s "''rpush''" cmd False r s1 "''RPUSH''" cmd_rpush]
        redo_pop [of s "''lpop''" cmd True r s1 "''LPOP''" cmd_lpop]
        redo_pop [of s "''rpop''" cmd False r s1 "''RPOP''" cmd_rpop])

lemma redo_flushall:
  assumes wf: "server_wf s" and "cmd \<noteq> []" and "upper (cmd ! 0) = ''FLUSHALL''"
    and run: "cmd_flushall cmd s = Inr (r, s1)"
  shows "redo ''FLUSHALL'' cmd s r s1"
proof (cases "length cmd = 1")
  case False
  with wf run show ?thesis by (auto simp: cmd_flushall_def log_records_error intro: redo_same)
next
  case True
  let ?flush = "\<lambda>t. t\<lparr>ttl := fold persist (keys_matching_glob (db t) ''*'') (ttl t), db := db_clear (db t)\<rparr>"
  have all: "cmd_flushall cmd t = Inr (resp_simple ''OK'', ?flush t)" for t
    using True by (simp add: cmd_flushall_def Let_def)
  have s1: "s1 = ?flush s" and r: "r = resp_simple ''OK''" using run all by auto
  have "replays T [cmd] (view s) (view s1)" for T
  proof (rule replays_single [where h = cmd_flushall])
    fix t
    assume t: "ready T t"
    have "ready T (?flush t)"
      by (rule ready_update [OF t flushall_wf(1) [OF ready_wf [OF t]], where n = 0])
        (use flushall_wf(2) [OF ready_wf [OF t]] in simp_all)
    with all flushall_wf(2) [OF ready_wf [OF t]] flushall_wf(2) [OF wf] s1
    show "\<exists>r t1. cmd_flushall cmd t = Inr (r, t1) \<and> ready T t1 \<and> view t1 = view s1" by auto
  qed (use assms in \<open>simp_all add: kTable_def\<close>)
  then show ?thesis
    by (intro redo_evicted [OF evicted_refl [OF wf]]) (simp_all add: s1 r log_records_def)
qed

lemma set_options_error: "set_options ws opts = Inr (Inl err) \<Longrightarrow> hd err = CHR ''-''"
  by (induction ws opts rule: set_options.induct)
    (auto simp: bind_res_Inr_iff split: if_splits option.splits)

text \<open>The ways a SET ends: an option error, a declined NX or XX, or a write with or without a deadline.\<close>

lemma cmd_set_eq:
  assumes "3 \<le> length cmd" and "k = cmd ! 1" and "mid = touch k s" and "s2 = mid\<lparr>db := db_set k (cmd ! 2) (db mid)\<rparr>"
  shows "cmd_set cmd s =
    bind_res (set_options (drop 3 cmd) \<lparr>nx = False, xx = False, expire = None\<rparr>) (\<lambda>parsed.
      case parsed of
        Inl err \<Rightarrow> Inr (err, s)
      | Inr opts \<Rightarrow>
          if nx opts \<and> db_exists (db mid) k \<or> xx opts \<and> \<not> db_exists (db mid) k then Inr (resp_null_bulk, mid)
          else case expire opts of
            Some ms \<Rightarrow> bind_res (checked_i64 (clk s2 0 + ms)) (\<lambda>at.
              Inr (resp_simple ''OK'', s2\<lparr>clk := \<lambda>i. clk s2 (Suc i), ttl := set_expiry k at (ttl s2)\<rparr>))
          | None \<Rightarrow> Inr (resp_simple ''OK'', s2\<lparr>ttl := persist k (ttl s2)\<rparr>))"
proof -
  have "\<not> length cmd < 3" using assms(1) by simp
  then show ?thesis
    unfolding cmd_set_def assms(2-4) Let_def now_ms_eq if_not_P [OF \<open>\<not> length cmd < 3\<close>]
    by (intro arg_cong2 [of _ _ _ _ bind_res] refl ext) (simp split: sum.split option.split)
qed

lemma cmd_set_cases:
  assumes "cmd_set cmd s = Inr (r, s1)" and "3 \<le> length cmd" and "k = cmd ! 1" and "mid = touch k s"
    and "s2 = mid\<lparr>db := db_set k (cmd ! 2) (db mid)\<rparr>"
  obtains (err) "hd r = CHR ''-''" "s1 = s"
    | (declined) "r = resp_null_bulk" "s1 = mid"
    | (plain) "r = resp_simple ''OK''" "s1 = s2\<lparr>ttl := persist k (ttl s2)\<rparr>"
    | (timed) at where "r = resp_simple ''OK''" "in_i64 at"
        "s1 = s2\<lparr>clk := \<lambda>i. clk s2 (Suc i), ttl := set_expiry k at (ttl s2)\<rparr>"
proof -
  note run = assms(1) [unfolded cmd_set_eq [OF assms(2-5)] bind_res_Inr_iff]
  from run obtain parsed where p: "set_options (drop 3 cmd) \<lparr>nx = False, xx = False, expire = None\<rparr> = Inr parsed"
    and q: "(case parsed of
        Inl err \<Rightarrow> Inr (err, s)
      | Inr opts \<Rightarrow>
          if nx opts \<and> db_exists (db mid) k \<or> xx opts \<and> \<not> db_exists (db mid) k then Inr (resp_null_bulk, mid)
          else case expire opts of
            Some ms \<Rightarrow> bind_res (checked_i64 (clk s2 0 + ms)) (\<lambda>at.
              Inr (resp_simple ''OK'', s2\<lparr>clk := \<lambda>i. clk s2 (Suc i), ttl := set_expiry k at (ttl s2)\<rparr>))
          | None \<Rightarrow> Inr (resp_simple ''OK'', s2\<lparr>ttl := persist k (ttl s2)\<rparr>)) = Inr (r, s1)"
    by blast
  show thesis
  proof (cases parsed)
    case (Inl e)
    with p q set_options_error show thesis by (auto intro: err)
  next
    case (Inr opts)
    show thesis
    proof (cases "nx opts \<and> db_exists (db mid) k \<or> xx opts \<and> \<not> db_exists (db mid) k")
      case True
      with q Inr show thesis by (intro declined) auto
    next
      case False
      show thesis
      proof (cases "expire opts")
        case None
        with q Inr False show thesis by (intro plain) auto
      next
        case (Some ms)
        with q Inr False show thesis
          by (intro timed [of "clk s2 0 + ms"]) (auto simp: bind_res_Inr_iff)
      qed
    qed
  qed
qed

lemma redo_set:
  assumes wf: "server_wf s" and run: "cmd_set cmd s = Inr (r, s1)"
  shows "redo ''SET'' cmd s r s1"
proof (cases "length cmd < 3")
  case True
  with wf run show ?thesis by (auto simp: cmd_set_def log_records_error intro: redo_same)
next
  case False
  then have len: "3 \<le> length cmd" by simp
  define k where "k = cmd ! 1"
  define mid where "mid = touch k s"
  define s2 where "s2 = mid\<lparr>db := db_set k (cmd ! 2) (db mid)\<rparr>"
  have s2: "server_wf s2" "view s2 = ((fst (view mid))(k \<mapsto> Str (cmd ! 2)), snd (view mid))"
    using server_wf_set [OF touch_wf [OF wf]] by (simp_all add: s2_def mid_def)
  obtain m d where md: "view mid = (m, d)" by fastforce
  have SET: "replays T [[''SET'', k, cmd ! 2]] (view mid) (m(k \<mapsto> Str (cmd ! 2)), d(k := None))" for T
    unfolding md by (rule replays_SET)
  from run len k_def mid_def s2_def show ?thesis
  proof (cases rule: cmd_set_cases)
    case err
    with wf show ?thesis by (intro redo_same) (simp_all add: log_records_error)
  next
    case declined
    with wf show ?thesis by (intro redo_touch_nothing [of s _ k]) (simp_all add: mid_def log_records_def)
  next
    case plain
    have v: "view s1 = (m(k \<mapsto> Str (cmd ! 2)), d(k := None))"
      using server_wf_persist [OF s2(1), of k] s2(2) by (simp add: plain md)
    then have "log_records ''SET'' cmd r (ttl s1) = [[''SET'', k, cmd ! 2]]"
      by (simp add: log_records_def plain(1) k_def view_def)
    with SET v show ?thesis
      by (intro redo_touch [OF wf, of _ k]) (simp_all add: plain s2_def mid_def)
  next
    case (timed at)
    have v: "view s1 = (m(k \<mapsto> Str (cmd ! 2)), d(k \<mapsto> at))"
    proof -
      have "map_of (db s2) k \<noteq> None" using s2(2) by (auto simp: view_def)
      with server_wf_set_expiry(2) [of "s2\<lparr>clk := \<lambda>i. clk s2 (Suc i)\<rparr>" k at] s2 show ?thesis
        by (simp add: timed md)
    qed
    then have recs: "log_records ''SET'' cmd r (ttl s1) =
        [[''SET'', k, cmd ! 2], [''PEXPIREAT'', k, to_string at]]"
      by (simp add: log_records_def timed(1) k_def view_def)
    show ?thesis
    proof (rule redo_touch [OF wf, of _ k])
      fix T
      assume "deadlines_from T (log_records ''SET'' cmd r (ttl s1))"
      then have "T \<le> at"
        using deadlines_from_PEXPIREAT [OF timed(2), of T k "[]"] unfolding recs
        by (simp add: deadlines_from_def)
      then have "replays T ([[''SET'', k, cmd ! 2]] @ [[''PEXPIREAT'', k, to_string at]]) (view mid)
          (m(k \<mapsto> Str (cmd ! 2)), d(k := None, k \<mapsto> at))"
        by (intro replays_append [OF SET] replays_PEXPIREAT) (simp_all add: timed(2))
      then show "replays T (log_records ''SET'' cmd r (ttl s1)) (view (touch k s)) (view s1)"
        by (simp add: recs v mid_def)
    qed (simp_all add: timed s2_def mid_def)
  qed
qed

text \<open>A deadline set or a key deleted, as EXPIRE, PEXPIRE and PEXPIREAT leave it.\<close>

lemma redo_deadline:
  assumes wf: "server_wf s" and name: "name \<in> {''EXPIRE'', ''PEXPIRE'', ''PEXPIREAT''}"
    and k: "k = cmd ! 1" and mid: "mid = touch k s" and ex: "map_of (db mid) k \<noteq> None" and at: "in_i64 at"
    and s1: "s1 = mid\<lparr>clk := c, ttl := set_expiry k at (ttl mid)\<rparr>" and r: "r = resp_integer 1"
  shows "redo name cmd s r s1"
proof -
  obtain m d where md: "view mid = (m, d)" by fastforce
  have v: "view s1 = (m, d(k \<mapsto> at))"
    using server_wf_set_expiry(2) [of "mid\<lparr>clk := c\<rparr>" k at] wf ex by (simp add: s1 mid md [unfolded mid])
  then have recs: "log_records name cmd r (ttl s1) = [[''PEXPIREAT'', k, to_string at]]"
    using name unfolding r k by (elim insertE emptyE; simp add: log_records_def view_def)
  have "replays T [[''PEXPIREAT'', k, to_string at]] (m, d) (m, d(k \<mapsto> at))" if "T \<le> at" for T
    using ex md that at by (intro replays_PEXPIREAT) (auto simp: view_def)
  then show ?thesis
    using deadlines_from_PEXPIREAT [OF at, of _ k "[]"] md
    by (intro redo_touch_recs [OF wf mid recs v]) (simp_all add: s1)
qed

lemma redo_delete_now:
  assumes wf: "server_wf s" and name: "name \<in> {''EXPIRE'', ''PEXPIRE'', ''PEXPIREAT''}"
    and k: "k = cmd ! 1" and mid: "mid = touch k s"
    and s1: "s1 = delete_now k (mid\<lparr>clk := c\<rparr>)" and r: "r = resp_integer 1"
  shows "redo name cmd s r s1"
proof -
  have v: "view s1 = vdel [k] (view mid)"
    using server_wf_delete_now(2) [of "mid\<lparr>clk := c\<rparr>" k] wf by (simp add: s1 mid)
  then have recs: "log_records name cmd r (ttl s1) = [[''DEL'', k]]"
    using name unfolding r k by (elim insertE emptyE; simp add: log_records_def view_def vdel_def)
  have "replays T [[''DEL'', k]] (view mid) (vdel [k] (view mid))" for T
    using replays_DEL [of "[''DEL'', k]" T "view mid"] by (simp add: upper_names)
  then show ?thesis
    by (intro redo_touch_recs [OF wf mid recs v]) (simp_all add: s1 delete_now_def)
qed

lemma redo_zero:
  assumes "server_wf s" and "name \<in> {''EXPIRE'', ''PEXPIRE'', ''PEXPIREAT'', ''PERSIST''}"
    and "s1 = touch k s" and "r = resp_integer 0"
  shows "redo name cmd s r s1"
proof -
  have "log_records name cmd r (ttl s1) = []"
    using assms(2) unfolding assms(4) by (elim insertE emptyE; simp add: log_records_def)
  with assms(1,3) show ?thesis by (rule redo_touch_nothing)
qed

text \<open>
  The outcomes EXPIRE, PEXPIRE and PEXPIREAT share: an error, a key that is not there, a deadline in
  the past, which deletes, and a deadline set.
\<close>

definition rearmed :: "string \<Rightarrow> server \<Rightarrow> string \<Rightarrow> server \<Rightarrow> bool" where
  "rearmed k s r s1 \<longleftrightarrow>
     (let mid = touch k s
      in hd r = CHR ''-'' \<and> s1 = s \<or> r = resp_integer 0 \<and> s1 = mid \<or>
         r = resp_integer 1 \<and> (\<exists>c. s1 = delete_now k (mid\<lparr>clk := c\<rparr>)) \<or>
         r = resp_integer 1 \<and> map_of (db mid) k \<noteq> None \<and>
           (\<exists>c at. in_i64 at \<and> s1 = mid\<lparr>clk := c, ttl := set_expiry k at (ttl mid)\<rparr>))"

lemma rearmed_cases:
  assumes "rearmed k s r s1" and "mid = touch k s"
  obtains (err) "hd r = CHR ''-''" "s1 = s"
    | (absent) "r = resp_integer 0" "s1 = mid"
    | (past) c where "r = resp_integer 1" "s1 = delete_now k (mid\<lparr>clk := c\<rparr>)"
    | (armed) c at where "r = resp_integer 1" "map_of (db mid) k \<noteq> None" "in_i64 at"
        "s1 = mid\<lparr>clk := c, ttl := set_expiry k at (ttl mid)\<rparr>"
  using assms unfolding rearmed_def Let_def by blast

lemma expire_generic_rearmed:
  assumes run: "expire_generic lname cmd u s = Inr (r, s1)" and k: "k = cmd ! 1"
  shows "rearmed k s r s1"
proof (cases "length cmd = 3 \<and> parse_i64 (cmd ! 2) \<noteq> None")
  case False
  then have "s1 = s" "hd r = CHR ''-''"
    using run by (auto simp: expire_generic_def split: if_splits)
  then show ?thesis by (simp add: rearmed_def Let_def)
next
  case True
  define mid where "mid = touch k s"
  obtain n where n: "parse_i64 (cmd ! 2) = Some n" using True by blast
  have eq: "expire_generic lname cmd u s =
      (if \<not> db_exists (db mid) k then Inr (resp_integer 0, mid)
       else if n \<le> 0 then Inr (resp_integer 1, delete_now k (mid\<lparr>clk := clk mid\<rparr>))
       else bind_res (checked_i64 (n * u)) (\<lambda>ms. bind_res (checked_i64 (clk mid 0 + ms)) (\<lambda>at.
         Inr (resp_integer 1, mid\<lparr>clk := \<lambda>i. clk mid (Suc i), ttl := set_expiry k at (ttl mid)\<rparr>))))"
    using True n by (simp add: expire_generic_def Let_def now_ms_eq k mid_def)
  show ?thesis
    unfolding rearmed_def mid_def [symmetric] Let_def
    using run unfolding eq
    by (cases "db_exists (db mid) k"; cases "n \<le> 0")
      (auto simp: bind_res_Inr_iff db_exists_def intro: exI [of _ "clk mid"])
qed

lemma pexpireat_rearmed:
  assumes run: "cmd_pexpireat cmd s = Inr (r, s1)" and k: "k = cmd ! 1"
  shows "rearmed k s r s1"
proof (cases "length cmd = 3 \<and> parse_i64 (cmd ! 2) \<noteq> None")
  case False
  then have "s1 = s" "hd r = CHR ''-''"
    using run by (auto simp: cmd_pexpireat_def split: if_splits)
  then show ?thesis by (simp add: rearmed_def Let_def)
next
  case True
  define mid where "mid = touch k s"
  obtain at where at: "parse_i64 (cmd ! 2) = Some at" using True by blast
  let ?c = "\<lambda>i. clk mid (Suc i)"
  have eq: "cmd_pexpireat cmd s =
      (if \<not> db_exists (db mid) k then Inr (resp_integer 0, mid)
       else if at \<le> clk mid 0 then Inr (resp_integer 1, delete_now k (mid\<lparr>clk := ?c\<rparr>))
       else Inr (resp_integer 1, mid\<lparr>clk := ?c, ttl := set_expiry k at (ttl mid)\<rparr>))"
    using True at by (simp add: cmd_pexpireat_def Let_def now_ms_eq k mid_def)
  show ?thesis
    unfolding rearmed_def mid_def [symmetric] Let_def
    using run parse_i64_range [OF at] unfolding eq by (simp add: db_exists_def split: if_splits; blast)
qed

lemma redo_rearmed:
  assumes wf: "server_wf s" and "rearmed k s r s1" and k: "k = cmd ! 1"
    and name: "name \<in> {''EXPIRE'', ''PEXPIRE'', ''PEXPIREAT''}"
  shows "redo name cmd s r s1"
  using assms(2) refl
proof (cases rule: rearmed_cases)
  case err
  with wf show ?thesis by (intro redo_same) (simp_all add: log_records_error)
next
  case absent
  with name show ?thesis by (intro redo_zero [OF wf, of _ _ k]) auto
next
  case (past c)
  then show ?thesis by (intro redo_delete_now [OF wf name k refl])
next
  case (armed c at)
  then show ?thesis by (intro redo_deadline [OF wf name k refl])
qed

lemma redo_persist:
  assumes wf: "server_wf s" and run: "cmd_persist cmd s = Inr (r, s1)"
  shows "redo ''PERSIST'' cmd s r s1"
proof (cases "length cmd = 2")
  case False
  with wf run show ?thesis by (auto simp: cmd_persist_def log_records_error intro: redo_same)
next
  case True
  define k where "k = cmd ! 1"
  define mid where "mid = touch k s"
  have eq: "cmd_persist cmd s =
      (if \<not> db_exists (db mid) k \<or> expiry_at (ttl mid) k = None then Inr (resp_integer 0, mid)
       else Inr (resp_integer 1, mid\<lparr>ttl := persist k (ttl mid)\<rparr>))"
    using True by (simp add: cmd_persist_def Let_def k_def mid_def)
  show ?thesis
  proof (cases "\<not> db_exists (db mid) k \<or> expiry_at (ttl mid) k = None")
    case True
    with run show ?thesis unfolding eq by (intro redo_zero [OF wf, of _ _ k]) (auto simp: mid_def)
  next
    case False
    from run have s1: "s1 = mid\<lparr>ttl := persist k (ttl mid)\<rparr>" and r: "r = resp_integer 1"
      unfolding eq if_not_P [OF False] by auto
    obtain m d where md: "view mid = (m, d)" by fastforce
    have v: "view s1 = (m, d(k := None))"
      using server_wf_persist(2) [OF touch_wf [OF wf, of k], of k] md by (simp add: s1 mid_def)
    have recs: "log_records ''PERSIST'' cmd r (ttl s1) = [[''PERSIST'', k]]"
      by (simp add: log_records_def r k_def)
    show ?thesis
      using replays_PERSIST md by (intro redo_touch_recs [OF wf mid_def recs v]) (simp_all add: s1)
  qed
qed

lemma vdel_cong: "set ks = set ls \<Longrightarrow> vdel ks v = vdel ls v"
  by (simp add: vdel_def)

lemma vdel_absent: "server_wf s \<Longrightarrow> map_of (db s) k = None \<Longrightarrow> vdel [k] (view s) = view s"
  using server_wfD(3) [of s k] by (auto simp: vdel_def view_def)

text \<open>
  DEL removes all its keys. Some it evicts (and logs) on the way; if it counts none, the evictions
  alone account for the removal.
\<close>

lemma del_loop_effect:
  assumes "server_wf s" and "del_loop keys n s = (n', s')"
  shows "n \<le> n' \<and> (\<exists>ks. set ks \<subseteq> set keys \<and> appended s (del_recs ks) s' \<and> view s' = vdel keys (view s) \<and>
    (n' = n \<longrightarrow> view s' = vdel ks (view s)))"
  using assms
proof (induction keys arbitrary: n s)
  case Nil
  then show ?case by (auto simp: del_recs_def appended_refl intro: exI [of _ "[]"])
next
  case (Cons k keys)
  define s1 where "s1 = touch k s"
  obtain ks0 where ks0: "set ks0 \<subseteq> {k}" "evicted s ks0 s1"
    using evicted_touch [OF Cons.prems(1)] unfolding s1_def by blast
  then have s1: "server_wf s1" "appended s (del_recs ks0) s1" "view s1 = vdel ks0 (view s)"
    by (simp_all add: evicted_def)
  have k: "vdel [k] (view s1) = vdel [k] (view s)"
    using ks0(1) unfolding s1(3) vdel_vdel by (intro vdel_cong) auto
  show ?case
  proof (cases "map_of (db s1) k = None")
    case True
    then have "del_loop keys n s1 = (n', s')"
      using Cons.prems(2) [unfolded del_loop_Cons, folded s1_def, unfolded if_P [OF True]] by simp
    from Cons.IH [OF s1(1) this] obtain ks where ks: "n \<le> n'" "set ks \<subseteq> set keys" "appended s1 (del_recs ks) s'"
      "view s' = vdel keys (view s1)" "n' = n \<longrightarrow> view s' = vdel ks (view s1)"
      by blast
    have gone: "view s1 = vdel [k] (view s)"
      using k vdel_absent [OF s1(1) True] by simp
    have "appended s (del_recs (ks0 @ ks)) s'"
      using appended_trans [OF s1(2) ks(3)] by (simp add: del_recs_def)
    moreover have "view s' = vdel (k # keys) (view s)"
      unfolding ks(4) gone by simp
    moreover have "n' = n \<longrightarrow> view s' = vdel (ks0 @ ks) (view s)"
      using ks(5) unfolding s1(3) by simp
    ultimately show ?thesis
      using ks(1,2) ks0(1) by (intro conjI exI [of _ "ks0 @ ks"]) auto
  next
    case False
    define s2 where "s2 = delete_now k s1"
    have s2: "server_wf s2" "view s2 = vdel [k] (view s)"
      using server_wf_delete_now [OF s1(1), of k] k by (simp_all add: s2_def)
    have "del_loop keys (n + 1) s2 = (n', s')"
      using Cons.prems(2) [unfolded del_loop_Cons, folded s1_def, unfolded if_not_P [OF False]]
      by (simp add: s2_def)
    from Cons.IH [OF s2(1) this] obtain ks where ks: "n + 1 \<le> n'" "set ks \<subseteq> set keys" "appended s2 (del_recs ks) s'"
      "view s' = vdel keys (view s2)"
      by blast
    have "appended s (del_recs ks0) s2"
      by (rule appended_frame [OF s1(2)]) (simp_all add: s2_def delete_now_def)
    from appended_trans [OF this ks(3)] have "appended s (del_recs (ks0 @ ks)) s'"
      by (simp add: del_recs_def)
    moreover have "view s' = vdel (k # keys) (view s)"
      unfolding ks(4) s2(2) by simp
    ultimately show ?thesis
      using ks(1,2) ks0(1) by (intro conjI exI [of _ "ks0 @ ks"]) auto
  qed
qed

lemma redo_del:
  assumes wf: "server_wf s" and "cmd \<noteq> []" and "upper (cmd ! 0) = ''DEL''" and run: "cmd_del cmd s = Inr (r, s1)"
  shows "redo ''DEL'' cmd s r s1"
proof (cases "length cmd < 2")
  case True
  with wf run show ?thesis by (auto simp: cmd_del_def log_records_error intro: redo_same)
next
  case False
  then obtain n where loop: "del_loop (drop 1 cmd) 0 s = (n, s1)" and r: "r = resp_integer n"
    using run by (auto simp: cmd_del_def split: prod.splits)
  from del_loop_effect [OF wf loop] obtain ks where ks: "set ks \<subseteq> set (drop 1 cmd)"
    "appended s (del_recs ks) s1" "view s1 = vdel (drop 1 cmd) (view s)" "n = 0 \<longrightarrow> view s1 = vdel ks (view s)"
    by blast
  show ?thesis
  proof (cases "n = 0")
    case True
    then have "log_records ''DEL'' cmd r (ttl s1) = []" by (simp add: log_records_def r)
    with ks True replays_Nil show ?thesis
      unfolding redo_def by metis
  next
    case n: False
    then have recs: "log_records ''DEL'' cmd r (ttl s1) = [cmd]" by (simp add: log_records_def r)
    have "vdel (drop 1 cmd) (vdel ks (view s)) = view s1"
      unfolding ks(3) vdel_vdel using ks(1) by (intro vdel_cong) auto
    then have "replays T [cmd] (vdel ks (view s)) (view s1)" for T
      using replays_DEL [OF assms(2,3), of T "vdel ks (view s)"] False by simp
    with ks(2) show ?thesis
      unfolding redo_def recs by blast
  qed
qed

section \<open>Reads only evict\<close>

lemma evicted_exists_loop: "server_wf s \<Longrightarrow> \<exists>ks. evicted s ks (snd (exists_loop keys n s))"
proof (induction keys arbitrary: n s)
  case (Cons k keys)
  obtain ks where "evicted s ks (touch k s)" using evicted_touch [OF Cons.prems] by blast
  moreover obtain ls where "evicted (touch k s) ls (snd (exists_loop (k # keys) n s))"
    using Cons.IH [OF touch_wf [OF Cons.prems]] by (auto simp: Let_def)
  ultimately show ?case using evicted_trans by blast
qed (auto intro: evicted_refl)

lemma evicted_keys_loop: "server_wf s \<Longrightarrow> \<exists>ks. evicted s ks (snd (keys_loop keys es s))"
proof (induction keys arbitrary: es s)
  case (Cons k keys)
  obtain dead s1 where c: "check_key k s = (dead, s1)" by fastforce
  then have s1: "server_wf s1" "evicted s (if expired_key k s then [k] else []) s1"
    using check_key_wf(1) [OF Cons.prems, of k] evicted_check_key [OF Cons.prems, of k] by simp_all
  obtain ls where "evicted s1 ls (snd (keys_loop (k # keys) es s))"
    using Cons.IH [OF s1(1)] by (auto simp: c)
  with s1(2) show ?case using evicted_trans by blast
qed (auto intro: evicted_refl)

text \<open>The handlers that never change the view but by evicting.\<close>

definition read_only :: "string list" where
  "read_only = [''PING'', ''ECHO'', ''GET'', ''EXISTS'', ''TTL'', ''PTTL'', ''TYPE'', ''DBSIZE'', ''KEYS'',
     ''CONFIG'', ''COMMAND'', ''LRANGE'', ''LLEN'']"

lemma log_records_read_only: "name \<in> set read_only \<Longrightarrow> log_records name cmd r e = []"
  unfolding read_only_def list.set by (elim insertE emptyE; simp add: log_records_def)

lemma evicted_reads:
  assumes "server_wf s"
  shows "cmd_get cmd s = Inr (r, s1) \<Longrightarrow> \<exists>ks. evicted s ks s1"
    and "cmd_exists cmd s = Inr (r, s1) \<Longrightarrow> \<exists>ks. evicted s ks s1"
    and "cmd_type cmd s = Inr (r, s1) \<Longrightarrow> \<exists>ks. evicted s ks s1"
    and "cmd_keys cmd s = Inr (r, s1) \<Longrightarrow> \<exists>ks. evicted s ks s1"
    and "ttl_generic lname cmd b s = Inr (r, s1) \<Longrightarrow> \<exists>ks. evicted s ks s1"
    and "cmd_lrange cmd s = Inr (r, s1) \<Longrightarrow> \<exists>ks. evicted s ks s1"
    and "cmd_llen cmd s = Inr (r, s1) \<Longrightarrow> \<exists>ks. evicted s ks s1"
proof -
  have refl: "\<exists>ks. evicted s ks s" using evicted_refl [OF assms] by blast
  have touch: "\<exists>ks. evicted s ks (touch k s)" for k using evicted_touch [OF assms] by blast
  have tick: "\<exists>ks. evicted s ks ((touch k s)\<lparr>clk := \<lambda>i. clk (touch k s) (Suc i)\<rparr>)" for k
    using touch evicted_tick by blast
  show "\<exists>ks. evicted s ks s1" if "cmd_get cmd s = Inr (r, s1)"
    using that refl touch by (auto simp: cmd_get_def Let_def split: if_splits)
  show "\<exists>ks. evicted s ks s1" if "cmd_exists cmd s = Inr (r, s1)"
    using that refl evicted_exists_loop [OF assms, of "drop 1 cmd" 0]
    by (auto simp: cmd_exists_def Let_def split: if_splits prod.splits)
  show "\<exists>ks. evicted s ks s1" if "cmd_type cmd s = Inr (r, s1)"
    using that refl touch by (auto simp: cmd_type_def Let_def split: if_splits)
  show "\<exists>ks. evicted s ks s1" if "cmd_keys cmd s = Inr (r, s1)"
    using that refl evicted_keys_loop [OF assms, of "keys_matching_glob (db s) (cmd ! 1)" "[]"]
    by (auto simp: cmd_keys_def Let_def split: if_splits prod.splits)
  show "\<exists>ks. evicted s ks s1" if "ttl_generic lname cmd b s = Inr (r, s1)"
    using that refl touch tick
    by (auto simp: ttl_generic_def Let_def now_ms_eq bind_res_Inr_iff split: if_splits option.splits)
  show "\<exists>ks. evicted s ks s1" if "cmd_lrange cmd s = Inr (r, s1)"
    using that refl touch
    by (auto simp: cmd_lrange_def Let_def bind_res_Inr_iff split: if_splits option.splits)
  show "\<exists>ks. evicted s ks s1" if "cmd_llen cmd s = Inr (r, s1)"
    using that refl touch by (auto simp: cmd_llen_def Let_def bind_res_Inr_iff split: if_splits)
qed

section \<open>Every command can be redone\<close>

lemma redo_read_only: "evicted s ks s1 \<Longrightarrow> name \<in> set read_only \<Longrightarrow> redo name cmd s r s1"
  by (rule redo_nothing) (simp_all add: log_records_read_only)

lemma evicted_connection:
  assumes "server_wf s"
  shows "cmd_ping cmd s = Inr (r, s1) \<Longrightarrow> \<exists>ks. evicted s ks s1"
    and "cmd_echo cmd s = Inr (r, s1) \<Longrightarrow> \<exists>ks. evicted s ks s1"
    and "cmd_dbsize cmd s = Inr (r, s1) \<Longrightarrow> \<exists>ks. evicted s ks s1"
    and "cmd_config cmd s = Inr (r, s1) \<Longrightarrow> \<exists>ks. evicted s ks s1"
    and "cmd_command cmd s = Inr (r, s1) \<Longrightarrow> \<exists>ks. evicted s ks s1"
  using exI [of "\<lambda>ks. evicted s ks s" "[]", OF evicted_refl [OF assms]]
  by (auto simp: cmd_ping_def cmd_echo_def cmd_dbsize_def cmd_config_def cmd_command_def
      split: if_splits option.splits)

lemma read_only_evicts:
  assumes "server_wf s" and "(name, h) \<in> set kTable" and "name \<in> set read_only" and "h cmd s = Inr (r, s1)"
  shows "\<exists>ks. evicted s ks s1"
proof -
  note ev = evicted_reads [OF assms(1)] evicted_connection [OF assms(1)]
  show ?thesis
    using assms(2-4) unfolding kTable_def list.set
    by (elim insertE emptyE Pair_inject)
      (simp_all only: cmd_ttl_def cmd_pttl_def, (erule ev | simp add: read_only_def)+)
qed

lemma kTable_redo:
  assumes "server_wf s" and "cmd \<noteq> []" and "upper (cmd ! 0) = name" and "map_of kTable name = Some h"
    and "h cmd s = Inr (r, s1)"
  shows "redo name cmd s r s1"
proof (cases "name \<in> set read_only")
  case True
  with assms read_only_evicts [OF assms(1) map_of_SomeD [OF assms(4)] True assms(5)] redo_read_only
  show ?thesis by blast
next
  case False
  with map_of_SomeD [OF assms(4)] assms(3,5) show ?thesis
    unfolding kTable_def list.set
    by (elim insertE emptyE)
      (use redo_incr [OF assms(1,2)] redo_lists [OF assms(1,2)] redo_flushall [OF assms(1,2)]
         redo_del [OF assms(1,2)] redo_set [OF assms(1)] redo_persist [OF assms(1)]
         redo_rearmed [OF assms(1) pexpireat_rearmed [OF _ refl] refl]
         redo_rearmed [OF assms(1) expire_generic_rearmed [OF _ refl] refl] in \<open>simp_all add: read_only_def cmd_expire_def cmd_pexpire_def\<close>)
qed

text \<open>The commands that occur in a log; a SET there has no options.\<close>

definition log_names :: "string list" where
  "log_names = [''SET'', ''PEXPIREAT'', ''PERSIST'', ''DEL'', ''INCR'', ''DECR'', ''INCRBY'', ''LPUSH'', ''RPUSH'',
     ''LPOP'', ''RPOP'', ''FLUSHALL'']"

definition log_record :: "command \<Rightarrow> bool" where
  "log_record r \<longleftrightarrow> r \<noteq> [] \<and> upper (r ! 0) \<in> set log_names \<and> (upper (r ! 0) = ''SET'' \<longrightarrow> length r = 3)"

lemma log_record_del_recs: "list_all log_record (del_recs ks)"
  by (induction ks) (simp_all add: del_recs_def log_record_def log_names_def upper_names)

lemma log_record_log_records: "cmd \<noteq> [] \<Longrightarrow> list_all log_record (log_records (upper (cmd ! 0)) cmd r e)"
  unfolding log_records_def
  by (simp add: log_record_def log_names_def upper_names split: option.split)

text \<open>
  The step of the whole dispatcher: while persistence holds, the log grew by records whose replay
  leads from the old view to the new one.
\<close>

definition redone :: "server \<Rightarrow> server \<Rightarrow> bool" where
  "redone s s' \<longleftrightarrow>
     (\<exists>recs. appended s recs s' \<and> list_all log_record recs \<and>
        (\<not> persistence_failed s' \<longrightarrow> wal s \<noteq> None \<longrightarrow>
           (\<forall>T. deadlines_from T recs \<longrightarrow> replays T recs (view s) (view s'))))"

lemma redoneI:
  assumes "appended s recs s'" and "list_all log_record recs"
    and "\<And>T. deadlines_from T recs \<Longrightarrow> replays T recs (view s) (view s')"
  shows "redone s s'"
  using assms unfolding redone_def by blast

lemma redone_same: "wal s' = wal s \<Longrightarrow> persistence_failed s' = persistence_failed s \<Longrightarrow> view s' = view s \<Longrightarrow> redone s s'"
  by (rule redoneI [OF appended_same]) (simp_all, rule replays_Nil)

lemma redone_trans:
  assumes "redone s s1" and "redone s1 s2"
  shows "redone s s2"
proof -
  obtain r1 where r1: "appended s r1 s1" "list_all log_record r1"
      "\<not> persistence_failed s1 \<Longrightarrow> wal s \<noteq> None \<Longrightarrow>
      deadlines_from T r1 \<Longrightarrow> replays T r1 (view s) (view s1)" for T
    using assms(1) unfolding redone_def by blast
  obtain r2 where r2: "appended s1 r2 s2" "list_all log_record r2"
      "\<not> persistence_failed s2 \<Longrightarrow> wal s1 \<noteq> None \<Longrightarrow>
      deadlines_from T r2 \<Longrightarrow> replays T r2 (view s1) (view s2)" for T
    using assms(2) unfolding redone_def by blast
  have "\<not> persistence_failed s1" if "\<not> persistence_failed s2"
    using r2(1) that by (auto simp: appended_def)
  moreover have "wal s1 \<noteq> None" if "wal s \<noteq> None"
    using r1(1) that by (auto simp: appended_def split: option.splits)
  ultimately show ?thesis
    unfolding redone_def using appended_trans [OF r1(1) r2(1)] r1(2,3) r2(2,3) replays_append
    by (intro exI [of _ "r1 @ r2"]) (auto intro: replays_append)
qed

lemma execute_redone:
  assumes wf: "server_wf s" and run: "execute cmd s = Inr (r, s')"
  shows "redone s s'"
proof -
  consider "persistence_failed s \<or> cmd = [] \<or> upper (cmd ! 0) = ''SHUTDOWN'' \<or>
      map_of kTable (upper (cmd ! 0)) = None"
    | h where "\<not> persistence_failed s" "cmd \<noteq> []" "map_of kTable (upper (cmd ! 0)) = Some h"
    by blast
  then show ?thesis
  proof cases
    case 1
    then have "wal s' = wal s" "persistence_failed s' = persistence_failed s" "view s' = view s"
      using run by (auto simp: execute_def split: if_splits option.splits)
    then show ?thesis by (rule redone_same)
  next
    case 2
    let ?name = "upper (cmd ! 0)"
    from run obtain r1 s1 where h: "h cmd s = Inr (r1, s1)"
      and s': "s' = (if wal s1 \<noteq> None \<and> \<not> persistence_failed s1
               then fold put_record (log_records ?name cmd r1 (ttl s1)) s1 else s1)"
      unfolding execute_handler [OF 2(1,2) refl 2(3)] by (auto simp: bind_res_Inr_iff Let_def)
    from kTable_redo [OF wf 2(2) refl 2(3) h] obtain ks where ks: "appended s (del_recs ks) s1"
      "deadlines_from T (log_records ?name cmd r1 (ttl s1)) \<Longrightarrow>
         replays T (log_records ?name cmd r1 (ttl s1)) (vdel ks (view s)) (view s1)" for T
      unfolding redo_def by blast
    show ?thesis
    proof (cases "wal s1 \<noteq> None \<and> \<not> persistence_failed s1")
      case True
      then have s': "s' = fold put_record (log_records ?name cmd r1 (ttl s1)) s1" using s' by simp
      show ?thesis
      proof (rule redoneI)
        show "appended s (del_recs ks @ log_records ?name cmd r1 (ttl s1)) s'"
          unfolding s' by (rule appended_trans [OF ks(1) appended_fold])
        show "list_all log_record (del_recs ks @ log_records ?name cmd r1 (ttl s1))"
          using log_record_del_recs log_record_log_records [OF 2(2)] by simp
        fix T
        assume "deadlines_from T (del_recs ks @ log_records ?name cmd r1 (ttl s1))"
        then show "replays T (del_recs ks @ log_records ?name cmd r1 (ttl s1)) (view s) (view s')"
          using replays_append [OF replays_del_recs ks(2)] by (simp add: s')
      qed
    next
      case False
      then have "s' = s1" unfolding s' by (rule if_not_P)
      moreover have "wal s = None" if "wal s1 = None"
        using ks(1) that by (auto simp: appended_def split: option.splits)
      ultimately show ?thesis
        unfolding redone_def using False ks(1) log_record_del_recs by blast
    qed
  qed
qed

end
