(* ===== verification/Snapshot.thy ===== *)
theory Snapshot
  imports Db Expiry "HOL-Library.Monad_Syntax"
begin

text \<open>
  Snapshot serialisation, \<^verbatim>\<open>src/src/persist/snapshot.cpp\<close>: the format HDB1 with its fixed-width fields,
  \<^verbatim>\<open>save_snapshot\<close> and \<^verbatim>\<open>load_snapshot\<close>. The format is native-endian; the model is that of a
  little-endian host. A file is the string of its bytes, an input stream the bytes not read yet, so
  \<^verbatim>\<open>bytes_left\<close> is the length of the stream. The lemmas: every field and every entry is a codec, so a
  snapshot loads back to the same keyspace and deadlines, and one cut short is refused.
\<close>

section \<open>Fields\<close>

definition kMagic :: string where
  "kMagic = ''HDB1''"

primrec put_le :: "nat \<Rightarrow> nat \<Rightarrow> string" where
  "put_le 0 v = []"
| "put_le (Suc w) v = char_of (v mod 256) # put_le w (v div 256)"

primrec le_val :: "string \<Rightarrow> nat" where
  "le_val [] = 0"
| "le_val (c # cs) = of_char c + 256 * le_val cs"

definition put_u8 :: "nat \<Rightarrow> string" where
  "put_u8 v = put_le 1 v"

definition put_u32 :: "nat \<Rightarrow> string" where
  "put_u32 v = put_le 4 v"

definition put_u64 :: "nat \<Rightarrow> string" where
  "put_u64 v = put_le 8 v"

definition put_i64 :: "int \<Rightarrow> string" where
  "put_i64 v = put_le 8 (nat (v mod 2 ^ 64))"

definition put_bytes :: "string \<Rightarrow> string" where
  "put_bytes s = put_u32 (length s) @ s"

text \<open>\<^verbatim>\<open>f.read(dst, n)\<close>: all \<open>n\<close> bytes or failure.\<close>

definition read_bytes :: "nat \<Rightarrow> string \<Rightarrow> (string \<times> string) option" where
  "read_bytes n f = (if n \<le> length f then Some (take n f, drop n f) else None)"

definition get_le :: "nat \<Rightarrow> string \<Rightarrow> (nat \<times> string) option" where
  "get_le w f = map_option (apfst le_val) (read_bytes w f)"

definition get_u8 :: "string \<Rightarrow> (nat \<times> string) option" where
  "get_u8 f = get_le 1 f"

definition get_u32 :: "string \<Rightarrow> (nat \<times> string) option" where
  "get_u32 f = get_le 4 f"

definition get_u64 :: "string \<Rightarrow> (nat \<times> string) option" where
  "get_u64 f = get_le 8 f"

definition get_i64 :: "string \<Rightarrow> (int \<times> string) option" where
  "get_i64 f = map_option (apfst (\<lambda>u. if u < 2 ^ 63 then int u else int u - 2 ^ 64)) (get_le 8 f)"

definition get_bytes :: "nat \<Rightarrow> string \<Rightarrow> (string \<times> string) option" where
  "get_bytes remaining f =
     do { (len, f1) \<leftarrow> get_u32 f;
          if remaining < len then None else read_bytes len f1 }"

section \<open>Saving\<close>

definition save_entry :: "expiry \<Rightarrow> string \<times> entry \<Rightarrow> string" where
  "save_entry e = (\<lambda>(key, entry).
     put_u8 (case entry of Str _ \<Rightarrow> 0 | Lst _ \<Rightarrow> 1) @
     put_bytes key @
     (case expiry_at e key of
        Some at \<Rightarrow> put_u8 1 @ put_i64 at
      | None \<Rightarrow> put_u8 0) @
     (case entry of
        Str str \<Rightarrow> put_bytes str
      | Lst list \<Rightarrow> put_u32 (length list) @ concat (map put_bytes list)))"

definition snapshot_bytes :: "db \<Rightarrow> expiry \<Rightarrow> string" where
  "snapshot_bytes db e = kMagic @ put_u64 (length db) @ concat (map (save_entry e) db)"

text \<open>
  \<^verbatim>\<open>save_snapshot\<close>: whether the file opens and whether every write reaches it are the system's
  answers. The error, if any, and the file left behind.
\<close>

definition save_snapshot :: "db \<Rightarrow> expiry \<Rightarrow> string \<Rightarrow> bool \<Rightarrow> nat option \<Rightarrow> string option \<times> string option" where
  "save_snapshot db e path opens torn_at =
     (if \<not> opens then (Some (''cannot open '' @ [CHR 0x27] @ path @ [CHR 0x27] @ '' for writing''), None)
      else case torn_at of
        Some n \<Rightarrow> (Some (''write failed for '' @ [CHR 0x27] @ path @ [CHR 0x27]), Some (take n (snapshot_bytes db e)))
      | None \<Rightarrow> (None, Some (snapshot_bytes db e)))"

section \<open>Loading\<close>

type_synonym item = "string \<times> int option \<times> entry"

definition get_ttl :: "string \<Rightarrow> (int option \<times> string) option" where
  "get_ttl f =
     do { (has_ttl, f1) \<leftarrow> get_u8 f;
          if has_ttl > 1 then None
          else if has_ttl = 1 then map_option (apfst Some) (get_i64 f1)
          else Some (None, f1) }"

definition get_value :: "nat \<Rightarrow> string \<Rightarrow> (entry \<times> string) option" where
  "get_value ty f =
     (if ty = 0 then map_option (apfst Str) (get_bytes (length f) f)
      else do { (n, f1) \<leftarrow> get_u32 f;
                map_option (apfst Lst) (dec_many (\<lambda>g. get_bytes (length g) g) n f1) })"

definition get_entry :: "string \<Rightarrow> (item \<times> string) option" where
  "get_entry f =
     do { (ty, f1) \<leftarrow> get_u8 f;
          if ty > 1 then None
          else do { (key, f2) \<leftarrow> get_bytes (length f1) f1;
                    (at, f3) \<leftarrow> get_ttl f2;
                    (entry, f4) \<leftarrow> get_value ty f3;
                    Some ((key, at, entry), f4) } }"

definition restore_item :: "item \<Rightarrow> db \<times> expiry \<Rightarrow> db \<times> expiry" where
  "restore_item = (\<lambda>(key, at, entry) (db, e).
     (restore_entry key entry db, case at of Some a \<Rightarrow> set_expiry key a e | None \<Rightarrow> e))"

fun load_entries :: "nat \<Rightarrow> nat \<Rightarrow> string \<Rightarrow> db \<times> expiry \<Rightarrow> string option \<times> db \<times> expiry" where
  "load_entries i 0 f st = (None, st)"
| "load_entries i (Suc n) f st =
     (case get_entry f of
        None \<Rightarrow> (Some (''corrupt snapshot entry '' @ to_string (int i)), st)
      | Some (item, f1) \<Rightarrow> load_entries (Suc i) n f1 (restore_item item st))"

definition load_snapshot :: "string \<Rightarrow> string option \<Rightarrow> db \<times> expiry \<Rightarrow> string option \<times> db \<times> expiry" where
  "load_snapshot path file_bytes st =
     (case file_bytes of
        None \<Rightarrow> (Some (''cannot open '' @ [CHR 0x27] @ path @ [CHR 0x27]), st)
      | Some f \<Rightarrow>
          case read_bytes 4 f of
            None \<Rightarrow> (Some (''bad snapshot magic in '' @ [CHR 0x27] @ path @ [CHR 0x27]), st)
          | Some (magic, f1) \<Rightarrow>
              if magic \<noteq> kMagic then (Some (''bad snapshot magic in '' @ [CHR 0x27] @ path @ [CHR 0x27]), st)
              else case get_u64 f1 of
                None \<Rightarrow> (Some ''truncated snapshot header'', st)
              | Some (count, f2) \<Rightarrow> load_entries 0 count f2 st)"

lemma length_kMagic [simp]: "length kMagic = 4"
  by (simp add: kMagic_def)

section \<open>Fields are codecs\<close>

lemma length_put_le [simp]: "length (put_le w v) = w"
  by (induction w arbitrary: v) simp_all

lemma le_val_put_le: "v < 256 ^ w \<Longrightarrow> le_val (put_le w v) = v"
proof (induction w arbitrary: v)
  case (Suc w)
  then have "v div 256 < 256 ^ w" by (simp add: less_mult_imp_div_less mult.commute)
  with Suc.IH show ?case by simp
qed simp

lemma put_le_mod: "put_le w (v mod 256 ^ w) = put_le w v"
proof (induction w arbitrary: v)
  case (Suc w)
  have "v mod (256 * 256 ^ w) mod 256 = v mod 256" by (simp add: mod_mod_cancel)
  moreover have "v mod (256 * 256 ^ w) div 256 = v div 256 mod 256 ^ w"
    by (simp add: mod_mult2_eq)
  ultimately show ?case using Suc.IH [of "v div 256"] by simp
qed simp

lemma read_bytes_append: "length s = n \<Longrightarrow> read_bytes n (s @ r) = Some (s, r)"
  by (auto simp: read_bytes_def)

lemma read_bytes_short: "length s < n \<Longrightarrow> read_bytes n s = None"
  by (simp add: read_bytes_def)

lemma get_le_append: "v < 256 ^ w \<Longrightarrow> get_le w (put_le w v @ r) = Some (v, r)"
  by (simp add: get_le_def read_bytes_append le_val_put_le)

lemma get_le_short: "length s < w \<Longrightarrow> get_le w s = None"
  by (simp add: get_le_def read_bytes_short)

lemmas field_defs = put_u8_def put_u32_def put_u64_def put_i64_def get_u8_def get_u32_def get_u64_def get_i64_def

interpretation u8: codec put_u8 get_u8 "\<lambda>v. v < 2 ^ 8"
  by unfold_locales (simp_all add: field_defs get_le_append get_le_short del: One_nat_def)

interpretation u32: codec put_u32 get_u32 "\<lambda>v. v < 2 ^ 32"
  by unfold_locales (simp_all add: field_defs get_le_append get_le_short)

interpretation u64: codec put_u64 get_u64 "\<lambda>v. v < 2 ^ 64"
  by unfold_locales (simp_all add: field_defs get_le_append get_le_short)

lemma i64_two_complement:
  assumes "in_i64 v"
  shows "(if nat (v mod 2 ^ 64) < 2 ^ 63 then int (nat (v mod 2 ^ 64)) else int (nat (v mod 2 ^ 64)) - 2 ^ 64) = v"
proof (cases "0 \<le> v")
  case True
  with assms show ?thesis by (simp add: in_i64_iff nat_less_iff)
next
  case False
  with assms have "(v + 2 ^ 64) mod 2 ^ 64 = v + 2 ^ 64"
    by (intro mod_pos_pos_trivial) (simp_all add: in_i64_iff)
  then have "v mod 2 ^ 64 = v + 2 ^ 64" by simp
  with False assms show ?thesis by (simp add: in_i64_iff nat_less_iff)
qed

interpretation i64: codec put_i64 get_i64 in_i64
proof
  fix v :: int and r
  assume "in_i64 v"
  moreover have "nat (v mod 2 ^ 64) < 256 ^ 8" by (simp add: nat_less_iff)
  ultimately show "get_i64 (put_i64 v @ r) = Some (v, r)"
    using i64_two_complement [of v] by (simp add: field_defs get_le_append split: if_splits)
qed (simp add: field_defs get_le_short)

lemma get_bytes_eq: "length s < 2 ^ 32 \<Longrightarrow> length s \<le> n \<Longrightarrow> get_bytes n (put_bytes s @ r) = Some (s, r)"
  by (simp add: get_bytes_def put_bytes_def u32.dec_enc read_bytes_append)

interpretation bytes: codec put_bytes "\<lambda>f. get_bytes (length f) f" "\<lambda>s. length s < 2 ^ 32"
proof
  fix s r :: string
  assume s: "length s < 2 ^ 32"
  then show "get_bytes (length (put_bytes s @ r)) (put_bytes s @ r) = Some (s, r)"
    by (intro get_bytes_eq) (simp_all add: put_bytes_def)
  fix n
  assume n: "n < length (put_bytes s)"
  show "get_bytes (length (take n (put_bytes s))) (take n (put_bytes s)) = None"
  proof (cases "n < 4")
    case True
    then have "get_u32 (take n (put_bytes s)) = None"
      using u32.dec_torn [OF s, of n] by (simp add: put_bytes_def put_u32_def)
    then show ?thesis by (simp add: get_bytes_def)
  next
    case False
    then have "take n (put_bytes s) = put_u32 (length s) @ take (n - 4) s"
      by (simp add: put_bytes_def put_u32_def)
    moreover have "length (take (n - 4) s) < length s"
      using n False by (auto simp: put_bytes_def put_u32_def)
    ultimately show ?thesis
      using s by (simp add: get_bytes_def u32.dec_enc read_bytes_short)
  qed
qed

section \<open>Entries are codecs\<close>

definition put_ttl :: "int option \<Rightarrow> string" where
  "put_ttl at = (case at of Some a \<Rightarrow> put_u8 1 @ put_i64 a | None \<Rightarrow> put_u8 0)"

definition ttl_fits :: "int option \<Rightarrow> bool" where
  "ttl_fits at \<longleftrightarrow> (case at of Some a \<Rightarrow> in_i64 a | None \<Rightarrow> True)"

lemma length_put_bytes [simp]: "length (put_bytes s) = 4 + length s"
  by (simp add: put_bytes_def field_defs)

lemma length_fields [simp]:
  "length (put_u8 v) = 1" "length (put_u32 v) = 4" "length (put_u64 v) = 8" "length (put_i64 a) = 8"
  by (simp_all add: field_defs)

interpretation ttl_field: codec put_ttl get_ttl ttl_fits
proof
  fix at r
  assume at: "ttl_fits at"
  then show "get_ttl (put_ttl at @ r) = Some (at, r)"
    by (cases at) (simp_all add: ttl_fits_def get_ttl_def put_ttl_def u8.dec_enc i64.dec_enc)
  fix n
  assume n: "n < length (put_ttl at)"
  show "get_ttl (take n (put_ttl at)) = None"
  proof (cases at)
    case None
    with n u8.dec_torn [of 0 n] show ?thesis by (simp add: get_ttl_def put_ttl_def)
  next
    case (Some a)
    with at n show ?thesis
      unfolding Some get_ttl_def put_ttl_def option.case
      by (intro u8.bind_torn) (simp_all add: ttl_fits_def i64.dec_torn)
  qed
qed

definition tag :: "entry \<Rightarrow> nat" where
  "tag entry = (case entry of Str _ \<Rightarrow> 0 | Lst _ \<Rightarrow> 1)"

definition put_value :: "entry \<Rightarrow> string" where
  "put_value entry =
     (case entry of
        Str str \<Rightarrow> put_bytes str
      | Lst list \<Rightarrow> put_u32 (length list) @ concat (map put_bytes list))"

definition value_fits :: "entry \<Rightarrow> bool" where
  "value_fits entry \<longleftrightarrow>
     (case entry of
        Str str \<Rightarrow> length str < 2 ^ 32
      | Lst list \<Rightarrow> length list < 2 ^ 32 \<and> list_all (\<lambda>s. length s < 2 ^ 32) list)"

lemma get_value_enc: "value_fits entry \<Longrightarrow> get_value (tag entry) (put_value entry @ r) = Some (entry, r)"
  by (cases entry)
    (simp_all add: value_fits_def get_value_def tag_def put_value_def get_bytes_eq u32.dec_enc bytes.many_enc)

lemma get_value_torn:
  assumes fits: "value_fits entry" and n: "n < length (put_value entry)"
  shows "get_value (tag entry) (take n (put_value entry)) = None"
proof (cases entry)
  case (Str str)
  with assms bytes.dec_torn [of str n] show ?thesis
    by (simp add: value_fits_def get_value_def tag_def put_value_def)
next
  case (Lst list)
  with assms have "Option.bind (get_u32 (take n (put_u32 (length list) @ concat (map put_bytes list))))
      (\<lambda>(k, f1). map_option (apfst Lst) (dec_many (\<lambda>g. get_bytes (length g) g) k f1)) = None"
    by (intro u32.bind_torn) (simp_all add: value_fits_def put_value_def bytes.many_torn)
  then show ?thesis
    by (simp add: Lst get_value_def tag_def put_value_def)
qed

definition put_item :: "item \<Rightarrow> string" where
  "put_item = (\<lambda>(key, at, entry). put_u8 (tag entry) @ put_bytes key @ put_ttl at @ put_value entry)"

definition item_fits :: "item \<Rightarrow> bool" where
  "item_fits = (\<lambda>(key, at, entry). length key < 2 ^ 32 \<and> ttl_fits at \<and> value_fits entry)"

lemma tag_le: "tag entry \<le> 1" "tag entry < 2 ^ 8"
  by (simp_all add: tag_def split: entry.split)

interpretation item: codec put_item get_entry item_fits
proof
  fix it :: item and r
  obtain key at entry where it: "it = (key, at, entry)" by (cases it)
  assume fits: "item_fits it"
  then show "get_entry (put_item it @ r) = Some (it, r)"
    using tag_le [of entry]
    by (simp add: it item_fits_def get_entry_def put_item_def u8.dec_enc get_bytes_eq ttl_field.dec_enc get_value_enc)
  fix n
  assume n: "n < length (put_item it)"
  have val: "Option.bind (get_value (tag entry) (take m (put_value entry)))
      (\<lambda>(entry, f4). Some ((key, at, entry), f4)) = None" if "m < length (put_value entry)" for m
    using get_value_torn [of entry m] fits that by (simp add: it item_fits_def)
  have ttl: "Option.bind (get_ttl (take m (put_ttl at @ put_value entry))) (\<lambda>(at, f3).
      Option.bind (get_value (tag entry) f3) (\<lambda>(entry, f4). Some ((key, at, entry), f4))) = None"
    if "m < length (put_ttl at @ put_value entry)" for m
    using fits that val by (intro ttl_field.bind_torn) (simp_all add: it item_fits_def)
  have key: "Option.bind (get_bytes (length (take m (put_bytes key @ put_ttl at @ put_value entry)))
        (take m (put_bytes key @ put_ttl at @ put_value entry))) (\<lambda>(key, f2).
      Option.bind (get_ttl f2) (\<lambda>(at, f3).
      Option.bind (get_value (tag entry) f3) (\<lambda>(entry, f4). Some ((key, at, entry), f4)))) = None"
    if "m < length (put_bytes key @ put_ttl at @ put_value entry)" for m
    using fits that ttl by (intro bytes.bind_torn) (simp_all add: it item_fits_def)
  show "get_entry (take n (put_item it)) = None"
    using n tag_le [of entry] key unfolding it get_entry_def put_item_def prod.case
    by (intro u8.bind_torn) simp_all
qed

lemma save_entry_item: "save_entry e (key, entry) = put_item (key, expiry_at e key, entry)"
  by (simp add: save_entry_def put_item_def put_ttl_def put_value_def tag_def split: option.split entry.split)

section \<open>A snapshot loads back\<close>

definition items_of :: "db \<Rightarrow> expiry \<Rightarrow> item list" where
  "items_of db e = map (\<lambda>(key, entry). (key, expiry_at e key, entry)) db"

definition snapshot_fits :: "db \<Rightarrow> expiry \<Rightarrow> bool" where
  "snapshot_fits db e \<longleftrightarrow> length db < 2 ^ 64 \<and> list_all item_fits (items_of db e)"

lemma snapshot_bytes_items:
  "snapshot_bytes db e = kMagic @ put_u64 (length (items_of db e)) @ concat (map put_item (items_of db e))"
proof -
  have "save_entry e = (\<lambda>x. put_item (fst x, expiry_at e (fst x), snd x))"
    using save_entry_item [of e] by (intro ext) (metis prod.collapse)
  then show ?thesis by (simp add: snapshot_bytes_def items_of_def comp_def case_prod_beta')
qed

lemma load_entries_Some:
  "dec_many get_entry n f = Some (items, r) \<Longrightarrow> load_entries i n f st = (None, fold restore_item items st)"
proof (induction n arbitrary: i f st items)
  case (Suc n)
  then obtain it f1 its where "get_entry f = Some (it, f1)" "dec_many get_entry n f1 = Some (its, r)"
    "items = it # its"
    by (auto split: option.splits)
  with Suc.IH show ?case by simp
qed simp

lemma load_entries_None: "dec_many get_entry n f = None \<Longrightarrow> fst (load_entries i n f st) \<noteq> None"
proof (induction n arbitrary: i f st)
  case (Suc n)
  show ?case
  proof (cases "get_entry f")
    case (Some itf)
    then obtain it f1 where "get_entry f = Some (it, f1)" by (cases itf) auto
    with Suc show ?thesis by simp
  qed simp
qed simp

text \<open>Restoring items with distinct keys adds exactly their entries and deadlines.\<close>

lemma restore_items:
  assumes "expiry_wf e" and "distinct (map fst db)" and "distinct (map fst items)"
    and "fold restore_item items (db, e) = (db', e')"
  shows "map_of db' = map_of db ++ map_of (map (\<lambda>(k, at, x). (k, x)) items) \<and>
    expiry_at e' = (\<lambda>k. case map_of items k of Some (Some a, x) \<Rightarrow> Some a | _ \<Rightarrow> expiry_at e k) \<and>
    expiry_wf e' \<and> distinct (map fst db')"
  using assms
proof (induction items arbitrary: db e)
  case (Cons it items)
  obtain k at x where it: "it = (k, at, x)" by (cases it)
  define db1 where "db1 = restore_entry k x db"
  define e1 where "e1 = (case at of Some a \<Rightarrow> set_expiry k a e | None \<Rightarrow> e)"
  have e1: "expiry_wf e1" "expiry_at e1 = (case at of Some a \<Rightarrow> (expiry_at e)(k \<mapsto> a) | None \<Rightarrow> expiry_at e)"
    using Cons.prems(1) by (cases at; simp add: e1_def deadline_simps)+
  have db1: "distinct (map fst db1)" "map_of db1 = (map_of db)(k \<mapsto> x)"
    using Cons.prems(2) by (simp_all add: db1_def restore_entry_def distinct_update map_of_update)
  have k: "map_of items k = None" "map_of (map (\<lambda>(k, at, x). (k, x)) items) k = None"
    using Cons.prems(3) by (force simp: it map_of_eq_None_iff)+
  have "fold restore_item items (db1, e1) = (db', e')"
    using Cons.prems(4) by (simp add: it restore_item_def db1_def e1_def)
  from Cons.IH [OF e1(1) db1(1) _ this] Cons.prems(3)
  have IH: "map_of db' = map_of db1 ++ map_of (map (\<lambda>(k, at, x). (k, x)) items)"
    "expiry_at e' = (\<lambda>k. case map_of items k of Some (Some a, x) \<Rightarrow> Some a | _ \<Rightarrow> expiry_at e1 k)"
    "expiry_wf e'" "distinct (map fst db')"
    by auto
  have "map_of db' = map_of db ++ map_of (map (\<lambda>(k, at, x). (k, x)) (it # items))"
    using k(2) by (auto simp: IH(1) db1(2) it map_add_def fun_eq_iff split: option.split)
  moreover have "expiry_at e' = (\<lambda>k. case map_of (it # items) k of Some (Some a, x) \<Rightarrow> Some a | _ \<Rightarrow> expiry_at e k)"
    using k(1) by (auto simp: IH(2) e1(2) it fun_eq_iff split: option.split)
  ultimately show ?case using IH(3,4) by blast
qed simp

lemma load_items:
  assumes "snapshot_fits db e"
  shows "load_snapshot path (Some (snapshot_bytes db e)) st = (None, fold restore_item (items_of db e) st)"
proof -
  let ?items = "items_of db e"
  have "dec_many get_entry (length ?items) (concat (map put_item ?items)) = Some (?items, [])"
    using item.many_enc [of ?items "[]"] assms by (simp add: snapshot_fits_def)
  moreover have "length ?items < 2 ^ 64"
    using assms by (simp add: snapshot_fits_def items_of_def)
  ultimately show ?thesis
    by (simp add: load_snapshot_def snapshot_bytes_items read_bytes_append u64.dec_enc load_entries_Some)
qed

lemma load_saved:
  assumes "db_wf db" and "\<And>k. expiry_at e k \<noteq> None \<Longrightarrow> map_of db k \<noteq> None" and "snapshot_fits db e"
  shows "\<exists>db' e'. (\<forall>path. load_snapshot path (Some (snapshot_bytes db e)) ([], ExpiryManager) = (None, db', e')) \<and>
    db_wf db' \<and> map_of db' = map_of db \<and> expiry_wf e' \<and> expiry_at e' = expiry_at e"
proof -
  obtain db' e' where r: "fold restore_item (items_of db e) ([], ExpiryManager) = (db', e')" by fastforce
  have keys: "map fst (items_of db e) = map fst db" "map (\<lambda>(k, at, x). (k, x)) (items_of db e) = db"
    by (simp_all add: items_of_def case_prod_beta' comp_def)
  have dist: "distinct (map fst db)" using assms(1) by (simp add: db_wf_def)
  have items: "map_of (items_of db e) k = map_option (\<lambda>x. (expiry_at e k, x)) (map_of db k)" for k
    unfolding items_of_def by (induction db) auto
  note res = restore_items [OF expiry_wf_empty _ _ r, unfolded keys, OF _ dist]
  have "expiry_at e' = expiry_at e"
  proof
    show "expiry_at e' k = expiry_at e k" for k
      using res assms(2) [of k] by (auto simp: items split: option.splits)
  qed
  moreover have "map_of db' = map_of db" using res by simp
  moreover from this have "db_wf db'" using res assms(1) by (simp add: db_wf_iff)
  ultimately show ?thesis
    using load_items [OF assms(3)] res r by simp
qed

text \<open>
  C26. Round trip: what \<^verbatim>\<open>save_snapshot\<close> writes, \<^verbatim>\<open>load_snapshot\<close> reads back into empty tables as the same
  keyspace and the same deadlines, for every keyspace whose lengths fit the format's fields.
\<close>

theorem snapshot_roundtrip:
  assumes "db_wf db" and "\<And>k. expiry_at e k \<noteq> None \<Longrightarrow> map_of db k \<noteq> None" and "snapshot_fits db e"
    and "save_snapshot db e path True None = (None, Some bytes)"
  shows "\<exists>db' e'. load_snapshot path (Some bytes) ([], ExpiryManager) = (None, db', e') \<and>
    db_wf db' \<and> map_of db' = map_of db \<and> expiry_wf e' \<and> expiry_at e' = expiry_at e"
  using load_saved [OF assms(1-3)] assms(4) by (auto simp: save_snapshot_def)

theorem snapshot_roundtrip_witness:
  "\<exists>db' e'. load_snapshot ''s'' (Some (snapshot_bytes [(''k'', Str ''v''), (''l'', Lst [''a'', []])]
       (set_expiry ''k'' (- 5) ExpiryManager))) ([], ExpiryManager) = (None, db', e') \<and>
     map_of db' ''l'' = Some (Lst [''a'', []]) \<and> expiry_at e' ''k'' = Some (- 5)"
proof -
  let ?db = "[(''k'', Str ''v''), (''l'', Lst [''a'', []])]" and ?e = "set_expiry ''k'' (- 5) ExpiryManager"
  have e: "expiry_at ?e = [''k'' \<mapsto> - 5]"
    by (rule ext) (simp add: deadline_simps)
  have "db_wf ?db" by (simp add: db_wf_def entry_ok_def)
  moreover have "expiry_at ?e k \<noteq> None \<Longrightarrow> map_of ?db k \<noteq> None" for k
    by (simp add: e split: if_splits)
  moreover have "snapshot_fits ?db ?e"
    by (simp add: snapshot_fits_def items_of_def item_fits_def ttl_fits_def value_fits_def e i64_simps)
  moreover have "save_snapshot ?db ?e ''s'' True None = (None, Some (snapshot_bytes ?db ?e))"
    by (simp add: save_snapshot_def)
  ultimately obtain db' e' where "load_snapshot ''s'' (Some (snapshot_bytes ?db ?e)) ([], ExpiryManager) = (None, db', e')"
    "map_of db' = map_of ?db" "expiry_at e' = expiry_at ?e"
    using snapshot_roundtrip [of ?db ?e "''s''"] by blast
  then show ?thesis by (simp add: e)
qed

text \<open>
  C27. A snapshot file that was cut short at any byte is refused: loading it reports an error.
\<close>

theorem torn_snapshot_refused:
  assumes "snapshot_fits db e" and "n < length (snapshot_bytes db e)"
  shows "\<exists>err. fst (load_snapshot path (Some (take n (snapshot_bytes db e))) st) = Some err"
proof -
  let ?items = "items_of db e" and ?body = "concat (map put_item (items_of db e))"
  have len: "length ?items < 2 ^ 64"
    using assms(1) by (simp add: snapshot_fits_def items_of_def)
  consider "n < 4" | "4 \<le> n" "n < 12" | "12 \<le> n" by linarith
  then show ?thesis
  proof cases
    case 1
    then show ?thesis by (simp add: load_snapshot_def read_bytes_def snapshot_bytes_items)
  next
    case 2
    then have "take n (snapshot_bytes db e) = kMagic @ take (n - 4) (put_u64 (length ?items))"
      by (simp add: snapshot_bytes_items)
    with 2 u64.dec_torn [OF len, of "n - 4"] show ?thesis
      by (simp add: load_snapshot_def read_bytes_append)
  next
    case 3
    then have "take n (snapshot_bytes db e) = kMagic @ put_u64 (length ?items) @ take (n - 12) ?body"
      by (simp add: snapshot_bytes_items)
    moreover have "dec_many get_entry (length ?items) (take (n - 12) ?body) = None"
      using assms 3 by (intro item.many_torn) (auto simp: snapshot_fits_def snapshot_bytes_items)
    ultimately show ?thesis
      using load_entries_None len by (simp add: load_snapshot_def read_bytes_append u64.dec_enc)
  qed
qed

theorem torn_snapshot_refused_witness:
  "\<exists>err. fst (load_snapshot ''s'' (Some (take 20 (snapshot_bytes [(''k'', Str ''value'')] ExpiryManager)))
     ([], ExpiryManager)) = Some err"
proof (rule torn_snapshot_refused)
  show "snapshot_fits [(''k'', Str ''value'')] ExpiryManager"
    by (simp add: snapshot_fits_def items_of_def item_fits_def ttl_fits_def value_fits_def)
  show "20 < length (snapshot_bytes [(''k'', Str ''value'')] ExpiryManager)"
    by (simp add: snapshot_bytes_def save_entry_def)
qed

end
