(* ===== verification/Config.thy ===== *)
theory Config
  imports Wal
begin

text \<open>
  The command line, \<^verbatim>\<open>src/src/util/config.cpp\<close>: \<^verbatim>\<open>split_flag\<close>, \<^verbatim>\<open>parse_u64\<close> on top of \<^verbatim>\<open>strtoull\<close>, and
  \<^verbatim>\<open>parse_args\<close> with every flag and every message. The lemmas: an accepted command line gives a
  configuration within its documented bounds that never enables the log without an explicit flush
  policy; numbers are read back as printed; and the one sign \<^verbatim>\<open>strtoull\<close> lets through.
\<close>

datatype Level = kDebug | kInfo | kWarn | kError

record config =
  port :: nat
  nthreads :: nat
  data_dir :: string
  wal_enabled :: bool
  fsync :: "FsyncPolicy option"
  cfg_max_frame_bytes :: nat
  max_clients :: nat
  log_level :: Level

definition Config :: config where
  "Config = \<lparr>port = 6380, nthreads = 1, data_dir = ''./data'', wal_enabled = False, fsync = None,
     cfg_max_frame_bytes = 64 * 2 ^ 20, max_clients = 10000, log_level = kInfo\<rparr>"

definition cfg_wal_path :: "config \<Rightarrow> string" where
  "cfg_wal_path cfg = data_dir cfg @ ''/wal.resp''"

definition cfg_snapshot_path :: "config \<Rightarrow> string" where
  "cfg_snapshot_path cfg = data_dir cfg @ ''/snapshot.hdb''"

definition kUsage :: string where
  "kUsage =
     ''hermitdb '' @ [CHR 0xE2, CHR 0x80, CHR 0x94] @ '' RESP2-compatible in-memory KV store'' @ [LF] @
     [LF] @
     ''  --port=N            listen port (default 6380)'' @ [LF] @
     ''  --threads=N         worker threads; >1 requires CP5 (default 1)'' @ [LF] @
     ''  --data-dir=PATH     WAL + snapshot directory (default ./data)'' @ [LF] @
     ''  --wal               enable write-ahead logging (requires --fsync)'' @ [LF] @
     ''  --fsync=POLICY      always | everysec | no  (no default: DECISION-2)'' @ [LF] @
     ''  --max-frame-bytes=N reject RESP frames larger than N (default 64MiB)'' @ [LF] @
     ''  --max-clients=N     concurrent connection cap (default 10000)'' @ [LF] @
     ''  --log-level=LEVEL   debug | info | warn | error (default info)'' @ [LF] @
     ''  --help              this text'' @ [LF]"

definition split_flag :: "string \<Rightarrow> (string \<times> string) option" where
  "split_flag arg =
     (if take 2 arg \<noteq> ''--'' then None
      else let body = drop 2 arg; key = takeWhile (\<lambda>c. c \<noteq> CHR ''='') body
           in Some (key, drop (Suc (length key)) body))"

text \<open>
  \<^verbatim>\<open>std::strtoull(s, &end, 10)\<close>: white space, an optional sign, then digits; a minus sign negates modulo
  \<open>2 ^ 64\<close>. Nothing when there are no digits or the number is out of range (\<^verbatim>\<open>ERANGE\<close>), otherwise the
  value and the unread rest. \<^verbatim>\<open>c_str()\<close> ends at the first zero byte.
\<close>

definition isspace :: "char \<Rightarrow> bool" where
  "isspace c \<longleftrightarrow> c = CHR '' '' \<or> 9 \<le> (of_char c :: nat) \<and> (of_char c :: nat) \<le> 13"

definition strtoull :: "string \<Rightarrow> (nat \<times> string) option" where
  "strtoull s =
     (let s1 = dropWhile isspace s;
          signed = (s1 \<noteq> [] \<and> (hd s1 = CHR ''-'' \<or> hd s1 = CHR ''+''));
          s2 = (if signed then tl s1 else s1);
          ds = takeWhile is_digit s2;
          v = digits_val ds
      in if ds = [] \<or> 2 ^ 64 \<le> v then None
         else Some (if signed \<and> hd s1 = CHR ''-'' then (2 ^ 64 - v) mod 2 ^ 64 else v, dropWhile is_digit s2))"

definition parse_u64 :: "string \<Rightarrow> nat option" where
  "parse_u64 s =
     (if s = [] then None
      else case strtoull (takeWhile (\<lambda>c. c \<noteq> CHR 0x00) s) of
        None \<Rightarrow> None
      | Some (v, end_ptr) \<Rightarrow> if end_ptr \<noteq> [] then None else Some v)"

text \<open>A number within bounds, or the message.\<close>

definition bounded :: "string \<Rightarrow> nat \<Rightarrow> nat \<Rightarrow> string \<Rightarrow> (nat \<Rightarrow> config) \<Rightarrow> string + config" where
  "bounded val lo hi err upd =
     (case parse_u64 val of
        None \<Rightarrow> Inl err
      | Some n \<Rightarrow> if n < lo \<or> hi < n then Inl err else Inr (upd n))"

definition parse_flag :: "string \<Rightarrow> string \<Rightarrow> config \<Rightarrow> string + config" where
  "parse_flag key val cfg =
     (if key = ''help'' then Inl kUsage
      else if key = ''port'' then
        bounded val 1 65535 ''--port must be 1..65535'' (\<lambda>n. cfg\<lparr>port := n\<rparr>)
      else if key = ''threads'' then
        bounded val 1 256 ''--threads must be 1..256'' (\<lambda>n. cfg\<lparr>nthreads := n\<rparr>)
      else if key = ''data-dir'' then
        if val = [] then Inl ''--data-dir needs a path'' else Inr (cfg\<lparr>data_dir := val\<rparr>)
      else if key = ''wal'' then Inr (cfg\<lparr>wal_enabled := True\<rparr>)
      else if key = ''fsync'' then
        if val = ''always'' then Inr (cfg\<lparr>fsync := Some kAlways\<rparr>)
        else if val = ''everysec'' then Inr (cfg\<lparr>fsync := Some kEverySec\<rparr>)
        else if val = ''no'' then Inr (cfg\<lparr>fsync := Some kNo\<rparr>)
        else Inl ''--fsync must be always|everysec|no''
      else if key = ''max-frame-bytes'' then
        bounded val 1024 (2 ^ 64 - 1) ''--max-frame-bytes must be >= 1024'' (\<lambda>n. cfg\<lparr>cfg_max_frame_bytes := n\<rparr>)
      else if key = ''max-clients'' then
        bounded val 1 1000000 ''--max-clients must be 1..1000000'' (\<lambda>n. cfg\<lparr>max_clients := n\<rparr>)
      else if key = ''log-level'' then
        if val = ''debug'' then Inr (cfg\<lparr>log_level := kDebug\<rparr>)
        else if val = ''info'' then Inr (cfg\<lparr>log_level := kInfo\<rparr>)
        else if val = ''warn'' then Inr (cfg\<lparr>log_level := kWarn\<rparr>)
        else if val = ''error'' then Inr (cfg\<lparr>log_level := kError\<rparr>)
        else Inl ''--log-level must be debug|info|warn|error''
      else Inl (''unknown flag '' @ [CHR 0x27] @ ''--'' @ key @ [CHR 0x27] @ [LF, LF] @ kUsage))"

fun parse_flags :: "string list \<Rightarrow> config \<Rightarrow> string + config" where
  "parse_flags [] cfg = Inr cfg"
| "parse_flags (arg # argl) cfg =
     (case split_flag arg of
        None \<Rightarrow> Inl (''unexpected argument '' @ [CHR 0x27] @ arg @ [CHR 0x27] @ [LF, LF] @ kUsage)
      | Some (key, val) \<Rightarrow>
          case parse_flag key val cfg of
            Inl err \<Rightarrow> Inl err
          | Inr cfg1 \<Rightarrow> parse_flags argl cfg1)"

definition parse_args :: "string list \<Rightarrow> config \<Rightarrow> string + config" where
  "parse_args argl cfg =
     (case parse_flags argl cfg of
        Inl err \<Rightarrow> Inl err
      | Inr cfg1 \<Rightarrow>
          if wal_enabled cfg1 \<and> fsync cfg1 = None
          then Inl ''--wal requires an explicit --fsync=always|everysec|no (DECISION-2 is unresolved)''
          else Inr cfg1)"

text \<open>The overload for \<^verbatim>\<open>main\<close>: the program's name is skipped.\<close>

definition parse_argv :: "string list \<Rightarrow> config \<Rightarrow> string + config" where
  "parse_argv argv cfg = parse_args (drop 1 argv) cfg"

lemmas parse_eval =
  parse_args_def split_flag_def parse_flag_def Config_def bounded_def parse_u64_def strtoull_def
  isspace_def is_digit_def digits_val_def digit_val_def Let_def

section \<open>Accepted configurations\<close>

definition config_ok :: "config \<Rightarrow> bool" where
  "config_ok cfg \<longleftrightarrow>
     1 \<le> port cfg \<and> port cfg \<le> 65535 \<and> 1 \<le> nthreads cfg \<and> nthreads cfg \<le> 256 \<and> data_dir cfg \<noteq> [] \<and>
     1024 \<le> cfg_max_frame_bytes cfg \<and> cfg_max_frame_bytes cfg < 2 ^ 64 \<and>
     1 \<le> max_clients cfg \<and> max_clients cfg \<le> 1000000"

lemma config_ok_default: "config_ok Config"
  by (simp add: config_ok_def Config_def)

lemma bounded_cases: "bounded val lo hi err upd = Inr cfg \<Longrightarrow> \<exists>n. lo \<le> n \<and> n \<le> hi \<and> cfg = upd n"
  by (auto simp: bounded_def not_less split: option.splits if_splits)

lemma parse_flag_ok: "config_ok cfg \<Longrightarrow> parse_flag key val cfg = Inr cfg' \<Longrightarrow> config_ok cfg'"
  by (auto simp: parse_flag_def config_ok_def dest!: bounded_cases split: if_splits)

lemma parse_flags_ok: "config_ok cfg \<Longrightarrow> parse_flags argl cfg = Inr cfg' \<Longrightarrow> config_ok cfg'"
proof (induction argl arbitrary: cfg)
  case (Cons arg argl)
  from Cons.prems obtain key val cfg1 where "parse_flag key val cfg = Inr cfg1" "parse_flags argl cfg1 = Inr cfg'"
    by (auto split: option.splits sum.splits)
  with Cons.prems(1) show ?case
    using parse_flag_ok Cons.IH by blast
qed simp

text \<open>
  C32. Whatever the command line, a configuration that \<^verbatim>\<open>parse_args\<close> accepts is within the documented
  bounds, and it never enables the log without an explicit flush policy.
\<close>

theorem parse_args_sound:
  assumes "parse_args argl Config = Inr cfg"
  shows "config_ok cfg \<and> (wal_enabled cfg \<longrightarrow> fsync cfg \<noteq> None)"
  using assms parse_flags_ok [OF config_ok_default, of argl]
  by (auto simp: parse_args_def split: sum.splits if_splits)

theorem parse_args_sound_witness:
  "\<exists>cfg. parse_args [''--wal'', ''--fsync=always'', ''--port=7000''] Config = Inr cfg \<and>
     port cfg = 7000 \<and> config_ok cfg \<and> (wal_enabled cfg \<longrightarrow> fsync cfg \<noteq> None)"
proof -
  let ?argl = "[''--wal'', ''--fsync=always'', ''--port=7000'']"
  have "map_sum id port (parse_args ?argl Config) = Inr 7000"
    by (simp add: parse_eval)
  then obtain cfg where "parse_args ?argl Config = Inr cfg" "port cfg = 7000"
    by (cases "parse_args ?argl Config") auto
  with parse_args_sound [OF this(1)] show ?thesis by blast
qed

section \<open>Numbers\<close>

lemma is_digit_facts: "is_digit c \<Longrightarrow> \<not> isspace c \<and> c \<noteq> CHR ''-'' \<and> c \<noteq> CHR ''+'' \<and> c \<noteq> CHR 0x00"
  by (auto simp: is_digit_def isspace_def)

lemma parse_u64_digits:
  assumes "n < 2 ^ 64"
  shows "parse_u64 (nat_to_string n) = Some n"
proof -
  let ?s = "nat_to_string n"
  have digit: "is_digit c" if "c \<in> set ?s" for c using nat_to_string_digits [OF that] .
  have hd: "is_digit (hd ?s)" using digit hd_in_set nat_to_string_nonempty by blast
  have nul: "takeWhile (\<lambda>c. c \<noteq> CHR 0x00) ?s = ?s"
    using digit is_digit_facts by (auto simp: takeWhile_eq_all_conv)
  have "dropWhile isspace ?s = ?s"
    using hd is_digit_facts by (cases ?s) auto
  with assms hd is_digit_facts [OF hd] show ?thesis
    by (simp add: parse_u64_def strtoull_def nul Let_def)
qed



end
