(* ===== verification/Server.thy ===== *)
theory Server
  imports Recovery Snapshot Config
begin

text \<open>
  The server process, \<^verbatim>\<open>src/src/main.cpp\<close>: the command handler and the periodic tick it installs in the
  event loop, and the boot sequence (snapshot, then log replay, then the log is armed). A life of a
  server is any interleaving of commands, ticks and restarts. The lemmas: no step faults, the
  keyspace invariant holds in every life, and a restart restores the state the log describes.
\<close>

section \<open>Handler and tick\<close>

text \<open>The lambda given to \<^verbatim>\<open>set_handler\<close>: the reply, and whether the loop is told to stop.\<close>

definition handle_command :: "command \<Rightarrow> server \<Rightarrow> ((string \<times> bool) \<times> server) result" where
  "handle_command cmd s =
     bind_res (execute cmd s) (\<lambda>(reply, s1). Inr ((reply, shutdown s1), s1))"

text \<open>The second half of the tick: the deferred flush.\<close>

definition tick_flush :: "server \<Rightarrow> server" where
  "tick_flush s =
     (case wal s of
        None \<Rightarrow> s
      | Some w \<Rightarrow>
          if persistence_failed s then s
          else let (now, s1) = now_ms s; (st, w') = tick_fsync now w; s2 = s1\<lparr>wal := Some w'\<rparr>
               in if st \<noteq> kOk then report_persistence_failure s2 else s2)"

text \<open>
  The lambda given to \<^verbatim>\<open>add_tick\<close>: an active expiry cycle of 1000 microseconds, the flush, and whether
  the loop is told to stop. No value is a tick that does not return.
\<close>

definition tick :: "clock \<Rightarrow> rng \<Rightarrow> server \<Rightarrow> (bool \<times> server) option" where
  "tick micros rng s =
     map_option
       (\<lambda>(stats, c, rng1, e, s1). let s2 = tick_flush (s1\<lparr>clk := c, ttl := e\<rparr>) in (persistence_failed s2, s2))
       (active_cycle (Some evict_hook) 1000 micros rng (clk s, ttl s, s))"

section \<open>Boot\<close>

text \<open>
  What the process finds on disk, and how the system will answer its calls: whether the data
  directory can be created, the snapshot if one exists, the log file if one exists, its durable part
  and the outcomes of the calls on it.
\<close>

record disk =
  dir_ok :: bool
  snapshot_file :: "string option"
  log_file :: "string option"
  log_synced :: string
  log_io :: "io list"

datatype boot_outcome = Refused string | Serving server

definition load_baseline :: "config \<Rightarrow> disk \<Rightarrow> server \<Rightarrow> string + server" where
  "load_baseline cfg d s =
     (case snapshot_file d of
        None \<Rightarrow> Inr s
      | Some f \<Rightarrow>
          case load_snapshot (cfg_snapshot_path cfg) (Some f) (db s, ttl s) of
            (Some serr, m, e) \<Rightarrow> Inl (''snapshot load failed: '' @ serr)
          | (None, m, e) \<Rightarrow> Inr (s\<lparr>db := m, ttl := e\<rparr>))"

definition recover_log :: "wal \<Rightarrow> server \<Rightarrow> boot_outcome result" where
  "recover_log w s =
     (let (st, w1, r) = replay recover_cmd w (Inr s)
      in bind_res r (\<lambda>s1.
           if st = kCorrupt then Inr (Refused ''wal is corrupt: refusing to start with a guessed state'')
           else if st \<noteq> kOk then Inr (Refused ''wal replay failed'')
           else let (st2, w2) = open_for_append w1
                in if st2 \<noteq> kOk then Inr (Refused []) else Inr (Serving (s1\<lparr>wal := Some w2\<rparr>))))"

definition boot :: "config \<Rightarrow> clock \<Rightarrow> disk \<Rightarrow> boot_outcome result" where
  "boot cfg c d =
     (let s = CommandDispatcher c
      in if \<not> wal_enabled cfg then Inr (Serving s)
         else if \<not> dir_ok d then Inr (Refused (''cannot create data dir '' @ data_dir cfg))
         else case load_baseline cfg d s of
           Inl err \<Rightarrow> Inr (Refused err)
         | Inr s1 \<Rightarrow>
             case fsync cfg of
               None \<Rightarrow> Inl Bad_optional_access
             | Some pol \<Rightarrow> recover_log (Wal (cfg_wal_path cfg) pol (log_file d) (log_synced d) (log_io d)) s1)"

text \<open>The exit code once the loop has returned.\<close>

datatype LoopStatus = kStopped | kFatalError | kLoopNotImplemented

definition exit_code :: "LoopStatus \<Rightarrow> server \<Rightarrow> int" where
  "exit_code st s =
     (case st of
        kStopped \<Rightarrow> if persistence_failed s then 1 else 0
      | kLoopNotImplemented \<Rightarrow> 1
      | kFatalError \<Rightarrow> 1)"

section \<open>Ticks are evictions\<close>

lemma fold_evict_hook_fields [simp]:
  "ttl (fold evict_hook ks s) = ttl s" "clk (fold evict_hook ks s) = clk s"
  by (induction ks arbitrary: s) simp_all

lemma appended_evict_hook: "appended s [[''DEL'', k]] (evict_hook k s)"
  using appended_trans [OF appended_same appended_put_record, of "s\<lparr>db := snd (db_del k (db s))\<rparr>" s]
  by (simp add: evict_hook_def)

lemma appended_fold_evict_hook: "appended s (del_recs ks) (fold evict_hook ks s)"
proof (induction ks arbitrary: s)
  case (Cons k ks)
  from appended_trans [OF appended_evict_hook Cons.IH] show ?case by (simp add: del_recs_def)
qed (simp add: appended_refl del_recs_def)

lemma fold_evict_hook_db:
  "db_wf (db s) \<Longrightarrow> db_wf (db (fold evict_hook ks s)) \<and>
     map_of (db (fold evict_hook ks s)) = map_of (db s) |` (- set ks)"
proof (induction ks arbitrary: s)
  case (Cons k ks)
  with Cons.IH [of "evict_hook k s"] show ?case
    by (auto simp: db_wf_del restrict_map_def fun_eq_iff)
qed simp

lemma run_hook_evict [simp]: "run_hook (Some evict_hook) = evict_hook"
  by (simp add: run_hook_def fun_eq_iff)

lemma active_cycle_evicted:
  assumes "server_wf s" and "rng_in_range rng"
  shows "\<exists>st c rng' e s1 ks. active_cycle (Some evict_hook) budget micros rng (clk s, ttl s, s) =
      Some (st, c, rng', e, s1) \<and> evicted s ks (s1\<lparr>clk := c, ttl := e\<rparr>)"
proof -
  obtain st n rng' e s1 ks where run:
    "active_cycle (Some evict_hook) budget micros rng (clk s, ttl s, s) = Some (st, \<lambda>i. clk s (i + n), rng', e, s1)"
    "evictions (Some evict_hook) (clk s 0) ks (ttl s, s) (e, s1)"
    using active_cycle_evicts [OF server_wfD(2) [OF assms(1)] assms(2), of "Some evict_hook" budget micros "clk s" s] by blast
  note eff = evictions_effect [OF run(2) server_wfD(2) [OF assms(1)], simplified]
  let ?s' = "s1\<lparr>clk := \<lambda>i. clk s (i + n), ttl := e\<rparr>"
  have s1: "s1 = fold evict_hook ks s" using eff by blast
  note f = fold_evict_hook_db [OF server_wfD(1) [OF assms(1)], of ks, folded s1]
  have "server_wf ?s'" "view ?s' = vdel ks (view s)"
    using assms(1) eff f by (auto simp: server_wf_def view_def vdel_def restrict_map_def split: if_splits)
  moreover have "appended s (del_recs ks) ?s'"
    by (rule appended_frame [OF appended_fold_evict_hook]) (simp_all add: s1)
  moreover have "\<forall>k \<in> set ks. \<exists>t i. snd (view s) k = Some t \<and> t \<le> clk s i"
    using eff by (auto simp: view_def)
  ultimately have "evicted s ks ?s'"
    unfolding evicted_def by auto
  with run(1) show ?thesis by blast
qed

lemma redone_evicted: "evicted s ks s' \<Longrightarrow> redone s s'"
  by (rule redoneI [of s "del_recs ks"]) (simp_all add: evicted_def replays_del_recs log_record_del_recs)

lemma tick_fsync_grown: "tick_fsync now w = (st, w') \<Longrightarrow> grown [] w w'"
  using fsync_now_cases [of w]
  by (auto simp: tick_fsync_def grown_def Let_def split: if_splits prod.splits)

lemma tick_flush_effect: "view (tick_flush s) = view s \<and> server_wf (tick_flush s) = server_wf s \<and> redone s (tick_flush s)"
proof (cases "wal s = None \<or> persistence_failed s")
  case True
  then have "tick_flush s = s" by (auto simp: tick_flush_def split: option.split)
  then show ?thesis by (simp add: redone_same)
next
  case False
  then obtain w where w: "wal s = Some w" "\<not> persistence_failed s" by auto
  obtain st w' where t: "tick_fsync (clk s 0) w = (st, w')" by fastforce
  define s2 where "s2 = s\<lparr>clk := (\<lambda>i. clk s (Suc i)), wal := Some w'\<rparr>"
  have flush: "tick_flush s = (if st \<noteq> kOk then report_persistence_failure s2 else s2)"
    using w t by (simp add: tick_flush_def now_ms_eq s2_def)
  have v: "view (tick_flush s) = view s" "server_wf (tick_flush s) = server_wf s"
    by (simp_all add: flush s2_def report_persistence_failure_def)
  have "appended s [] (tick_flush s)"
    using w tick_fsync_grown [OF t] by (simp add: appended_def flush s2_def report_persistence_failure_def)
  then have "redone s (tick_flush s)"
    by (rule redoneI) (simp_all add: v replays_Nil)
  with v show ?thesis by blast
qed

text \<open>A tick returns, keeps the invariant and only evicts keys whose deadline a reading has reached.\<close>

lemma tick_effect:
  assumes "server_wf s" and "rng_in_range rng"
  shows "\<exists>s' ks. tick micros rng s = Some (persistence_failed s', s') \<and> server_wf s' \<and> redone s s' \<and>
     view s' = vdel ks (view s) \<and> (\<forall>k \<in> set ks. \<exists>t i. snd (view s) k = Some t \<and> t \<le> clk s i)"
proof -
  obtain st c rng' e s1 ks where run:
    "active_cycle (Some evict_hook) 1000 micros rng (clk s, ttl s, s) = Some (st, c, rng', e, s1)"
    and ev: "evicted s ks (s1\<lparr>clk := c, ttl := e\<rparr>)"
    using active_cycle_evicted [OF assms] by blast
  let ?m = "s1\<lparr>clk := c, ttl := e\<rparr>"
  note fl = tick_flush_effect [of ?m]
  have "tick micros rng s = Some (persistence_failed (tick_flush ?m), tick_flush ?m)"
    by (simp add: tick_def run Let_def)
  moreover have "redone s (tick_flush ?m)"
    using redone_trans [OF redone_evicted [OF ev]] fl by blast
  ultimately show ?thesis
    using ev fl unfolding evicted_def by (intro exI [of _ "tick_flush ?m"] exI [of _ ks]) auto
qed

section \<open>Lives\<close>

text \<open>What the event loop does to the server: a command from some client, or a tick.\<close>

inductive sys_step :: "server \<Rightarrow> server \<Rightarrow> bool" where
  command: "handle_command cmd s = Inr (r, s') \<Longrightarrow> sys_step s s'"
| tick: "rng_in_range rng \<Longrightarrow> tick micros rng s = Some (b, s') \<Longrightarrow> sys_step s s'"

inductive sys_run :: "server \<Rightarrow> server \<Rightarrow> bool" where
  stay: "sys_run s s"
| go: "sys_run s s1 \<Longrightarrow> sys_step s1 s2 \<Longrightarrow> sys_run s s2"

lemma handle_command_execute: "handle_command cmd s = Inr (r, s') \<Longrightarrow> execute cmd s = Inr (fst r, s')"
  by (auto simp: handle_command_def bind_res_Inr_iff)

lemma sys_step_effect:
  assumes "sys_step s s'" and "server_wf s"
  shows "server_wf s' \<and> redone s s'"
  using assms
proof cases
  case (command cmd r)
  note run = handle_command_execute [OF command]
  from dispatcher.step_inv [OF assms(2) run] execute_redone [OF assms(2) run] show ?thesis ..
next
  case (tick rng micros b)
  with tick_effect [OF assms(2) tick(1), of micros] show ?thesis by auto
qed

lemma sys_run_effect: "sys_run s s' \<Longrightarrow> server_wf s \<Longrightarrow> server_wf s' \<and> redone s s'"
proof (induction rule: sys_run.induct)
  case (go s s1 s2)
  then show ?case
    using sys_step_effect redone_trans by blast
qed (simp add: redone_same)

text \<open>
  The log is complete: it holds some records, and replaying them before the earliest deadline they
  name leads from nothing to the state. Once persistence has failed nothing is claimed.
\<close>

definition logged :: "server \<Rightarrow> command list \<Rightarrow> bool" where
  "logged s recs \<longleftrightarrow>
     (\<exists>w. wal s = Some w \<and>
        (persistence_failed s \<or>
         contents w = encode_all recs \<and> list_all log_record recs \<and>
         (\<forall>T. deadlines_from T recs \<longrightarrow> replays T recs (Map.empty, Map.empty) (view s))))"

lemma logged_redone:
  assumes "logged s recs" and "redone s s'"
  shows "\<exists>recs'. logged s' recs'"
proof -
  obtain new where new: "appended s new s'" "list_all log_record new"
    "\<not> persistence_failed s' \<Longrightarrow> wal s \<noteq> None \<Longrightarrow> deadlines_from T new \<Longrightarrow> replays T new (view s) (view s')" for T
    using assms(2) unfolding redone_def by blast
  obtain w where w: "wal s = Some w" using assms(1) unfolding logged_def by blast
  then obtain w' where w': "wal s' = Some w'"
    using new(1) by (auto simp: appended_def split: option.splits)
  show ?thesis
  proof (cases "persistence_failed s'")
    case True
    with w' show ?thesis by (auto simp: logged_def)
  next
    case False
    with new(1) w w' have "\<not> persistence_failed s" "grown new w w'"
      by (auto simp: appended_def)
    with assms(1) w have old: "contents w' = encode_all (recs @ new)" "list_all log_record (recs @ new)"
      "deadlines_from T recs \<Longrightarrow> replays T recs (Map.empty, Map.empty) (view s)" for T
      using new(2) by (auto simp: logged_def grown_def)
    have "replays T (recs @ new) (Map.empty, Map.empty) (view s')" if "deadlines_from T (recs @ new)" for T
      using that replays_append [OF old(3) new(3)] False w by simp
    with old(1,2) w' show ?thesis
      unfolding logged_def by (intro exI [of _ "recs @ new"]) blast
  qed
qed

section \<open>Recovery\<close>

lemma ready_start: "\<forall>i. c i < T \<Longrightarrow> ready T (CommandDispatcher c)"
  by (simp add: ready_def) (simp add: CommandDispatcher_def)

lemma open_for_append_ok:
  assumes "list_all (\<lambda>r. \<not> failed r) (io w)"
  shows "\<exists>w'. open_for_append w = (kOk, w') \<and> contents w' = contents w"
proof -
  obtain r w1 where r: "next_io w = (r, w1)" by fastforce
  with next_io_ok [OF assms r] next_io_same [OF r] show ?thesis
    by (auto simp: open_for_append_def)
qed

lemma whole_records_append:
  "whole_records (length (encode_all recs) + n) (recs @ later) = length recs + whole_records n later"
  by (induction recs) simp_all

lemma recover_log_fold:
  assumes f: "logfile w = Some (take n (encode_all cmds))" and fits: "list_all (cmd_fits kReplayFrameCap) cmds"
    and io: "list_all (\<lambda>r. \<not> failed r) (io w)"
    and redo: "fold recover_cmd (take (whole_records n cmds) cmds) (Inr s) = Inr t"
  shows "\<exists>w'. recover_log w s = Inr (Serving (t\<lparr>wal := Some w'\<rparr>)) \<and>
     contents w' = encode_all (take (whole_records n cmds) cmds)"
proof -
  obtain st w1 r where run: "replay recover_cmd w (Inr s) = (st, w1, r)"
    by (cases "replay recover_cmd w (Inr s)") auto
  note io1 = replay_no_error [OF io run]
  note res = replay_torn [OF f fits run conjunct1 [OF io1]]
  obtain w2 where w2: "open_for_append w1 = (kOk, w2)" "contents w2 = contents w1"
    using open_for_append_ok io1 by blast
  have "recover_log w s = Inr (Serving (t\<lparr>wal := Some w2\<rparr>))"
    using run res redo w2(1) by (simp add: recover_log_def)
  with w2(2) res show ?thesis
    by (intro exI [of _ w2]) (simp add: contents_def)
qed

text \<open>Replay of a log that a kill left, on top of any state.\<close>

lemma recover_log_torn:
  assumes "n < length (encode cmd)" and "logfile w = Some (encode_all recs @ take n (encode cmd))"
    and "list_all (\<lambda>r. \<not> failed r) (io w)" and "list_all (cmd_fits kReplayFrameCap) (recs @ [cmd])"
    and "fold recover_cmd recs (Inr s) = Inr t"
  shows "\<exists>w'. recover_log w s = Inr (Serving (t\<lparr>wal := Some w'\<rparr>)) \<and> contents w' = encode_all recs"
proof -
  let ?n = "length (encode_all recs) + n"
  have whole: "take (whole_records ?n (recs @ [cmd])) (recs @ [cmd]) = recs"
    using assms(1) by (simp add: whole_records_append)
  have "logfile w = Some (take ?n (encode_all (recs @ [cmd])))" using assms(2) by simp
  from recover_log_fold [OF this assms(4,3), of s t, unfolded whole] assms(5) show ?thesis by blast
qed

text \<open>The disk a crash leaves: the log of \<open>s\<close>, and some bytes of the record being appended.\<close>

definition crash_disk :: "server \<Rightarrow> command \<Rightarrow> disk \<Rightarrow> bool" where
  "crash_disk s cmd d \<longleftrightarrow>
     dir_ok d \<and> snapshot_file d = None \<and> list_all (\<lambda>r. \<not> failed r) (log_io d) \<and>
     cmd_fits kReplayFrameCap cmd \<and>
     (\<exists>w n. wal s = Some w \<and> n < length (encode cmd) \<and> log_file d = Some (contents w @ take n (encode cmd)))"

lemma boot_replays:
  assumes cfg: "wal_enabled cfg" "fsync cfg = Some pol" and w: "wal s = Some w" "contents w = encode_all recs"
    and crash: "crash_disk s cmd d" and fits: "list_all (cmd_fits kReplayFrameCap) recs"
    and redo: "fold recover_cmd recs (Inr (CommandDispatcher c)) = Inr t"
  shows "\<exists>w'. boot cfg c d = Inr (Serving (t\<lparr>wal := Some w'\<rparr>)) \<and> contents w' = encode_all recs"
proof -
  let ?w = "Wal (cfg_wal_path cfg) pol (log_file d) (log_synced d) (log_io d)"
  obtain n where n: "n < length (encode cmd)" "logfile ?w = Some (encode_all recs @ take n (encode cmd))"
    using crash w unfolding crash_disk_def by (auto simp: Wal_def)
  have "list_all (\<lambda>r. \<not> failed r) (io ?w)" "list_all (cmd_fits kReplayFrameCap) (recs @ [cmd])"
    using crash fits by (simp_all add: crash_disk_def Wal_def)
  from recover_log_torn [OF n this redo] cfg crash show ?thesis
    by (simp add: boot_def load_baseline_def crash_disk_def)
qed

lemma boot_restores:
  assumes cfg: "wal_enabled cfg" "fsync cfg = Some pol" and log: "logged s recs" and ok: "\<not> persistence_failed s"
    and crash: "crash_disk s cmd d" and fits: "list_all (cmd_fits kReplayFrameCap) recs"
    and T: "deadlines_from T recs" "\<And>i. c i < T"
  shows "\<exists>s'. boot cfg c d = Inr (Serving s') \<and> view s' = view s \<and> server_wf s' \<and> logged s' recs"
proof -
  obtain w where w: "wal s = Some w" "contents w = encode_all recs"
    using log ok unfolding logged_def by blast
  have "replays T recs (view (CommandDispatcher c)) (view s)"
    using log ok T(1) by (auto simp: logged_def)
  then obtain t where t: "fold recover_cmd recs (Inr (CommandDispatcher c)) = Inr t" "ready T t" "view t = view s"
    using ready_start [of c T] T(2) unfolding replays_def by blast
  from boot_replays [OF cfg w crash fits t(1)] obtain w' where
    w': "boot cfg c d = Inr (Serving (t\<lparr>wal := Some w'\<rparr>))" "contents w' = encode_all recs"
    by blast
  have "logged (t\<lparr>wal := Some w'\<rparr>) recs"
    using log ok t(2,3) w'(2) by (auto simp: logged_def)
  with w'(1) t(2,3) show ?thesis by (auto simp: ready_def)
qed

text \<open>
  A life: a first boot on an empty directory, then commands and ticks in any order, and crashes
  followed by a restart that comes before any deadline the log names.
\<close>

inductive life :: "config \<Rightarrow> server \<Rightarrow> bool" for cfg where
  fresh: "boot cfg c d = Inr (Serving s) \<Longrightarrow> snapshot_file d = None \<Longrightarrow> log_file d = None \<Longrightarrow> life cfg s"
| step: "life cfg s \<Longrightarrow> sys_step s s' \<Longrightarrow> life cfg s'"
| restart: "life cfg s \<Longrightarrow> \<not> persistence_failed s \<Longrightarrow> crash_disk s cmd d \<Longrightarrow>
    wal s = Some w \<Longrightarrow> contents w = encode_all recs \<Longrightarrow> list_all (cmd_fits kReplayFrameCap) recs \<Longrightarrow>
    deadlines_from T recs \<Longrightarrow> (\<And>i. c i < T) \<Longrightarrow> boot cfg c d = Inr (Serving s') \<Longrightarrow> life cfg s'"

lemma boot_fresh:
  assumes "boot cfg c d = Inr (Serving s)" and "snapshot_file d = None" and "log_file d = None"
  shows "server_wf s" and "view s = (Map.empty, Map.empty)" and "\<not> persistence_failed s"
    and "wal_enabled cfg \<Longrightarrow> logged s [] \<and> fsync cfg \<noteq> None"
    and "wal s = Some w \<Longrightarrow> contents w = []"
proof -
  have start: "wal (CommandDispatcher c) = None" "\<not> persistence_failed (CommandDispatcher c)"
    by (simp_all add: CommandDispatcher_def)
  have "(\<not> wal_enabled cfg \<and> s = CommandDispatcher c) \<or>
      (\<exists>w. s = (CommandDispatcher c)\<lparr>wal := Some w\<rparr> \<and> contents w = [] \<and> fsync cfg \<noteq> None)"
    using assms
    by (auto simp: boot_def load_baseline_def recover_log_def replay_def Wal_def open_for_append_def
        next_io_def contents_def Let_def split: if_splits option.splits list.splits prod.splits)
  then show "server_wf s" "view s = (Map.empty, Map.empty)" "\<not> persistence_failed s"
    "wal_enabled cfg \<Longrightarrow> logged s [] \<and> fsync cfg \<noteq> None" "wal s = Some w \<Longrightarrow> contents w = []"
    using start by (auto simp: logged_def replays_Nil)
qed

lemma life_logged:
  "life cfg s \<Longrightarrow> server_wf s \<and> (wal_enabled cfg \<longrightarrow> (\<exists>recs. logged s recs) \<and> fsync cfg \<noteq> None)"
proof (induction rule: life.induct)
  case (fresh c d s)
  with boot_fresh [OF fresh] show ?case by blast
next
  case (step s s')
  then show ?case
    using sys_step_effect [OF step.hyps(2)] logged_redone by blast
next
  case (restart s cmd d w recs T c s')
  show ?case
  proof (cases "wal_enabled cfg")
    case True
    with restart.IH obtain recs' pol where log: "logged s recs'" and pol: "fsync cfg = Some pol" by auto
    then have "recs' = recs"
      using restart.hyps(2,4,5) by (auto simp: logged_def intro: encode_all_inject)
    with boot_restores [OF True pol log restart.hyps(2,3)] restart.hyps(6-9) pol show ?thesis
      by (metis boot_outcome.inject(2) option.distinct(1) sum.inject(2))
  next
    case False
    with restart.hyps(9) show ?thesis by (auto simp: boot_def)
  qed
qed

text \<open>
  C2. Crash recovery. In every life of a server with the log enabled (any commands, ticks, earlier
  crashes), as long as no log write has failed: the log is whole records, and if the process dies,
  even halfway through appending one more record, a restart on that log serves exactly the same
  keys, values and deadlines. The restart has to come before any deadline recorded in the log, and
  the records have to fit the replay parser's limits.
\<close>

theorem crash_recovery:
  assumes "life cfg s" and "wal_enabled cfg" and "\<not> persistence_failed s"
  shows "\<exists>recs w. wal s = Some w \<and> contents w = encode_all recs \<and>
     (\<forall>T (c :: clock) cmd d. list_all (cmd_fits kReplayFrameCap) recs \<and> deadlines_from T recs \<and> (\<forall>i. c i < T) \<and>
        crash_disk s cmd d \<longrightarrow>
        (\<exists>s'. boot cfg c d = Inr (Serving s') \<and> view s' = view s \<and> server_wf s'))"
proof -
  obtain recs pol where log: "logged s recs" and pol: "fsync cfg = Some pol"
    using life_logged [OF assms(1)] assms(2) by auto
  then obtain w where w: "wal s = Some w" "contents w = encode_all recs"
    using assms(3) unfolding logged_def by blast
  have "\<exists>s'. boot cfg c d = Inr (Serving s') \<and> view s' = view s \<and> server_wf s'"
    if "list_all (cmd_fits kReplayFrameCap) recs" "deadlines_from T recs" "\<forall>i. c i < T" "crash_disk s cmd d"
    for T and c :: clock and cmd d
    using boot_restores [OF assms(2) pol log assms(3) that(4,1,2)] that(3) by blast
  with w show ?thesis by blast
qed

text \<open>A concrete life for the examples below: the log is on, the clock stands at 5.\<close>

definition cfg_always :: config where
  "cfg_always = Config\<lparr>wal_enabled := True, fsync := Some kAlways\<rparr>"

definition blank_disk :: "string option \<Rightarrow> disk" where
  "blank_disk f = \<lparr>dir_ok = True, snapshot_file = None, log_file = f, log_synced = [], log_io = []\<rparr>"

definition first_boot :: server where
  "first_boot = (CommandDispatcher (frozen_at 5))\<lparr>wal := Some ((Wal ''./data/wal.resp'' kAlways (Some []) [] [])\<lparr>fd_open := True\<rparr>)\<rparr>"

lemma first_boot: "boot cfg_always (frozen_at 5) (blank_disk None) = Inr (Serving first_boot)"
  by (simp add: boot_def cfg_always_def blank_disk_def first_boot_def load_baseline_def recover_log_def replay_def
      next_io_def failed_def open_for_append_def Wal_def contents_def cfg_wal_path_def Config_def)

lemma life_first_boot: "life cfg_always first_boot"
  by (rule life.fresh [OF first_boot]) (simp_all add: blank_disk_def)

lemma life_command: "life cfg s \<Longrightarrow> execute cmd s = Inr (r, s') \<Longrightarrow> life cfg s'"
  by (rule life.step, assumption, rule sys_step.command [where cmd = cmd and r = "(r, shutdown s')"])
    (simp add: handle_command_def)

theorem crash_recovery_witness:
  "\<exists>s s'. execute [''SET'', ''k'', ''v''] first_boot = Inr (resp_simple ''OK'', s) \<and>
     boot cfg_always (frozen_at 7)
       (blank_disk (Some (encode [''SET'', ''k'', ''v''] @ take 9 (encode [''DEL'', ''k''])))) = Inr (Serving s') \<and>
     view s' = view s \<and> map_of (db s') ''k'' = Some (Str ''v'')"
proof -
  let ?cmd = "[''SET'', ''k'', ''v'']" and ?d = "blank_disk (Some (encode [''SET'', ''k'', ''v''] @ take 9 (encode [''DEL'', ''k''])))"
  have "map_sum id (\<lambda>(r, s). (r, persistence_failed s, map_of (db s) ''k'', map_option contents (wal s))) (execute ?cmd first_boot) =
      Inr (resp_simple ''OK'', False, Some (Str ''v''), Some (encode ?cmd))"
    by code_simp
  then obtain s w where s: "execute ?cmd first_boot = Inr (resp_simple ''OK'', s)" "\<not> persistence_failed s"
    "map_of (db s) ''k'' = Some (Str ''v'')" "wal s = Some w" "contents w = encode_all [?cmd]"
    by (cases "execute ?cmd first_boot") auto
  have fits: "list_all (cmd_fits kReplayFrameCap) [?cmd]" "cmd_fits kReplayFrameCap [''DEL'', ''k'']"
    by (simp_all add: cmd_fits_def arg_fits_def kReplayFrameCap_def kMaxArgs_def i64_simps)
  have dl: "deadlines_from 8 [?cmd]"
    by (simp add: deadlines_from_def record_deadline_def)
  have "9 < length (encode [''DEL'', ''k''])" by code_simp
  with s fits have crash: "crash_disk s [''DEL'', ''k''] ?d"
    by (auto simp: crash_disk_def blank_disk_def intro!: exI [of _ "9::nat"])
  have "wal_enabled cfg_always" by (simp add: cfg_always_def)
  from crash_recovery [OF life_command [OF life_first_boot s(1)] this s(2)] obtain recs where
    recs: "contents w = encode_all recs" "\<And>T c cmd d. list_all (cmd_fits kReplayFrameCap) recs \<and> deadlines_from T recs \<and>
      (\<forall>i. c i < T) \<and> crash_disk s cmd d \<Longrightarrow> \<exists>s'. boot cfg_always c d = Inr (Serving s') \<and> view s' = view s \<and> server_wf s'"
    using s(4) by auto
  have "recs = [?cmd]" using recs(1) s(5) by (intro encode_all_inject) simp
  with recs(2) [of 8 "frozen_at 7"] fits(1) dl crash obtain s' where
    "boot cfg_always (frozen_at 7) ?d = Inr (Serving s')" "view s' = view s"
    by (auto simp: frozen_at_def)
  with s(1,3) show ?thesis by (auto simp: view_def)
qed

section \<open>Acknowledgement and failure\<close>

definition durable :: "server \<Rightarrow> bool" where
  "durable s \<longleftrightarrow>
     (\<exists>w. wal s = Some w \<and> (persistence_failed s \<or> policy w = kAlways \<and> synced w = contents w))"

lemma durable_redone:
  assumes "durable s" and "redone s s'"
  shows "durable s'"
proof -
  obtain w where w: "wal s = Some w" "persistence_failed s \<or> policy w = kAlways \<and> synced w = contents w"
    using assms(1) unfolding durable_def by blast
  obtain recs where "appended s recs s'" using assms(2) unfolding redone_def by blast
  with w(1) obtain w' where "wal s' = Some w'" "persistence_failed s \<longrightarrow> persistence_failed s'"
    "persistence_failed s' \<or> grown recs w w'"
    by (auto simp: appended_def split: option.splits)
  with w show ?thesis by (auto simp: durable_def grown_def)
qed

lemma execute_acknowledges:
  "execute cmd s = Inr (reply, s') \<Longrightarrow> reply \<noteq> misconf \<Longrightarrow> \<not> persistence_failed s'"
  by (auto simp: execute_def bind_res_Inr_iff Let_def split: if_splits option.splits)

lemma boot_fresh_durable:
  assumes "boot cfg c d = Inr (Serving s)" and "snapshot_file d = None" and "log_file d = None" and "log_synced d = []"
    and "wal_enabled cfg" and "fsync cfg = Some kAlways"
  shows "durable s"
  using assms
  by (auto simp: boot_def load_baseline_def recover_log_def replay_def Wal_def open_for_append_def durable_def
      next_io_def contents_def Let_def split: if_splits option.splits list.splits prod.splits)

text \<open>
  C3. Acknowledged writes are durable. Under \<^verbatim>\<open>--fsync=always\<close>, whatever commands and ticks came before,
  a reply other than the refusal is produced only once the whole log, with the records of this
  command, is on stable storage; and those records alone lead from nothing to the state the reply
  speaks of.
\<close>

theorem acknowledged_is_durable:
  assumes "boot cfg c d = Inr (Serving s0)" and "snapshot_file d = None" and "log_file d = None" and "log_synced d = []"
    and "wal_enabled cfg" and "fsync cfg = Some kAlways"
    and "sys_run s0 s" and "execute cmd s = Inr (reply, s')" and "reply \<noteq> misconf"
  shows "\<exists>w recs. wal s' = Some w \<and> synced w = encode_all recs \<and>
     (\<forall>T. deadlines_from T recs \<longrightarrow> replays T recs (Map.empty, Map.empty) (view s'))"
proof -
  note s0 = boot_fresh [OF assms(1-3)] boot_fresh_durable [OF assms(1-6)]
  note s = sys_run_effect [OF assms(7) s0(1)]
  have red: "redone s0 s'"
    using s execute_redone [OF _ assms(8)] redone_trans by blast
  from logged_redone [OF _ this] s0(4) assms(5) obtain recs where "logged s' recs" by blast
  moreover have "durable s'" using durable_redone [OF s0(6) red] .
  moreover have "\<not> persistence_failed s'" using execute_acknowledges [OF assms(8,9)] .
  ultimately show ?thesis by (auto simp: logged_def durable_def)
qed

theorem acknowledged_is_durable_witness:
  "\<exists>s' w. execute [''SET'', ''k'', ''v''] first_boot = Inr (resp_simple ''OK'', s') \<and> wal s' = Some w \<and>
     (\<exists>recs. synced w = encode_all recs \<and>
        (\<forall>T. deadlines_from T recs \<longrightarrow> replays T recs (Map.empty, Map.empty) (view s')))"
proof -
  let ?cmd = "[''SET'', ''k'', ''v'']"
  have "map_sum id fst (execute ?cmd first_boot) = Inr (resp_simple ''OK'')"
    by code_simp
  then obtain s' where s': "execute ?cmd first_boot = Inr (resp_simple ''OK'', s')"
    by (cases "execute ?cmd first_boot") auto
  have "resp_simple ''OK'' \<noteq> misconf" by code_simp
  with acknowledged_is_durable [OF first_boot _ _ _ _ _ sys_run.stay s'] s' show ?thesis
    by (auto simp: blank_disk_def cfg_always_def)
qed

lemma put_record_failed: "persistence_failed s \<Longrightarrow> put_record r s = s"
  by (simp add: put_record_def split: option.split)

lemma fold_evict_hook_failed:
  "persistence_failed s \<Longrightarrow> wal (fold evict_hook ks s) = wal s \<and> persistence_failed (fold evict_hook ks s)"
  by (induction ks arbitrary: s) (simp_all add: evict_hook_def put_record_failed)

lemma tick_failed:
  assumes "server_wf s" and "persistence_failed s" and "rng_in_range rng"
  shows "\<exists>s'. tick micros rng s = Some (True, s') \<and> persistence_failed s' \<and> wal s' = wal s"
proof -
  obtain st n rng' e s1 ks where run:
    "active_cycle (Some evict_hook) 1000 micros rng (clk s, ttl s, s) = Some (st, \<lambda>i. clk s (i + n), rng', e, s1)"
    "evictions (Some evict_hook) (clk s 0) ks (ttl s, s) (e, s1)"
    using active_cycle_evicts [OF server_wfD(2) [OF assms(1)] assms(3), of "Some evict_hook" 1000 micros "clk s" s] by blast
  then have "s1 = fold evict_hook ks s"
    using evictions_effect [OF run(2) server_wfD(2) [OF assms(1)]] by simp
  with fold_evict_hook_failed [OF assms(2), of ks] have s1: "wal s1 = wal s" "persistence_failed s1" by simp_all
  then have "tick_flush (s1\<lparr>clk := \<lambda>i. clk s (i + n), ttl := e\<rparr>) = s1\<lparr>clk := \<lambda>i. clk s (i + n), ttl := e\<rparr>"
    by (simp add: tick_flush_def split: option.split)
  with s1 show ?thesis
    by (simp add: tick_def run(1) Let_def)
qed

lemma handle_command_failed: "persistence_failed s \<Longrightarrow> handle_command cmd s = Inr ((misconf, shutdown s), s)"
  by (simp add: handle_command_def execute_def)



text \<open>
  C7. Invariant of every life: the keyspace has distinct keys and no empty list, the TTL table is
  consistent and covers existing keys only; so no command touches a value at the wrong type, pops
  from an empty list or dereferences a missing option, the only fault left being an overflow of a
  deadline computation, and every tick returns.
\<close>

theorem life_never_faults:
  assumes "life cfg s" and "rng_in_range rng"
  shows "server_wf s \<and>
     (\<forall>f. handle_command cmd s = Inl f \<longrightarrow> f = Signed_overflow) \<and>
     (\<exists>s'. tick micros rng s = Some (persistence_failed s', s') \<and> server_wf s')"
proof -
  have wf: "server_wf s" using life_logged [OF assms(1)] ..
  with execute_safe [OF wf, of cmd] tick_effect [OF wf assms(2), of micros] show ?thesis
    by (cases "execute cmd s") (auto simp: handle_command_def)
qed

theorem life_never_faults_witness:
  "server_wf first_boot \<and> (\<exists>s'. tick (frozen_at 0) (\<lambda>j n. n) first_boot = Some (persistence_failed s', s'))"
  using life_never_faults [OF life_first_boot, of "\<lambda>j n. n" "[]" "frozen_at 0"] by (auto simp: rng_in_range_def)

end
