(* ===== verification/Replies.thy ===== *)
theory Replies
  imports Command_Laws Wal_Format
begin

text \<open>
  The types of replies. A reply value is what a client decodes; the constructors of
  \<^verbatim>\<open>src/src/protocol/resp_writer.cpp\<close> print it. The lemmas: the printed form of a sequence of well-formed
  replies determines the sequence, and every command of the table answers with a well-formed reply of
  its own type, or with an error.
\<close>

section \<open>Reply values\<close>

datatype reply = Simple string | Error string | Integer int | Bulk "string option" | Array "reply list"

fun print_reply :: "reply \<Rightarrow> string" where
  "print_reply (Simple s) = resp_simple s"
| "print_reply (Error s) = resp_error s"
| "print_reply (Integer n) = resp_integer n"
| "print_reply (Bulk None) = resp_null_bulk"
| "print_reply (Bulk (Some v)) = resp_bulk v"
| "print_reply (Array vs) = resp_array (map print_reply vs)"

text \<open>A status or error line must not contain its own end.\<close>

definition one_line :: "string \<Rightarrow> bool" where
  "one_line s \<longleftrightarrow> CR \<notin> set s \<and> LF \<notin> set s"

fun wf_reply :: "reply \<Rightarrow> bool" where
  "wf_reply (Simple s) = one_line s"
| "wf_reply (Error s) = one_line s"
| "wf_reply (Integer n) = True"
| "wf_reply (Bulk v) = True"
| "wf_reply (Array vs) = list_all wf_reply vs"

lemma line_inject: "CR \<notin> set a \<Longrightarrow> CR \<notin> set b \<Longrightarrow> a @ crlf @ x = b @ crlf @ y \<Longrightarrow> a = b \<and> x = y"
proof (induction a arbitrary: b)
  case Nil
  then show ?case by (cases b) auto
next
  case (Cons c a)
  then show ?case by (cases b) auto
qed

text \<open>No reply is a proper prefix of another.\<close>

lemma to_string_line: "to_string m @ crlf @ x = to_string n @ crlf @ y \<Longrightarrow> m = n \<and> x = y"
  using line_inject [of "to_string m" "to_string n" x y] by simp

definition tag :: "reply \<Rightarrow> char" where
  "tag v = (case v of Simple _ \<Rightarrow> CHR ''+'' | Error _ \<Rightarrow> CHR ''-'' | Integer _ \<Rightarrow> CHR '':'' | Bulk _ \<Rightarrow> CHR ''$'' | Array _ \<Rightarrow> CHR ''*'')"

lemma print_reply_hd: "hd (print_reply v @ x) = tag v" "print_reply v \<noteq> []"
  by (cases v rule: print_reply.cases; simp add: tag_def hd_append)+

lemma print_reply_tag: "print_reply v @ x = print_reply w @ y \<Longrightarrow> tag v = tag w"
  using print_reply_hd(1) by metis

lemma bulk_inject:
  assumes "print_reply (Bulk a) @ x = print_reply (Bulk b) @ y"
  shows "a = b \<and> x = y"
proof -
  have eq: "print_reply (Bulk v) =
      CHR ''$'' # to_string (case v of None \<Rightarrow> - 1 | Some p \<Rightarrow> int (length p)) @ crlf @ (case v of None \<Rightarrow> [] | Some p \<Rightarrow> p @ crlf)" for v
  proof (cases v)
    case None
    have "''$-1'' @ crlf = CHR ''$'' # to_string (- 1) @ crlf" by code_simp
    with None show ?thesis by (simp add: resp_null_bulk_def)
  qed (simp add: resp_bulk_def)
  from assms have "to_string (case a of None \<Rightarrow> - 1 | Some p \<Rightarrow> int (length p)) @ crlf @ (case a of None \<Rightarrow> [] | Some p \<Rightarrow> p @ crlf) @ x =
      to_string (case b of None \<Rightarrow> - 1 | Some p \<Rightarrow> int (length p)) @ crlf @ (case b of None \<Rightarrow> [] | Some p \<Rightarrow> p @ crlf) @ y"
    unfolding eq by simp
  from to_string_line [OF this] show ?thesis by (auto split: option.splits)
qed

lemma print_replies_inject:
  assumes "\<And>v w x y. v \<in> set vs \<Longrightarrow> wf_reply v \<Longrightarrow> wf_reply w \<Longrightarrow> print_reply v @ x = print_reply w @ y \<Longrightarrow> v = w \<and> x = y"
    and "list_all wf_reply vs" and "list_all wf_reply ws" and "length vs = length ws"
    and "concat (map print_reply vs) @ x = concat (map print_reply ws) @ y"
  shows "vs = ws \<and> x = y"
  using assms(4,1,2,3,5)
proof (induction vs ws rule: list_induct2)
  case (Cons v vs w ws)
  have "v = w \<and> concat (map print_reply vs) @ x = concat (map print_reply ws) @ y"
    using Cons.prems by (intro Cons.prems(1)) simp_all
  with Cons show ?case by auto
qed simp

lemma print_reply_inject:
  "wf_reply v \<Longrightarrow> wf_reply w \<Longrightarrow> print_reply v @ x = print_reply w @ y \<Longrightarrow> v = w \<and> x = y"
proof (induction v arbitrary: w x y)
  case (Simple s)
  from print_reply_tag [OF Simple.prems(3)] obtain t where "w = Simple t"
    by (cases w) (simp_all add: tag_def)
  with Simple line_inject [of s t x y] show ?case by (simp add: resp_simple_def one_line_def)
next
  case (Error s)
  from print_reply_tag [OF Error.prems(3)] obtain t where "w = Error t"
    by (cases w) (simp_all add: tag_def)
  with Error line_inject [of s t x y] show ?case by (simp add: resp_error_def one_line_def)
next
  case (Integer n)
  from print_reply_tag [OF Integer.prems(3)] obtain m where "w = Integer m"
    by (cases w) (simp_all add: tag_def)
  with Integer to_string_line [of n x m y] show ?case by (simp add: resp_integer_def)
next
  case (Bulk a)
  from print_reply_tag [OF Bulk.prems(3)] obtain b where w: "w = Bulk b"
    by (cases w) (simp_all add: tag_def)
  with Bulk bulk_inject [of a x b y] show ?case by simp
next
  case (Array vs)
  from print_reply_tag [OF Array.prems(3)] obtain ws where w: "w = Array ws"
    by (cases w) (simp_all add: tag_def)
  with Array.prems(3) number_line_inject [of "length vs" "concat (map print_reply vs) @ x" "length ws" "concat (map print_reply ws) @ y"]
  have len: "length vs = length ws" and eq: "concat (map print_reply vs) @ x = concat (map print_reply ws) @ y"
    by (simp_all add: resp_array_def)
  have "vs = ws \<and> x = y"
    by (rule print_replies_inject [OF Array.IH _ _ len eq]) (use Array.prems(1,2) w in simp_all)
  with w show ?case by simp
qed

text \<open>
  C28. Replies are unambiguous: a stream of well-formed replies has one reading only. Whatever else
  it could be read as has the same replies in the same order.
\<close>

theorem replies_unambiguous:
  assumes "list_all wf_reply vs" and "list_all wf_reply ws"
    and "concat (map print_reply vs) = concat (map print_reply ws)"
  shows "vs = ws"
  using assms
proof (induction vs arbitrary: ws)
  case Nil
  then show ?case by (cases ws) (simp_all add: print_reply_hd(2))
next
  case (Cons v vs)
  show ?case
  proof (cases ws)
    case Nil
    with Cons.prems(3) show ?thesis by (simp add: print_reply_hd(2))
  next
    case ws: (Cons w ws')
    have "v = w \<and> concat (map print_reply vs) = concat (map print_reply ws')"
      using Cons.prems ws by (intro print_reply_inject) simp_all
    moreover from this have "vs = ws'"
      using Cons.prems ws by (intro Cons.IH) simp_all
    ultimately show ?thesis using ws by simp
  qed
qed

theorem replies_unambiguous_witness:
  "{ws. list_all wf_reply ws \<and> concat (map print_reply ws) = '':1'' @ crlf @ ''$-1'' @ crlf} = {[Integer 1, Bulk None]}"
proof -
  have bytes: "'':1'' @ crlf @ ''$-1'' @ crlf = concat (map print_reply [Integer 1, Bulk None])"
    by code_simp
  have "ws = [Integer 1, Bulk None]" if "list_all wf_reply ws" "concat (map print_reply ws) = concat (map print_reply [Integer 1, Bulk None])" for ws
    using that by (intro replies_unambiguous) simp_all
  then show ?thesis unfolding bytes by auto
qed

section \<open>The type of a command\<close>

definition is_error :: "reply \<Rightarrow> bool" where
  "is_error v = (case v of Error _ \<Rightarrow> True | _ \<Rightarrow> False)"

definition is_integer :: "reply \<Rightarrow> bool" where
  "is_integer v = (case v of Integer _ \<Rightarrow> True | _ \<Rightarrow> False)"

definition is_bulk :: "reply \<Rightarrow> bool" where
  "is_bulk v = (case v of Bulk _ \<Rightarrow> True | _ \<Rightarrow> False)"

definition is_strings :: "reply \<Rightarrow> bool" where
  "is_strings v = (case v of Array vs \<Rightarrow> list_all (\<lambda>x. is_bulk x \<and> x \<noteq> Bulk None) vs | _ \<Rightarrow> False)"

text \<open>What a command that succeeds may answer.\<close>

definition reply_type :: "string \<Rightarrow> reply \<Rightarrow> bool" where
  "reply_type name v =
     (if name = ''SHUTDOWN'' \<or> name = ''FLUSHALL'' then v = Simple ''OK''
      else if name = ''SET'' then v = Simple ''OK'' \<or> v = Bulk None
      else if name = ''PING'' then v = Simple ''PONG'' \<or> is_bulk v
      else if name = ''TYPE'' then v \<in> {Simple ''none'', Simple ''string'', Simple ''list''}
      else if name \<in> {''GET'', ''ECHO'', ''LPOP'', ''RPOP''} then is_bulk v
      else if name \<in> {''KEYS'', ''LRANGE'', ''CONFIG'', ''COMMAND''} then is_strings v
      else is_integer v)"

definition typed :: "(reply \<Rightarrow> bool) \<Rightarrow> string \<Rightarrow> bool" where
  "typed P r \<longleftrightarrow> (\<exists>v. r = print_reply v \<and> wf_reply v \<and> (is_error v \<or> P v))"

lemma typed_simple: "one_line s \<Longrightarrow> P (Simple s) \<Longrightarrow> typed P (resp_simple s)"
  unfolding typed_def by (intro exI [of _ "Simple s"]) simp

lemma typed_error: "one_line s \<Longrightarrow> typed P (resp_error s)"
  unfolding typed_def by (intro exI [of _ "Error s"]) (simp add: is_error_def)

lemma typed_integer: "P (Integer n) \<Longrightarrow> typed P (resp_integer n)"
  unfolding typed_def by (intro exI [of _ "Integer n"]) simp

lemma typed_bulk: "P (Bulk (Some v)) \<Longrightarrow> typed P (resp_bulk v)" "P (Bulk None) \<Longrightarrow> typed P resp_null_bulk"
  unfolding typed_def by (intro exI [of _ "Bulk (Some v)"], simp) (intro exI [of _ "Bulk None"], simp)

lemma typed_strings: "P (Array (map (Bulk \<circ> Some) vs)) \<Longrightarrow> typed P (resp_array (map resp_bulk vs))"
  unfolding typed_def by (intro exI [of _ "Array (map (Bulk \<circ> Some) vs)"]) (simp add: list_all_iff o_def)

lemma typed_empty_array: "P (Array []) \<Longrightarrow> typed P resp_empty_array"
proof -
  have "resp_empty_array = print_reply (Array [])" by code_simp
  then show "P (Array []) \<Longrightarrow> typed P resp_empty_array"
    unfolding typed_def by (intro exI [of _ "Array []"]) simp
qed

text \<open>The errors with fixed texts.\<close>

lemma one_line_simps [simp]:
  "one_line []" "one_line (c # s) \<longleftrightarrow> c \<noteq> CR \<and> c \<noteq> LF \<and> one_line s" "one_line (s @ t) \<longleftrightarrow> one_line s \<and> one_line t"
  by (auto simp: one_line_def)

lemma typed_errors [simp]:
  "typed P wrongtype" "typed P not_an_integer" "typed P invalid_expire" "typed P syntax_error" "typed P misconf"
  "typed P (resp_error ''ERR empty command'')" "typed P (resp_error ''ERR CONFIG subcommand must be GET'')"
  unfolding wrongtype_def not_an_integer_def invalid_expire_def syntax_error_def misconf_def
  by (rule typed_error, code_simp)+

lemma typed_wrong_arity: "one_line name \<Longrightarrow> typed P (wrong_arity name)"
  unfolding wrong_arity_def by (intro typed_error) simp

lemma typed_set_options: "set_options ws opts = Inr (Inl err) \<Longrightarrow> typed P err"
  by (induction ws opts rule: set_options.induct) (auto simp: bind_res_Inr_iff split: if_splits option.splits)

lemmas typed_intros = typed_simple typed_error typed_integer typed_bulk typed_strings typed_empty_array typed_wrong_arity
lemmas type_defs = reply_type_def is_integer_def is_bulk_def is_strings_def list_all_iff

lemma typed_strings_handlers:
  "cmd_get cmd s = Inr (r, s') \<Longrightarrow> typed (reply_type ''GET'') r"
  "cmd_echo cmd s = Inr (r, s') \<Longrightarrow> typed (reply_type ''ECHO'') r"
  "cmd_ping cmd s = Inr (r, s') \<Longrightarrow> typed (reply_type ''PING'') r"
  "cmd_type cmd s = Inr (r, s') \<Longrightarrow> typed (reply_type ''TYPE'') r"
  "cmd_flushall cmd s = Inr (r, s') \<Longrightarrow> typed (reply_type ''FLUSHALL'') r"
  "cmd_command cmd s = Inr (r, s') \<Longrightarrow> typed (reply_type ''COMMAND'') r"
  by (auto simp: cmd_get_def cmd_echo_def cmd_ping_def cmd_type_def cmd_flushall_def cmd_command_def Let_def
      type_defs bind_res_Inr_iff split_beta intro!: typed_intros split: if_splits option.splits type.splits)

lemma typed_set:
  assumes "cmd_set cmd s = Inr (r, s')"
  shows "typed (reply_type ''SET'') r"
proof (cases "length cmd < 3")
  case True
  with assms show ?thesis by (auto simp: cmd_set_def intro!: typed_intros)
next
  case False
  with assms obtain parsed where parsed: "set_options (drop 3 cmd) \<lparr>nx = False, xx = False, expire = None\<rparr> = Inr parsed"
    by (auto simp: cmd_set_def bind_res_Inr_iff)
  show ?thesis
  proof (cases parsed)
    case (Inl err)
    with parsed assms False typed_set_options show ?thesis by (auto simp: cmd_set_def)
  next
    case (Inr opts)
    have "typed (reply_type ''SET'') (resp_simple ''OK'')" "typed (reply_type ''SET'') resp_null_bulk"
      by (auto simp: type_defs intro!: typed_intros)
    moreover have "r = resp_simple ''OK'' \<or> r = resp_null_bulk"
      using parsed assms False Inr
      by (cases "expire opts") (auto simp: cmd_set_def Let_def split_beta bind_res_Inr_iff split: if_splits)
    ultimately show ?thesis by auto
  qed
qed

lemma typed_incr_by: "incr_by k d s = Inr (r, s') \<Longrightarrow> P (Integer 0) \<Longrightarrow> (\<And>n. P (Integer n)) \<Longrightarrow> typed P r"
  by (auto simp: incr_by_def Let_def intro!: typed_intros split: if_splits option.splits)

lemma typed_integer_handlers:
  "cmd_incr cmd s = Inr (r, s') \<Longrightarrow> typed is_integer r"
  "cmd_decr cmd s = Inr (r, s') \<Longrightarrow> typed is_integer r"
  "cmd_incrby cmd s = Inr (r, s') \<Longrightarrow> typed is_integer r"
  "cmd_del cmd s = Inr (r, s') \<Longrightarrow> typed is_integer r"
  "cmd_exists cmd s = Inr (r, s') \<Longrightarrow> typed is_integer r"
  "cmd_dbsize cmd s = Inr (r, s') \<Longrightarrow> typed is_integer r"
  "one_line name \<Longrightarrow> expire_generic name cmd u s = Inr (r, s') \<Longrightarrow> typed is_integer r"
  "cmd_pexpireat cmd s = Inr (r, s') \<Longrightarrow> typed is_integer r"
  "one_line name \<Longrightarrow> ttl_generic name cmd b s = Inr (r, s') \<Longrightarrow> typed is_integer r"
  "cmd_persist cmd s = Inr (r, s') \<Longrightarrow> typed is_integer r"
  "one_line name \<Longrightarrow> push_generic name cmd left s = Inr (r, s') \<Longrightarrow> typed is_integer r"
  "cmd_llen cmd s = Inr (r, s') \<Longrightarrow> typed is_integer r"
  by (auto simp: cmd_incr_def cmd_decr_def cmd_incrby_def cmd_del_def cmd_exists_def cmd_dbsize_def expire_generic_def
      cmd_pexpireat_def ttl_generic_def cmd_persist_def push_generic_def cmd_llen_def Let_def split_beta bind_res_Inr_iff
      is_integer_def intro!: typed_intros elim!: typed_incr_by split: if_splits option.splits)

lemma keys_loop_bulks: "\<exists>ks. fst (keys_loop keys (map resp_bulk es) s) = map resp_bulk ks"
proof (induction keys arbitrary: es s)
  case (Cons key keys)
  obtain dead s1 where s1: "check_key key s = (dead, s1)" by fastforce
  show ?case
  proof (cases dead)
    case True
    with Cons.IH [of es s1] s1 show ?thesis by simp
  next
    case False
    with Cons.IH [of "es @ [key]" s1] s1 show ?thesis by simp
  qed
qed auto

lemma typed_string_lists: "typed is_strings (resp_array (map resp_bulk vs))" "typed is_strings resp_empty_array"
  by (auto simp: type_defs intro!: typed_intros)

lemma typed_list_handlers:
  "one_line name \<Longrightarrow> pop_generic name cmd left s = Inr (r, s') \<Longrightarrow> typed is_bulk r"
  "cmd_lrange cmd s = Inr (r, s') \<Longrightarrow> typed is_strings r"
  by (auto simp: pop_generic_def cmd_lrange_def Let_def split_beta bind_res_Inr_iff is_bulk_def
      intro!: typed_intros typed_string_lists split: if_splits option.splits)

lemma typed_keys: "cmd_keys cmd s = Inr (r, s') \<Longrightarrow> typed is_strings r"
proof -
  obtain ks where "fst (keys_loop (keys_matching_glob (db s) (cmd ! 1)) [] s) = map resp_bulk ks"
    using keys_loop_bulks [of "keys_matching_glob (db s) (cmd ! 1)" "[]" s] by auto
  then show "cmd_keys cmd s = Inr (r, s') \<Longrightarrow> typed is_strings r"
    using typed_string_lists(1) [of ks]
    by (auto simp: cmd_keys_def Let_def split_beta intro!: typed_intros split: if_splits)
qed

lemma typed_config: "cmd_config cmd s = Inr (r, s') \<Longrightarrow> typed is_strings r"
  using typed_string_lists(1) [of "[lower (cmd ! 2), v]" for v] typed_string_lists(2)
  by (auto simp: cmd_config_def intro!: typed_intros split: if_splits option.splits)

lemma reply_types [simp]:
  "reply_type ''DEL'' = is_integer" "reply_type ''EXISTS'' = is_integer" "reply_type ''EXPIRE'' = is_integer"
  "reply_type ''PEXPIRE'' = is_integer" "reply_type ''TTL'' = is_integer" "reply_type ''PEXPIREAT'' = is_integer"
  "reply_type ''PTTL'' = is_integer" "reply_type ''PERSIST'' = is_integer" "reply_type ''INCR'' = is_integer"
  "reply_type ''DECR'' = is_integer" "reply_type ''INCRBY'' = is_integer" "reply_type ''DBSIZE'' = is_integer"
  "reply_type ''LPUSH'' = is_integer" "reply_type ''RPUSH'' = is_integer" "reply_type ''LLEN'' = is_integer"
  "reply_type ''LPOP'' = is_bulk" "reply_type ''RPOP'' = is_bulk" "reply_type ''KEYS'' = is_strings"
  "reply_type ''LRANGE'' = is_strings" "reply_type ''CONFIG'' = is_strings"
  by (rule ext, simp add: reply_type_def)+

lemma typed_wrappers:
  "cmd_expire cmd s = Inr (r, s') \<Longrightarrow> typed is_integer r" "cmd_pexpire cmd s = Inr (r, s') \<Longrightarrow> typed is_integer r"
  "cmd_ttl cmd s = Inr (r, s') \<Longrightarrow> typed is_integer r" "cmd_pttl cmd s = Inr (r, s') \<Longrightarrow> typed is_integer r"
  "cmd_lpush cmd s = Inr (r, s') \<Longrightarrow> typed is_integer r" "cmd_rpush cmd s = Inr (r, s') \<Longrightarrow> typed is_integer r"
  "cmd_lpop cmd s = Inr (r, s') \<Longrightarrow> typed is_bulk r" "cmd_rpop cmd s = Inr (r, s') \<Longrightarrow> typed is_bulk r"
  unfolding cmd_expire_def cmd_pexpire_def cmd_ttl_def cmd_pttl_def cmd_lpush_def cmd_rpush_def cmd_lpop_def cmd_rpop_def
  by (erule typed_integer_handlers(7,9,11) [rotated] typed_list_handlers(1) [rotated], simp)+

lemmas typed_handlers = typed_strings_handlers typed_set typed_integer_handlers(1-6,8,10,12) typed_wrappers
  typed_list_handlers(2) typed_keys typed_config

lemma kTable_typed:
  assumes "map_of kTable name = Some h" and "h cmd s = Inr (r, s')"
  shows "typed (reply_type name) r"
  using map_of_SomeD [OF assms(1)] assms(2) unfolding kTable_def list.set
  by (elim insertE emptyE Pair_inject) (simp_all only: reply_types, (erule typed_handlers)+)

text \<open>
  C9. Replies are typed. Every reply of the dispatcher is a well-formed reply value: an error, or a
  value of the type of its command (an integer for INCR, a string or nothing for GET, a list of
  strings for KEYS and LRANGE, and so on). The one condition is that the command's name has no line
  break in it, because the error for an unknown command quotes the name as it came.
\<close>

theorem replies_are_typed:
  assumes "execute cmd s = Inr (r, s')" and "cmd = [] \<or> one_line (cmd ! 0)"
  shows "\<exists>v. r = print_reply v \<and> wf_reply v \<and> (is_error v \<or> cmd \<noteq> [] \<and> reply_type (upper (cmd ! 0)) v)"
proof -
  consider "r = misconf" | "cmd = []" "r = resp_error ''ERR empty command''"
    | "cmd \<noteq> []" "upper (cmd ! 0) = ''SHUTDOWN''" "r = resp_simple ''OK''"
    | "cmd \<noteq> []" "r = resp_error (''ERR unknown command '' @ [CHR 0x27] @ cmd ! 0 @ [CHR 0x27])"
    | h s1 where "cmd \<noteq> []" "map_of kTable (upper (cmd ! 0)) = Some h" "h cmd s = Inr (r, s1)"
    using assms(1) by (auto simp: execute_def Let_def bind_res_Inr_iff split: if_splits option.splits)
  then show ?thesis
  proof cases
    case 1
    with typed_errors(5) [of "\<lambda>_. False"] show ?thesis by (auto simp: typed_def)
  next
    case 2
    with typed_errors(6) [of "\<lambda>_. False"] show ?thesis by (auto simp: typed_def)
  next
    case 3
    then show ?thesis by (intro exI [of _ "Simple ''OK''"]) (simp add: reply_type_def)
  next
    case 4
    with assms(2) show ?thesis by (intro exI [of _ "Error (''ERR unknown command '' @ [CHR 0x27] @ cmd ! 0 @ [CHR 0x27])"])
      (simp add: is_error_def)
  next
    case (5 h s1)
    with kTable_typed [OF 5(2,3)] show ?thesis by (auto simp: typed_def)
  qed
qed

theorem replies_are_typed_witness:
  "\<exists>s'. execute [''incr'', ''n''] (CommandDispatcher (frozen_at 5)) = Inr (resp_integer 1, s') \<and>
     (\<exists>v. resp_integer 1 = print_reply v \<and> wf_reply v \<and> (is_error v \<or> is_integer v))"
proof -
  have "map_sum id fst (execute [''incr'', ''n''] (CommandDispatcher (frozen_at 5))) = Inr (resp_integer 1)" by code_simp
  then obtain s' where run: "execute [''incr'', ''n''] (CommandDispatcher (frozen_at 5)) = Inr (resp_integer 1, s')"
    by (cases "execute [''incr'', ''n''] (CommandDispatcher (frozen_at 5))") auto
  have "upper ''incr'' = ''INCR''" by code_simp
  with replies_are_typed [OF run] run show ?thesis by simp
qed

end
