(* ===== verification/Hash.thy ===== *)
theory Hash
  imports Hermit_Prelude "HOL-Library.Word"
begin

unbundle bit_operations_syntax

text \<open>
  \<^verbatim>\<open>src/src/util/hash.h\<close>: FNV-1a on 64-bit words, where multiplication wraps around. The lemmas: a step
  of the hash is a bijection, so that the last byte always counts.
\<close>

type_synonym u64 = "64 word"

definition fnv_prime :: u64 where
  "fnv_prime = 1099511628211"

definition fnv_step :: "char \<Rightarrow> u64 \<Rightarrow> u64" where
  "fnv_step c h = (h XOR of_char c) * fnv_prime"

definition fnv1a64 :: "string \<Rightarrow> u64" where
  "fnv1a64 s = fold fnv_step s 1469598103934665603"

text \<open>The prime is odd, hence invertible modulo \<open>2 ^ 64\<close>.\<close>

lemma fnv_prime_inverse: "fnv_prime * 14886173955864302971 = 1"
  by (simp add: fnv_prime_def)

lemma mult_prime_inject: "a * fnv_prime = b * fnv_prime \<longleftrightarrow> a = b"
proof
  assume "a * fnv_prime = b * fnv_prime"
  then have "a * fnv_prime * 14886173955864302971 = b * fnv_prime * 14886173955864302971" by simp
  then show "a = b" by (simp only: mult.assoc fnv_prime_inverse mult_1_right)
qed simp

lemma xor_inject: "a XOR x = b XOR x \<longleftrightarrow> a = b" for a b x :: u64
proof
  assume "a XOR x = b XOR x"
  then have "(a XOR x) XOR x = (b XOR x) XOR x" by (rule arg_cong)
  then show "a = b" by (simp add: xor.assoc)
qed simp

lemma of_char_inject: "(of_char c :: u64) = of_char d \<longleftrightarrow> c = d"
proof
  assume eq: "(of_char c :: u64) = of_char d"
  have small: "of_char e < (256 :: nat)" for e :: char by (rule nat_of_char_less_256)
  have "unat (of_char e :: u64) = of_char e" for e :: char
  proof -
    have "(of_char e :: u64) = of_nat (of_char e)" by (simp only: of_nat_of_char)
    moreover have "of_char e mod 2 ^ 64 = (of_char e :: nat)" by (intro mod_less less_trans [OF small]) simp
    ultimately show ?thesis by (simp only: unat_of_nat) simp
  qed
  with arg_cong [OF eq, of unat] show "c = d" by simp
qed simp

lemma fnv_step_inject: "fnv_step c a = fnv_step c b \<longleftrightarrow> a = b" "fnv_step c a = fnv_step d a \<longleftrightarrow> c = d"
proof -
  show "fnv_step c a = fnv_step c b \<longleftrightarrow> a = b"
    by (simp add: fnv_step_def mult_prime_inject xor_inject)
  have "a XOR of_char c = a XOR of_char d \<longleftrightarrow> of_char c = (of_char d :: u64)"
    using xor_inject [of "of_char c" a "of_char d"] by (simp only: xor.commute)
  then show "fnv_step c a = fnv_step d a \<longleftrightarrow> c = d"
    by (simp add: fnv_step_def mult_prime_inject of_char_inject)
qed

lemma fnv_fold_inject: "fold fnv_step u a = fold fnv_step u b \<longleftrightarrow> a = b"
  by (induction u arbitrary: a b) (simp_all add: fnv_step_inject)

text \<open>
  C35. Strings of the same length that differ in one byte only, wherever it is, have different hashes;
  and a common ending neither separates nor merges hashes.
\<close>

theorem fnv_separates:
  "(fnv1a64 (s @ [c] @ u) = fnv1a64 (s @ [d] @ u) \<longleftrightarrow> c = d) \<and>
   (fnv1a64 (s @ u) = fnv1a64 (t @ u) \<longleftrightarrow> fnv1a64 s = fnv1a64 t)"
  by (simp add: fnv1a64_def fnv_fold_inject fnv_step_inject)

end
