(* ===== verification/Event_Loop.thy ===== *)
theory Event_Loop
  imports Server
begin

text \<open>
  The epoll reactor, \<^verbatim>\<open>src/src/net/event_loop.cpp\<close>, and its connections, \<^verbatim>\<open>src/src/net/connection.h\<close>:
  accepting, reading and dispatching, flushing, closing, ticks, and the loop. The command handler
  and the tick functions act on a world of any type. What the kernel answers to \<^verbatim>\<open>epoll_ctl\<close>, \<^verbatim>\<open>accept\<close>,
  \<^verbatim>\<open>recv\<close>, \<^verbatim>\<open>send\<close> and \<^verbatim>\<open>epoll_wait\<close> is a script. The lemmas: client and buffer limits, replies in order,
  independence of how the input is cut, stale events ignored, ticks without backlog, and stopping.
\<close>

section \<open>Connections\<close>

text \<open>\<open>heard\<close> and \<open>wire\<close> are histories: the bytes received, and the bytes the kernel has taken.\<close>

record conn =
  rparser :: parser
  outbuf :: string
  close_after_flush :: bool
  heard :: string
  wire :: string

definition Connection :: "nat \<Rightarrow> conn" where
  "Connection m = \<lparr>rparser = RespParser m, outbuf = [], close_after_flush = False, heard = [], wire = []\<rparr>"

definition queue_reply :: "string \<Rightarrow> conn \<Rightarrow> conn" where
  "queue_reply bytes c = c\<lparr>outbuf := outbuf c @ bytes\<rparr>"

definition consume_outbuf :: "nat \<Rightarrow> conn \<Rightarrow> conn" where
  "consume_outbuf n c = c\<lparr>outbuf := drop n (outbuf c), wire := wire c @ take n (outbuf c)\<rparr>"

definition mark_close_after_flush :: "conn \<Rightarrow> conn" where
  "mark_close_after_flush c = c\<lparr>close_after_flush := True\<rparr>"

text \<open>
  What a failed \<^verbatim>\<open>feed\<close> leaves in the parser: the pass that fails has consumed its header line; a pass
  that fails on a body has consumed nothing.
\<close>

definition fail_state :: "parser \<Rightarrow> parser" where
  "fail_state p =
     (if pstate p = kBulkBody then p
      else case take_line p of None \<Rightarrow> p | Some (line, p1) \<Rightarrow> p1)"

function feed_final :: "parser \<Rightarrow> parser" where
  "feed_final p =
     (case parser_step p of
        Break q \<Rightarrow> q
      | Fail msg \<Rightarrow> fail_state p
      | Continue q cs \<Rightarrow> feed_final q)"
  by pat_completeness auto
termination
  by (relation "measure loop_measure") (auto intro: parser_step_decreases)

declare feed_final.simps [simp del]

section \<open>The loop\<close>

definition kReadChunk :: nat where
  "kReadChunk = 64 * 1024"

definition kMaxReadPerEvent :: nat where
  "kMaxReadPerEvent = 2 ^ 20"

definition kMaxOutbufBytes :: nat where
  "kMaxOutbufBytes = 256 * 2 ^ 20"

definition kMaxLoopTimeoutMs :: int where
  "kMaxLoopTimeoutMs = 100"

datatype interest = Epollin | Epollin_epollout

record epoll_event =
  efd :: int
  epollin :: bool
  epollout :: bool
  epollhup :: bool

text \<open>
  Answers of the kernel. A \<^verbatim>\<open>recv\<close> of no bytes is the peer's close; after its script a socket has no
  more bytes (\<^verbatim>\<open>EAGAIN\<close>), a \<^verbatim>\<open>send\<close> takes everything, no client waits and \<^verbatim>\<open>epoll_ctl\<close> succeeds.
\<close>

datatype recv = Received string | Recv_intr | Recv_again | Recv_error
datatype send = Sent nat | Send_intr | Send_again | Send_error
datatype accept = Accepted int | Accept_block | Accept_error

record 'w tick_state =
  tick_fn :: "'w \<Rightarrow> (bool \<times> 'w) option"
  interval_ms :: int
  next_due_ms :: int

record 'w evloop =
  cfg :: config
  listen_fd :: int
  world :: 'w
  stop_requested :: bool
  conns :: "(int \<times> conn) list"
  armed :: "(int \<times> interest) list"
  closed_this_batch :: "int list"
  tick_states :: "'w tick_state list"
  capacity :: nat
  ctl_script :: "bool list"
  recv_script :: "recv list"
  send_script :: "send list"
  accept_script :: "accept list"
  turned_away :: "(int \<times> string) list"

type_synonym 'w command_handler = "command \<Rightarrow> 'w \<Rightarrow> ((string \<times> bool) \<times> 'w) result"

definition next_ctl :: "'w evloop \<Rightarrow> bool \<times> 'w evloop" where
  "next_ctl l = (case ctl_script l of [] \<Rightarrow> (True, l) | b # bs \<Rightarrow> (b, l\<lparr>ctl_script := bs\<rparr>))"

definition register_fd :: "int \<Rightarrow> interest \<Rightarrow> 'w evloop \<Rightarrow> bool \<times> 'w evloop" where
  "register_fd fd events l =
     (let (ok, l1) = next_ctl l
      in if \<not> ok then (False, l1) else (True, l1\<lparr>armed := AList.update fd events (armed l1)\<rparr>))"

definition modify_fd :: "int \<Rightarrow> interest \<Rightarrow> 'w evloop \<Rightarrow> bool \<times> 'w evloop" where
  "modify_fd fd events l =
     (if map_of (armed l) fd = Some events then (True, l)
      else let (ok, l1) = next_ctl l
           in if \<not> ok then (False, l1) else (True, l1\<lparr>armed := AList.update fd events (armed l1)\<rparr>))"

definition close_connection :: "int \<Rightarrow> 'w evloop \<Rightarrow> 'w evloop" where
  "close_connection fd l =
     l\<lparr>armed := AList.delete fd (armed l), conns := AList.delete fd (conns l),
       closed_this_batch := closed_this_batch l @ [fd]\<rparr>"

definition kFull :: string where
  "kFull = resp_error ''ERR max number of clients reached''"

text \<open>
  The accept loop. A client beyond the limit is told so and closed (\<open>turned_away\<close> is the history of
  what such clients were sent); a client that cannot be registered is closed. \<^verbatim>\<open>conns_.emplace\<close> keeps an entry that is already there.
\<close>

fun accept_loop :: "accept list \<Rightarrow> 'w evloop \<Rightarrow> 'w evloop" where
  "accept_loop [] l = l\<lparr>accept_script := []\<rparr>"
| "accept_loop (a # script) l =
     (case a of
        Accept_block \<Rightarrow> l\<lparr>accept_script := script\<rparr>
      | Accept_error \<Rightarrow> l\<lparr>accept_script := script\<rparr>
      | Accepted fd \<Rightarrow>
          if max_clients (cfg l) \<le> length (conns l)
          then accept_loop script (l\<lparr>turned_away := turned_away l @ [(fd, kFull)]\<rparr>)
          else let (ok, l1) = register_fd fd Epollin l
               in if \<not> ok then accept_loop script l1
                  else accept_loop script
                    (if fd \<in> fst ` set (conns l1) then l1
                     else l1\<lparr>conns := (fd, Connection (cfg_max_frame_bytes (cfg l1))) # conns l1\<rparr>))"

definition accept_new_clients :: "'w evloop \<Rightarrow> 'w evloop" where
  "accept_new_clients l = accept_loop (accept_script l) l"

text \<open>The send loop of \<^verbatim>\<open>flush\<close>: whether the connection is still good.\<close>

fun send_loop :: "send list \<Rightarrow> conn \<Rightarrow> bool \<times> send list \<times> conn" where
  "send_loop [] c = (True, [], consume_outbuf (length (outbuf c)) c)"
| "send_loop (r # script) c =
     (if outbuf c = [] then (True, r # script, c)
      else case r of
        Sent n \<Rightarrow> if n = 0 then (False, script, c) else send_loop script (consume_outbuf n c)
      | Send_intr \<Rightarrow> send_loop script c
      | Send_again \<Rightarrow> (True, script, c)
      | Send_error \<Rightarrow> (False, script, c))"

definition flush :: "int \<Rightarrow> conn \<Rightarrow> 'w evloop \<Rightarrow> bool \<times> 'w evloop" where
  "flush fd c l =
     (let (ok, script, c1) = send_loop (send_script l) c;
          l1 = l\<lparr>send_script := script, conns := AList.update fd c1 (conns l)\<rparr>
      in if \<not> ok then (False, close_connection fd l1)
         else if outbuf c1 = [] then
           if close_after_flush c1 then (False, close_connection fd l1)
           else (True, snd (modify_fd fd Epollin l1))
         else if kMaxOutbufBytes < length (outbuf c1) then (False, close_connection fd l1)
         else (True, snd (modify_fd fd Epollin_epollout l1)))"

text \<open>Every command of a batch: execute, queue the reply; the handler may ask to stop.\<close>

fun serve_all :: "'w command_handler \<Rightarrow> command list \<Rightarrow> conn \<times> 'w \<times> bool \<Rightarrow> (conn \<times> 'w \<times> bool) result" where
  "serve_all h [] st = Inr st"
| "serve_all h (cmd # cmds) (c, w, stop) =
     bind_res (h cmd w) (\<lambda>((reply, stops), w1). serve_all h cmds (queue_reply reply c, w1, stop \<or> stops))"

text \<open>The loop of \<^verbatim>\<open>handle_readable\<close>: whether the connection is still good, and what it has come to.\<close>

fun read_loop ::
  "'w command_handler \<Rightarrow> recv list \<Rightarrow> nat \<Rightarrow> conn \<times> 'w \<times> bool \<Rightarrow>
   (bool \<times> recv list \<times> conn \<times> 'w \<times> bool) result" where
  "read_loop h [] n st = Inr (True, [], st)"
| "read_loop h (r # script) n (c, w, stop) =
     (case r of
        Recv_intr \<Rightarrow> read_loop h script n (c, w, stop)
      | Recv_again \<Rightarrow> Inr (True, script, c, w, stop)
      | Recv_error \<Rightarrow> Inr (False, script, c, w, stop)
      | Received bytes \<Rightarrow>
          if bytes = [] then Inr (False, script, c, w, stop)
          else case feed (rparser c) bytes of
            Inl err \<Rightarrow>
              let c1 = c\<lparr>rparser := feed_final ((rparser c)\<lparr>buf := buf (rparser c) @ bytes\<rparr>), heard := heard c @ bytes\<rparr>;
                  c2 = queue_reply (resp_error (if err = [] then ''ERR Protocol error'' else err)) c1
              in Inr (True, script, mark_close_after_flush c2, w, stop)
          | Inr (p, cmds) \<Rightarrow>
              bind_res (serve_all h cmds (c\<lparr>rparser := p, heard := heard c @ bytes\<rparr>, w, stop)) (\<lambda>(c1, w1, stop1).
                if stop1 \<or> length bytes < kReadChunk \<or> kMaxReadPerEvent \<le> n + length bytes
                then Inr (True, script, c1, w1, stop1)
                else read_loop h script (n + length bytes) (c1, w1, stop1)))"

text \<open>
  The connection is read through a reference; the loop's table gets its new state when it is flushed,
  or loses it when it is closed.
\<close>

definition handle_readable :: "'w command_handler \<Rightarrow> int \<Rightarrow> conn \<Rightarrow> 'w evloop \<Rightarrow> (bool \<times> 'w evloop) result" where
  "handle_readable h fd c l =
     bind_res (read_loop h (recv_script l) 0 (c, world l, stop_requested l)) (\<lambda>(ok, script, c1, w1, stop1).
       let l1 = l\<lparr>recv_script := script, world := w1, stop_requested := stop1\<rparr>
       in if \<not> ok then Inr (False, close_connection fd l1)
          else Inr (flush fd c1 l1))"

text \<open>One event of a batch.\<close>

definition handle_event :: "'w command_handler \<Rightarrow> epoll_event \<Rightarrow> 'w evloop \<Rightarrow> 'w evloop result" where
  "handle_event h ev l =
     (let fd = efd ev
      in if fd = listen_fd l then Inr (accept_new_clients l)
         else if fd \<in> set (closed_this_batch l) then Inr l
         else case map_of (conns l) fd of
           None \<Rightarrow> Inr l
         | Some c \<Rightarrow>
             if epollhup ev then Inr (close_connection fd l)
             else bind_res (if epollin ev then handle_readable h fd c l else Inr (True, l)) (\<lambda>(alive, l1).
               if \<not> alive \<or> \<not> epollout ev then Inr l1
               else case map_of (conns l1) fd of
                 None \<Rightarrow> Inr l1
               | Some c1 \<Rightarrow> Inr (snd (flush fd c1 l1))))"

fun handle_events :: "'w command_handler \<Rightarrow> epoll_event list \<Rightarrow> 'w evloop \<Rightarrow> 'w evloop result" where
  "handle_events h [] l = Inr l"
| "handle_events h (ev # evs) l = bind_res (handle_event h ev l) (handle_events h evs)"

section \<open>Ticks\<close>

fun due_ticks :: "int \<Rightarrow> 'w tick_state list \<Rightarrow> 'w \<times> bool \<Rightarrow> ('w tick_state list \<times> 'w \<times> bool) option" where
  "due_ticks now [] st = Some ([], st)"
| "due_ticks now (t # ts) (w, stop) =
     (if next_due_ms t \<le> now then
        Option.bind (tick_fn t w) (\<lambda>(stops, w1).
          map_option (apfst (Cons (t\<lparr>next_due_ms := now + interval_ms t\<rparr>))) (due_ticks now ts (w1, stop \<or> stops)))
      else map_option (apfst (Cons t)) (due_ticks now ts (w, stop)))"

definition next_due :: "int \<Rightarrow> 'w tick_state list \<Rightarrow> int" where
  "next_due now ts = fold (\<lambda>t m. min m (next_due_ms t)) ts (now + kMaxLoopTimeoutMs)"

definition run_due_ticks :: "int \<Rightarrow> 'w evloop \<Rightarrow> (int \<times> 'w evloop) option" where
  "run_due_ticks now l =
     map_option (\<lambda>(ts, w, stop). (next_due now ts, l\<lparr>tick_states := ts, world := w, stop_requested := stop\<rparr>))
       (due_ticks now (tick_states l) (world l, stop_requested l))"

definition poll_timeout :: "int \<Rightarrow> 'w evloop \<Rightarrow> int" where
  "poll_timeout now l = max 0 (min kMaxLoopTimeoutMs (next_due now (tick_states l) - now))"

section \<open>Running\<close>

text \<open>
  One \<^verbatim>\<open>epoll_wait\<close>: interrupted, failed, or a batch of events with the time read after it. No value is a
  turn that does not end, because a tick does not.
\<close>

datatype poll = Poll_intr | Poll_error | Poll "epoll_event list" int

definition turn :: "'w command_handler \<Rightarrow> poll \<Rightarrow> 'w evloop \<Rightarrow> (LoopStatus option \<times> 'w evloop) result option" where
  "turn h p l =
     (case p of
        Poll_intr \<Rightarrow> Some (Inr (None, l))
      | Poll_error \<Rightarrow> Some (Inr (Some kFatalError, l))
      | Poll evs now \<Rightarrow>
          case handle_events h evs (l\<lparr>closed_this_batch := []\<rparr>) of
            Inl f \<Rightarrow> Some (Inl f)
          | Inr l1 \<Rightarrow>
              map_option (\<lambda>(due, l2).
                Inr (None, if length evs = capacity l2 \<and> capacity l2 < 4096
                           then l2\<lparr>capacity := 2 * capacity l2\<rparr> else l2))
                (run_due_ticks now l1))"

text \<open>The \<^verbatim>\<open>while\<close> over a script of polls. The status is absent while the loop has not returned.\<close>

fun run_polls :: "'w command_handler \<Rightarrow> poll list \<Rightarrow> 'w evloop \<Rightarrow> (LoopStatus option \<times> 'w evloop) result option" where
  "run_polls h ps l =
     (if stop_requested l then Some (Inr (Some kStopped, l\<lparr>conns := [], armed := []\<rparr>))
      else case ps of
        [] \<Rightarrow> Some (Inr (None, l))
      | p # ps1 \<Rightarrow>
          Option.bind (turn h p l) (\<lambda>r.
            case r of
              Inl f \<Rightarrow> Some (Inl f)
            | Inr (Some st, l1) \<Rightarrow> Some (Inr (Some st, l1))
            | Inr (None, l1) \<Rightarrow> run_polls h ps1 l1))"

declare run_polls.simps [simp del]

text \<open>\<^verbatim>\<open>run\<close>: create the epoll instance, register the listener, arm the ticks, loop.\<close>

definition loop_run ::
  "'w command_handler \<Rightarrow> bool \<Rightarrow> (('w \<Rightarrow> (bool \<times> 'w) option) \<times> int) list \<Rightarrow> int \<Rightarrow> poll list \<Rightarrow> 'w evloop \<Rightarrow>
   (LoopStatus option \<times> 'w evloop) result option" where
  "loop_run h epoll_ok ticks start_ms ps l =
     (if \<not> epoll_ok then Some (Inr (Some kFatalError, l))
      else let (ok, l1) = register_fd (listen_fd l) Epollin l
           in if \<not> ok then Some (Inr (Some kFatalError, l1))
              else run_polls h ps
                (l1\<lparr>tick_states := map (\<lambda>(fn, i). \<lparr>tick_fn = fn, interval_ms = i, next_due_ms = start_ms + i\<rparr>) ticks,
                    capacity := 256\<rparr>))"

end
