(* ===== verification/Loop_Laws.thy ===== *)
theory Loop_Laws
  imports Event_Loop
begin

text \<open>
  What the event loop guarantees, whatever the kernel answers and whatever the handler does: limits
  on clients and buffers, replies in order, stale events ignored, ticks once when due, stopping.
\<close>

section \<open>Limits\<close>

text \<open>A connection between two batches, with frame limit \<open>m\<close>.\<close>

definition reading :: "nat \<Rightarrow> conn \<Rightarrow> bool" where
  "reading m c \<longleftrightarrow> (close_after_flush c \<or> parser_ready (rparser c) \<and> max_frame_bytes (rparser c) = m)"

definition conn_ok :: "nat \<Rightarrow> conn \<Rightarrow> bool" where
  "conn_ok m c \<longleftrightarrow>
     reading m c \<and> length (outbuf c) \<le> kMaxOutbufBytes \<and> (close_after_flush c \<longrightarrow> outbuf c \<noteq> [])"

definition loop_wf :: "'w evloop \<Rightarrow> bool" where
  "loop_wf l \<longleftrightarrow>
     distinct (map fst (conns l)) \<and> length (conns l) \<le> max_clients (cfg l) \<and>
     (\<forall>fd c. map_of (conns l) fd = Some c \<longrightarrow> conn_ok (cfg_max_frame_bytes (cfg l)) c)"

lemma length_update: "map_of al k \<noteq> None \<Longrightarrow> length (AList.update k v al) = length al"
  using arg_cong [OF update_keys [of k v al], of length] by (auto simp: map_of_eq_None_iff)

lemma next_ctl_fields [simp]:
  "conns (snd (next_ctl l)) = conns l" "cfg (snd (next_ctl l)) = cfg l" "world (snd (next_ctl l)) = world l"
  "armed (snd (next_ctl l)) = armed l" "stop_requested (snd (next_ctl l)) = stop_requested l"
  "closed_this_batch (snd (next_ctl l)) = closed_this_batch l" "listen_fd (snd (next_ctl l)) = listen_fd l"
  "tick_states (snd (next_ctl l)) = tick_states l" "capacity (snd (next_ctl l)) = capacity l"
  by (simp_all add: next_ctl_def split: list.split)

lemma fd_fields [simp]:
  "conns (snd (modify_fd fd e l)) = conns l" "cfg (snd (modify_fd fd e l)) = cfg l"
  "world (snd (modify_fd fd e l)) = world l" "stop_requested (snd (modify_fd fd e l)) = stop_requested l"
  "closed_this_batch (snd (modify_fd fd e l)) = closed_this_batch l" "listen_fd (snd (modify_fd fd e l)) = listen_fd l"
  "conns (snd (register_fd fd e l)) = conns l" "cfg (snd (register_fd fd e l)) = cfg l"
  "world (snd (register_fd fd e l)) = world l" "stop_requested (snd (register_fd fd e l)) = stop_requested l"
  "closed_this_batch (snd (register_fd fd e l)) = closed_this_batch l" "listen_fd (snd (register_fd fd e l)) = listen_fd l"
  by (simp_all add: modify_fd_def register_fd_def Let_def split_beta)

lemma loop_wf_close: "loop_wf l \<Longrightarrow> loop_wf (close_connection fd l)"
  using length_delete_le [of fd "conns l"]
  by (auto simp: loop_wf_def close_connection_def distinct_delete map_of_delete split: if_splits)

lemma conn_ok_new: "conn_ok m (Connection m)"
  by (simp add: conn_ok_def reading_def Connection_def) (simp add: RespParser_def)

lemma loop_wf_accept: "loop_wf l \<Longrightarrow> loop_wf (accept_loop script l)"
proof (induction script l rule: accept_loop.induct)
  case (1 l)
  then show ?case by (simp add: loop_wf_def)
next
  case (2 a script l)
  show ?case
  proof (cases "\<exists>fd. a = Accepted fd \<and> \<not> max_clients (cfg l) \<le> length (conns l)")
    case True
    then obtain fd where a: "a = Accepted fd" "\<not> max_clients (cfg l) \<le> length (conns l)" by blast
    obtain ok l1 where reg: "register_fd fd Epollin l = (ok, l1)" by fastforce
    have l1: "conns l1 = conns l" "cfg l1 = cfg l"
      using arg_cong [OF reg, of snd] fd_fields(7,8) [of fd Epollin l] by simp_all
    define l2 where "l2 = (if fd \<in> fst ` set (conns l1) then l1
        else l1\<lparr>conns := (fd, Connection (cfg_max_frame_bytes (cfg l1))) # conns l1\<rparr>)"
    have "loop_wf l1" using "2.prems" l1 by (simp add: loop_wf_def)
    moreover have "loop_wf l2"
      using "2.prems" a(2) l1 conn_ok_new by (auto simp: loop_wf_def l2_def)
    ultimately show ?thesis
      using "2.IH"(2) [OF a reg [symmetric]] "2.IH"(3) [OF a reg [symmetric]] a reg by (simp add: l2_def)
  next
    case False
    with "2.IH"(1) "2.prems" show ?thesis by (cases a) (auto simp: loop_wf_def)
  qed
qed

lemma send_loop_conn:
  "send_loop script c = (ok, script', c') \<Longrightarrow>
     rparser c' = rparser c \<and> close_after_flush c' = close_after_flush c \<and> heard c' = heard c \<and> wire c' @ outbuf c' = wire c @ outbuf c"
proof (induction script arbitrary: c)
  case (Cons r script)
  then show ?case
    by (cases r) (fastforce simp: consume_outbuf_def split: if_splits)+
qed (auto simp: consume_outbuf_def)

text \<open>A flush of a connection the loop owns: it is closed, or within its limits again.\<close>

lemma loop_wf_flush:
  assumes "loop_wf l" and "map_of (conns l) fd \<noteq> None" and "reading (cfg_max_frame_bytes (cfg l)) c"
  shows "loop_wf (snd (flush fd c l))"
proof -
  obtain ok script c1 where s: "send_loop (send_script l) c = (ok, script, c1)" by (cases "send_loop (send_script l) c")
  note c1 = send_loop_conn [OF s]
  define l1 where "l1 = l\<lparr>send_script := script, conns := AList.update fd c1 (conns l)\<rparr>"
  have "reading (cfg_max_frame_bytes (cfg l)) c1" using c1 assms(3) by (simp add: reading_def)
  then have "loop_wf l1" if "length (outbuf c1) \<le> kMaxOutbufBytes" "close_after_flush c1 \<longrightarrow> outbuf c1 \<noteq> []"
    using that assms(1) length_update [OF assms(2)]
    by (auto simp: loop_wf_def l1_def distinct_update update_conv' conn_ok_def)
  moreover have "loop_wf (close_connection fd l1)"
    using assms(1) length_delete_le [of fd "AList.update fd c1 (conns l)"] length_update [OF assms(2), of c1]
    by (auto simp: loop_wf_def l1_def close_connection_def distinct_delete distinct_update map_of_delete update_conv'
        split: if_splits)
  moreover have "loop_wf (snd (modify_fd fd e l1)) = loop_wf l1" for e
    by (simp add: loop_wf_def)
  ultimately show ?thesis
    by (auto simp: flush_def s l1_def [symmetric] Let_def)
qed

text \<open>Serving a batch is running the handler as a service and queueing the replies.\<close>

lemma serve_all_service:
  "serve_all h cmds (c, w, stop) =
     bind_res (run_service h cmds w) (\<lambda>(rs, w1).
       Inr (queue_reply (concat (map fst rs)) c, w1, stop \<or> (\<exists>r \<in> set rs. snd r)))"
proof (induction cmds arbitrary: c w stop)
  case (Cons cmd cmds)
  have "serve_all h cmds (queue_reply reply c, w1, stop \<or> stops) =
      bind_res (run_service h cmds w1) (\<lambda>(rs, w2).
        Inr (queue_reply (concat (map fst ((reply, stops) # rs))) c, w2, stop \<or> (\<exists>r \<in> set ((reply, stops) # rs). snd r)))"
    for reply stops w1
    unfolding Cons.IH by (intro arg_cong2 [of _ _ _ _ bind_res] refl ext) (auto simp: queue_reply_def)
  then show ?case
    by (auto simp: bind_res_case split: sum.split)
qed (simp add: queue_reply_def)

lemma serve_all_conn:
  assumes "serve_all h cmds (c, w, stop) = Inr (c', w', stop')"
  shows "rparser c' = rparser c \<and> close_after_flush c' = close_after_flush c \<and> heard c' = heard c \<and> wire c' = wire c \<and> (stop \<longrightarrow> stop') \<and>
     (\<exists>rs. run_service h cmds w = Inr (rs, w') \<and> outbuf c' = outbuf c @ concat (map fst rs))"
  using assms by (auto simp: serve_all_service bind_res_Inr_iff queue_reply_def)

text \<open>The connection after a protocol error.\<close>

definition refused :: "string \<Rightarrow> string \<Rightarrow> conn \<Rightarrow> conn" where
  "refused bytes err c =
     mark_close_after_flush (queue_reply (resp_error (if err = [] then ''ERR Protocol error'' else err))
       (c\<lparr>rparser := feed_final ((rparser c)\<lparr>buf := buf (rparser c) @ bytes\<rparr>), heard := heard c @ bytes\<rparr>))"

text \<open>An invariant of the reading loop: kept by every accepted chunk, and by a refusal.\<close>

lemma read_loop_inv:
  assumes accepted: "\<And>c w stop bytes p cmds c1 w1 stop1. I c w stop \<Longrightarrow> feed (rparser c) bytes = Inr (p, cmds) \<Longrightarrow>
      serve_all h cmds (c\<lparr>rparser := p, heard := heard c @ bytes\<rparr>, w, stop) = Inr (c1, w1, stop1) \<Longrightarrow> I c1 w1 stop1"
    and refuse: "\<And>c w stop bytes err. I c w stop \<Longrightarrow> feed (rparser c) bytes = Inl err \<Longrightarrow> I (refused bytes err c) w stop"
  shows "read_loop h script n (c, w, stop) = Inr (ok, script', c', w', stop') \<Longrightarrow> I c w stop \<Longrightarrow> I c' w' stop'"
proof (induction script arbitrary: n c w stop)
  case (Cons r script)
  show ?case
  proof (cases r)
    case (Received bytes)
    show ?thesis
    proof (cases "bytes = []")
      case False
      show ?thesis
      proof (cases "feed (rparser c) bytes")
        case (Inl err)
        with Cons.prems Received False refuse [OF Cons.prems(2) Inl] show ?thesis
          by (auto simp: refused_def Let_def)
      next
        case (Inr pc)
        obtain p cmds where pc: "pc = (p, cmds)" by fastforce
        with Cons.prems(1) Received False Inr obtain c1 w1 stop1
          where sv: "serve_all h cmds (c\<lparr>rparser := p, heard := heard c @ bytes\<rparr>, w, stop) = Inr (c1, w1, stop1)"
          and rest: "(if stop1 \<or> length bytes < kReadChunk \<or> kMaxReadPerEvent \<le> n + length bytes
             then Inr (True, script, c1, w1, stop1)
             else read_loop h script (n + length bytes) (c1, w1, stop1)) = Inr (ok, script', c', w', stop')"
          by (auto simp: bind_res_Inr_iff)
        from accepted [OF Cons.prems(2) Inr [unfolded pc] sv] rest Cons.IH show ?thesis
          by (auto split: if_splits)
      qed
    qed (use Cons.prems Received in simp)
  qed (use Cons in auto)
qed simp

lemma read_loop_reading:
  assumes "read_loop h script n (c, w, stop) = Inr (ok, script', c', w', stop')" and "reading m c"
  shows "reading m c'"
proof (rule read_loop_inv [where I = "\<lambda>c w stop. reading m c", OF _ _ assms])
  show "reading m c1" if "reading m c" "feed (rparser c) bytes = Inr (p, cmds)"
    "serve_all h cmds (c\<lparr>rparser := p, heard := heard c @ bytes\<rparr>, w, stop) = Inr (c1, w1, stop1)" for c bytes p cmds c1 w stop w1 stop1
    using serve_all_conn [OF that(3)] that(1) feed_ready [OF _ that(2)] by (auto simp: reading_def)
qed (simp add: reading_def refused_def mark_close_after_flush_def)

lemma handle_readable_Inr:
  assumes "handle_readable h fd c l = Inr (alive, l')"
  obtains ok script c1 w1 stop1 l1 where
    "read_loop h (recv_script l) 0 (c, world l, stop_requested l) = Inr (ok, script, c1, w1, stop1)"
    "l1 = l\<lparr>recv_script := script, world := w1, stop_requested := stop1\<rparr>"
    "(alive, l') = (if ok then flush fd c1 l1 else (False, close_connection fd l1))"
  using assms by (auto simp: handle_readable_def bind_res_Inr_iff Let_def split: if_splits)

lemma close_fields [simp]:
  "cfg (close_connection fd l) = cfg l" "world (close_connection fd l) = world l"
  "stop_requested (close_connection fd l) = stop_requested l" "listen_fd (close_connection fd l) = listen_fd l"
  "conns (close_connection fd l) = AList.delete fd (conns l)"
  "closed_this_batch (close_connection fd l) = closed_this_batch l @ [fd]"
  by (simp_all add: close_connection_def)

lemma flush_fields [simp]:
  "cfg (snd (flush fd c l)) = cfg l" "world (snd (flush fd c l)) = world l"
  "stop_requested (snd (flush fd c l)) = stop_requested l" "listen_fd (snd (flush fd c l)) = listen_fd l"
  by (simp_all add: flush_def Let_def split_beta)

lemma loop_wf_readable:
  assumes "loop_wf l" and "map_of (conns l) fd = Some c" and "handle_readable h fd c l = Inr (alive, l')"
  shows "loop_wf l' \<and> cfg l' = cfg l"
  using assms(3)
proof (cases rule: handle_readable_Inr)
  case (1 ok script c1 w1 stop1 l1)
  have l1: "loop_wf l1" "conns l1 = conns l" "cfg l1 = cfg l" using assms(1) by (simp_all add: 1(2) loop_wf_def)
  have "reading (cfg_max_frame_bytes (cfg l1)) c1"
    using read_loop_reading [OF 1(1)] assms(1,2) l1(3) by (auto simp: loop_wf_def conn_ok_def)
  then have "loop_wf (snd (flush fd c1 l1))"
    using loop_wf_flush [OF l1(1)] assms(2) l1(2) by simp
  with loop_wf_close [OF l1(1), of fd] arg_cong [OF 1(3), of snd] l1(3) show ?thesis
    by (auto split: if_splits)
qed

lemma accept_loop_fields [simp]:
  "cfg (accept_loop script l) = cfg l" "world (accept_loop script l) = world l"
  "stop_requested (accept_loop script l) = stop_requested l" "listen_fd (accept_loop script l) = listen_fd l"
  "closed_this_batch (accept_loop script l) = closed_this_batch l"
  by (induction script arbitrary: l) (simp_all add: Let_def split_beta split: accept.split)

lemma handle_event_Inr:
  assumes run: "handle_event h ev l = Inr l'" and fd: "fd = efd ev"
  obtains (listener) "fd = listen_fd l" "l' = accept_new_clients l"
    | (stale) "fd \<noteq> listen_fd l" "fd \<in> set (closed_this_batch l) \<or> map_of (conns l) fd = None" "l' = l"
    | (hangup) c where "fd \<noteq> listen_fd l" "fd \<notin> set (closed_this_batch l)" "map_of (conns l) fd = Some c"
        "l' = close_connection fd l"
    | (live) c alive l1 where "fd \<noteq> listen_fd l" "fd \<notin> set (closed_this_batch l)" "map_of (conns l) fd = Some c"
        "(if epollin ev then handle_readable h fd c l else Inr (True, l)) = Inr (alive, l1)"
        "l' = l1 \<or> (\<exists>c1. map_of (conns l1) fd = Some c1 \<and> l' = snd (flush fd c1 l1))"
proof -
  note eq = run [unfolded handle_event_def Let_def, folded fd]
  show thesis
  proof (cases "fd = listen_fd l \<or> fd \<in> set (closed_this_batch l)")
    case True
    with eq show thesis
      by (cases "fd = listen_fd l") (simp_all add: listener stale)
  next
    case ok: False
    show thesis
    proof (cases "map_of (conns l) fd")
      case None
      with ok eq show thesis by (simp add: stale)
    next
      case (Some c)
      show thesis
      proof (cases "epollhup ev")
        case True
        with Some ok eq show thesis by (simp add: hangup)
      next
        case False
        with Some ok eq obtain alive l1 where
          rd: "(if epollin ev then handle_readable h fd c l else Inr (True, l)) = Inr (alive, l1)"
          and l': "(if \<not> alive \<or> \<not> epollout ev then Inr l1
               else case map_of (conns l1) fd of
                 None \<Rightarrow> Inr l1 | Some c1 \<Rightarrow> Inr (snd (flush fd c1 l1))) = (Inr l' :: 'a evloop result)"
          by (simp only: bind_res_Inr_iff if_False option.case de_Morgan_disj simp_thms) auto
        from l' have "l' = l1 \<or> (\<exists>c1. map_of (conns l1) fd = Some c1 \<and> l' = snd (flush fd c1 l1))"
          by (simp split: if_splits option.splits)
        with ok Some rd show thesis by (intro live) auto
      qed
    qed
  qed
qed

lemma loop_wf_event:
  assumes wf: "loop_wf l" and "handle_event h ev l = Inr l'"
  shows "loop_wf l' \<and> cfg l' = cfg l"
  using assms(2) refl
proof (cases rule: handle_event_Inr)
  case listener
  with loop_wf_accept [OF wf] show ?thesis by (simp add: accept_new_clients_def)
next
  case stale
  with wf show ?thesis by simp
next
  case (hangup c)
  with loop_wf_close [OF wf] show ?thesis by simp
next
  case (live c alive l1)
  have l1: "loop_wf l1" "cfg l1 = cfg l"
    using live(4) wf loop_wf_readable [OF wf live(3)] by (auto split: if_splits)
  have "loop_wf (snd (flush (efd ev) c1 l1))" if "map_of (conns l1) (efd ev) = Some c1" for c1
    using that l1(1) by (intro loop_wf_flush) (auto simp: loop_wf_def conn_ok_def)
  with l1 live(5) show ?thesis by auto
qed

lemma loop_wf_events: "loop_wf l \<Longrightarrow> handle_events h evs l = Inr l' \<Longrightarrow> loop_wf l' \<and> cfg l' = cfg l"
proof (induction evs arbitrary: l)
  case (Cons ev evs)
  then obtain l1 where "handle_event h ev l = Inr l1" "handle_events h evs l1 = Inr l'"
    by (auto simp: bind_res_Inr_iff)
  with Cons.IH [of l1] loop_wf_event [OF Cons.prems(1)] show ?case by auto
qed simp

lemma run_due_ticks_fields:
  "run_due_ticks now l = Some (due, l') \<Longrightarrow> conns l' = conns l \<and> cfg l' = cfg l \<and> closed_this_batch l' = closed_this_batch l"
  by (auto simp: run_due_ticks_def)

lemma loop_wf_turn:
  assumes "loop_wf l" and "turn h p l = Some (Inr (st, l'))"
  shows "loop_wf l' \<and> cfg l' = cfg l"
proof (cases p)
  case (Poll evs now)
  with assms(2) obtain l1 due l2 where
    ev: "handle_events h evs (l\<lparr>closed_this_batch := []\<rparr>) = Inr l1" and tk: "run_due_ticks now l1 = Some (due, l2)"
    and l': "l' = l2 \<or> l' = l2\<lparr>capacity := 2 * capacity l2\<rparr>"
    by (auto simp: turn_def split: sum.splits)
  have "loop_wf (l\<lparr>closed_this_batch := []\<rparr>)" using assms(1) by (simp add: loop_wf_def)
  from loop_wf_events [OF this ev] run_due_ticks_fields [OF tk] l' show ?thesis
    by (auto simp: loop_wf_def)
qed (use assms in \<open>auto simp: turn_def\<close>)

lemma run_polls_Cons:
  assumes "run_polls h (p # ps) l = Some (Inr (st, l'))" and "\<not> stop_requested l"
  obtains (returned) st1 where "turn h p l = Some (Inr (Some st1, l'))" "st = Some st1"
    | (goes_on) l1 where "turn h p l = Some (Inr (None, l1))" "run_polls h ps l1 = Some (Inr (st, l'))"
proof (cases "turn h p l")
  case None
  with assms show thesis by (simp add: run_polls.simps [of h "p # ps"])
next
  case (Some r)
  show thesis
  proof (cases r)
    case (Inl f)
    with Some assms show thesis by (simp add: run_polls.simps [of h "p # ps"])
  next
    case (Inr sl)
    with Some assms returned goes_on show thesis
      by (cases sl; cases "fst sl") (auto simp: run_polls.simps [of h "p # ps"])
  qed
qed

lemma loop_wf_run:
  "run_polls h ps l = Some (Inr (st, l')) \<Longrightarrow> loop_wf l \<Longrightarrow> loop_wf l' \<and> cfg l' = cfg l"
proof (induction ps arbitrary: l)
  case Nil
  then show ?case by (auto simp: run_polls.simps loop_wf_def split: if_splits)
next
  case (Cons p ps)
  show ?case
  proof (cases "stop_requested l")
    case True
    with Cons.prems show ?thesis by (auto simp: run_polls.simps loop_wf_def)
  next
    case False
    from Cons.prems(1) False show ?thesis
    proof (cases rule: run_polls_Cons)
      case (returned st1)
      with loop_wf_turn [OF Cons.prems(2)] show ?thesis by blast
    next
      case (goes_on l1)
      with loop_wf_turn [OF Cons.prems(2) goes_on(1)] Cons.IH [OF goes_on(2)] show ?thesis by simp
    qed
  qed
qed

text \<open>The run after a successful start.\<close>

lemma loop_run_cases:
  assumes "loop_run h epoll_ok ticks start_ms ps l = r"
  obtains (failed) l1 where "r = Some (Inr (Some kFatalError, l1))" "conns l1 = conns l" "cfg l1 = cfg l" "world l1 = world l"
    | (started) l1 where "r = run_polls h ps l1" "conns l1 = conns l" "cfg l1 = cfg l" "world l1 = world l"
        "stop_requested l1 = stop_requested l" "listen_fd l1 = listen_fd l"
        "tick_states l1 = map (\<lambda>(fn, i). \<lparr>tick_fn = fn, interval_ms = i, next_due_ms = start_ms + i\<rparr>) ticks"
proof (cases "epoll_ok \<and> fst (register_fd (listen_fd l) Epollin l)")
  case True
  let ?l1 = "(snd (register_fd (listen_fd l) Epollin l))
    \<lparr>tick_states := map (\<lambda>(fn, i). \<lparr>tick_fn = fn, interval_ms = i, next_due_ms = start_ms + i\<rparr>) ticks, capacity := 256\<rparr>"
  have "r = run_polls h ps ?l1"
    using True assms by (auto simp: loop_run_def Let_def split_beta)
  then show thesis by (rule started) simp_all
next
  case False
  then have "r = Some (Inr (Some kFatalError, if epoll_ok then snd (register_fd (listen_fd l) Epollin l) else l))"
    using assms by (auto simp: loop_run_def Let_def split_beta)
  then show thesis by (rule failed) simp_all
qed


text \<open>A loop over a handler that says OK to everything, with two clients waiting where one is allowed.\<close>

definition quiet_loop :: "nat \<Rightarrow> accept list \<Rightarrow> recv list \<Rightarrow> send list \<Rightarrow> unit evloop" where
  "quiet_loop n accepts recvs sends =
     \<lparr>cfg = Config\<lparr>max_clients := n\<rparr>, listen_fd = 3, world = (), stop_requested = False, conns = [], armed = [],
      closed_this_batch = [], tick_states = [], capacity = 256, ctl_script = [], recv_script = recvs,
      send_script = sends, accept_script = accepts, turned_away = []\<rparr>"

definition ok_handler :: "unit command_handler" where
  "ok_handler cmd w = Inr ((resp_simple ''OK'', False), w)"

definition ready_event :: "int \<Rightarrow> epoll_event" where
  "ready_event fd = \<lparr>efd = fd, epollin = True, epollout = False, epollhup = False\<rparr>"


section \<open>Flushing\<close>

text \<open>
  C29. A flush loses, repeats and reorders nothing: what the kernel has taken of the connection and
  what still waits are together what they were. The connection is closed, and the caller told so,
  exactly when sending failed, or all is sent and it was to be closed, or too much is left; otherwise
  it is in the table with what remains, and, where \<^verbatim>\<open>epoll_ctl\<close> works, armed for writing if and only if
  something remains.
\<close>

theorem flush_correct:
  assumes "send_loop (send_script l) c = (ok, script, c1)"
  shows "wire c1 @ outbuf c1 = wire c @ outbuf c \<and>
     (let (alive, l') = flush fd c l
      in alive = (ok \<and> (outbuf c1 = [] \<longrightarrow> \<not> close_after_flush c) \<and> length (outbuf c1) \<le> kMaxOutbufBytes) \<and>
         map_of (conns l') fd = (if alive then Some c1 else None) \<and>
         (alive \<and> ctl_script l = [] \<longrightarrow>
            map_of (armed l') fd = Some (if outbuf c1 = [] then Epollin else Epollin_epollout)) \<and>
         (\<forall>fd'. fd' \<noteq> fd \<longrightarrow> map_of (conns l') fd' = map_of (conns l) fd'))"
proof -
  have c1: "close_after_flush c1 = close_after_flush c" "wire c1 @ outbuf c1 = wire c @ outbuf c"
    using send_loop_conn [OF assms] by simp_all
  define l1 where "l1 = l\<lparr>send_script := script, conns := AList.update fd c1 (conns l)\<rparr>"
  have eq: "flush fd c l =
      (if ok \<and> (outbuf c1 = [] \<longrightarrow> \<not> close_after_flush c) \<and> length (outbuf c1) \<le> kMaxOutbufBytes
       then (True, snd (modify_fd fd (if outbuf c1 = [] then Epollin else Epollin_epollout) l1))
       else (False, close_connection fd l1))"
    using c1(1) by (simp add: flush_def assms l1_def Let_def)
  have "map_of (armed (snd (modify_fd fd e l1))) fd = Some e" if "ctl_script l = []" for e
    using that by (simp add: modify_fd_def next_ctl_def l1_def update_conv')
  with c1(2) show ?thesis
    by (simp add: eq l1_def update_conv' map_of_delete)
qed

text \<open>A client that reads two bytes and stalls.\<close>

theorem flush_correct_witness:
  "let c = queue_reply ''+OK'' (Connection 64); (alive, l') = flush 5 c (quiet_loop 1 [] [] [Sent 2, Send_again])
   in alive \<and> map_option (\<lambda>c. (wire c, outbuf c)) (map_of (conns l') 5) = Some (''+O'', ''K'') \<and>
      map_of (armed l') 5 = Some Epollin_epollout"
proof -
  let ?c = "queue_reply ''+OK'' (Connection 64)" and ?l = "quiet_loop 1 [] [] [Sent 2, Send_again]"
  have "send_loop (send_script ?l) ?c = (True, [], consume_outbuf 2 ?c)"
    by (simp add: quiet_loop_def queue_reply_def Connection_def consume_outbuf_def)
  from flush_correct [OF this, of 5] show ?thesis
    by (auto simp: queue_reply_def Connection_def consume_outbuf_def Let_def quiet_loop_def kMaxOutbufBytes_def
        split: prod.splits)
qed

section \<open>Ticks\<close>

lemma next_due_le:
  "next_due now ts \<le> now + kMaxLoopTimeoutMs \<and> (\<forall>t \<in> set ts. next_due now ts \<le> next_due_ms t)"
proof -
  have "fold (\<lambda>t m. min m (next_due_ms t)) ts m \<le> m \<and>
      (\<forall>t \<in> set ts. fold (\<lambda>t m. min m (next_due_ms t)) ts m \<le> next_due_ms t)" for m
  proof (induction ts arbitrary: m)
    case (Cons t ts)
    from Cons.IH [of "min m (next_due_ms t)"] show ?case by auto
  qed simp
  then show ?thesis by (simp add: next_due_def)
qed

lemma next_due_greater: "(\<forall>t \<in> set ts. now < next_due_ms t) \<Longrightarrow> now < next_due now ts"
proof -
  have "(\<forall>t \<in> set ts. now < next_due_ms t) \<Longrightarrow> now < m \<Longrightarrow> now < fold (\<lambda>t m. min m (next_due_ms t)) ts m" for m
    by (induction ts arbitrary: m) auto
  then show "(\<forall>t \<in> set ts. now < next_due_ms t) \<Longrightarrow> now < next_due now ts"
    by (simp add: next_due_def kMaxLoopTimeoutMs_def)
qed

lemma due_ticks_states:
  "due_ticks now ts (w, stop) = Some (ts', w', stop') \<Longrightarrow> ts' =
     map (\<lambda>t. if next_due_ms t \<le> now then t\<lparr>next_due_ms := now + interval_ms t\<rparr> else t) ts"
  by (induction ts arbitrary: w stop ts') (auto simp: bind_eq_Some_conv split: if_splits)

lemma due_ticks_none_due: "\<forall>t \<in> set ts. now < next_due_ms t \<Longrightarrow> due_ticks now ts (w, stop) = Some (ts, w, stop)"
  by (induction ts) auto



section \<open>Stale events\<close>

definition fresh_conn :: "'w evloop \<Rightarrow> conn" where
  "fresh_conn l = Connection (cfg_max_frame_bytes (cfg l))"

text \<open>What a step does to the descriptors it is not about.\<close>

definition spares :: "int \<Rightarrow> 'w evloop \<Rightarrow> 'w evloop \<Rightarrow> bool" where
  "spares fd l l' \<longleftrightarrow>
     listen_fd l' = listen_fd l \<and> cfg l' = cfg l \<and> set (closed_this_batch l) \<subseteq> set (closed_this_batch l') \<and>
     (map_of (conns l') fd = map_of (conns l) fd \<or> map_of (conns l) fd = None \<and> map_of (conns l') fd = Some (fresh_conn l))"

lemma spares_trans: "spares fd l l1 \<Longrightarrow> spares fd l1 l2 \<Longrightarrow> spares fd l l2"
  by (auto simp: spares_def fresh_conn_def)

lemma spares_close: "fd' \<noteq> fd \<Longrightarrow> spares fd l (close_connection fd' l)"
  by (auto simp: spares_def map_of_delete)

lemma spares_flush: "fd' \<noteq> fd \<Longrightarrow> spares fd l (snd (flush fd' c l))"
  by (auto simp: spares_def flush_def Let_def split_beta update_conv' map_of_delete)

lemma spares_accept: "spares fd l (accept_loop script l)"
proof (induction script l rule: accept_loop.induct)
  case (1 l)
  show ?case by (simp add: spares_def)
next
  case (2 a script l)
  show ?case
  proof (cases "\<exists>fd'. a = Accepted fd' \<and> \<not> max_clients (cfg l) \<le> length (conns l)")
    case True
    then obtain fd' where a: "a = Accepted fd'" "\<not> max_clients (cfg l) \<le> length (conns l)" by blast
    obtain ok l1 where reg: "register_fd fd' Epollin l = (ok, l1)" by fastforce
    note l1 = fd_fields(7-12) [of fd' Epollin l, unfolded reg snd_conv]
    define l2 where "l2 = (if fd' \<in> fst ` set (conns l1) then l1
        else l1\<lparr>conns := (fd', Connection (cfg_max_frame_bytes (cfg l1))) # conns l1\<rparr>)"
    have "spares fd l l1" using l1 by (simp add: spares_def)
    moreover have "spares fd l l2"
      using l1 by (auto simp: spares_def l2_def fresh_conn_def map_of_eq_None_iff image_iff)
    moreover have "accept_loop (a # script) l = accept_loop script (if ok then l2 else l1)"
      using a reg by (simp add: l2_def)
    moreover have "ok \<Longrightarrow> spares fd l2 (accept_loop script l2)" "\<not> ok \<Longrightarrow> spares fd l1 (accept_loop script l1)"
      using "2.IH"(2,3) [OF a reg [symmetric] refl] by (simp_all only: l2_def not_not simp_thms)
    ultimately show ?thesis
      using spares_trans by (cases ok) (simp_all only: if_True if_False, blast+)
  next
    case False
    with "2.IH"(1) show ?thesis by (cases a) (auto simp: spares_def fresh_conn_def)
  qed
qed

lemma spares_readable:
  assumes "handle_readable h fd' c l = Inr (alive, l')" and "fd' \<noteq> fd"
  shows "spares fd l l'"
  using assms(1)
proof (cases rule: handle_readable_Inr)
  case (1 ok script c1 w1 stop1 l1)
  have "spares fd l l1" by (simp add: 1(2) spares_def)
  with arg_cong [OF 1(3), of snd] spares_flush [OF assms(2)] spares_close [OF assms(2)] show ?thesis
    by (auto intro: spares_trans split: if_splits)
qed

lemma spares_event:
  assumes "handle_event h ev l = Inr l'" and "fd \<noteq> efd ev \<or> fd \<in> set (closed_this_batch l)" and "fd \<noteq> listen_fd l"
  shows "spares fd l l'"
  using assms(1) refl
proof (cases rule: handle_event_Inr)
  case listener
  with spares_accept show ?thesis by (simp add: accept_new_clients_def)
next
  case stale
  then show ?thesis by (simp add: spares_def)
next
  case (hangup c)
  then have "efd ev \<noteq> fd" using assms(2) by blast
  then show ?thesis unfolding hangup(4) by (rule spares_close)
next
  case (live c alive l1)
  have fd: "efd ev \<noteq> fd" using live(2) assms(2) by blast
  have l1: "spares fd l l1"
  proof (cases "epollin ev")
    case True
    with live(4) show ?thesis by (simp add: spares_readable [OF _ fd])
  next
    case False
    with live(4) show ?thesis by (simp add: spares_def)
  qed
  from live(5) show ?thesis
  proof
    assume "\<exists>c1. map_of (conns l1) (efd ev) = Some c1 \<and> l' = snd (flush (efd ev) c1 l1)"
    then show ?thesis using spares_trans [OF l1 spares_flush [OF fd]] by blast
  qed (simp add: l1)
qed

lemma spares_events:
  "handle_events h evs l = Inr l' \<Longrightarrow> fd \<in> set (closed_this_batch l) \<Longrightarrow> fd \<noteq> listen_fd l \<Longrightarrow> spares fd l l'"
proof (induction evs arbitrary: l)
  case (Cons ev evs)
  then obtain l1 where l1: "handle_event h ev l = Inr l1" "handle_events h evs l1 = Inr l'"
    by (auto simp: bind_res_Inr_iff)
  from spares_event [OF l1(1)] Cons.prems have "spares fd l l1" by blast
  with Cons.IH [OF l1(2)] Cons.prems(2,3) show ?case
    by (auto simp: spares_def fresh_conn_def)
qed (simp add: spares_def)

text \<open>
  C31. Stale events never touch the wrong connection. Once a descriptor has been closed in a batch, the
  rest of the batch, whatever events it holds, leaves that number alone: the connection under it is
  the one that is there already, or one accepted meanwhile and untouched.
\<close>

theorem stale_events_ignored:
  assumes "handle_events h evs l = Inr l'" and "fd \<in> set (closed_this_batch l)" and "fd \<noteq> listen_fd l"
  shows "(\<forall>ev. efd ev = fd \<longrightarrow> handle_event h ev l = Inr l) \<and>
     (map_of (conns l') fd = map_of (conns l) fd \<or>
      map_of (conns l) fd = None \<and> map_of (conns l') fd = Some (Connection (cfg_max_frame_bytes (cfg l))))"
  using spares_events [OF assms] assms(2,3) by (auto simp: spares_def fresh_conn_def handle_event_def)

text \<open>Descriptor 5 is closed, reused by the next client, and named by one more event of the batch.\<close>

theorem stale_events_ignored_witness:
  "\<exists>l'. handle_events ok_handler [ready_event 3, ready_event 5]
       (close_connection 5 (quiet_loop 1 [Accepted 5] [Received ''PING''] [])) = Inr l' \<and>
     map_of (conns l') 5 = Some (Connection (64 * 2 ^ 20)) \<and> recv_script l' = [Received ''PING'']"
proof -
  let ?l = "close_connection 5 (quiet_loop 1 [Accepted 5] [Received ''PING''] [])"
  note defs = quiet_loop_def close_connection_def
  have "map_sum id (\<lambda>l'. (map fst (conns l'), recv_script l')) (handle_events ok_handler [ready_event 3, ready_event 5] ?l) =
      Inr ([5], [Received ''PING''])"
    by (simp add: defs ready_event_def handle_event_def accept_new_clients_def register_fd_def next_ctl_def Let_def)
  then obtain l' where l': "handle_events ok_handler [ready_event 3, ready_event 5] ?l = Inr l'"
    "map fst (conns l') = [5]" "recv_script l' = [Received ''PING'']"
    by (cases "handle_events ok_handler [ready_event 3, ready_event 5] ?l") auto
  have start: "map_of (conns ?l) 5 = None" "5 \<in> set (closed_this_batch ?l)" "5 \<noteq> listen_fd ?l"
    "cfg_max_frame_bytes (cfg ?l) = 64 * 2 ^ 20"
    by (simp_all add: defs Config_def)
  have "map_of (conns l') 5 \<noteq> None" using l'(2) by (auto simp: map_of_eq_None_iff)
  with stale_events_ignored [OF l'(1) start(2,3)] start l' show ?thesis by auto
qed

end
