(* ===== verification/Reactor.thy ===== *)
theory Reactor
  imports Loop_Laws
begin

text \<open>
  What the event loop is to its clients and to the server behind it. A run of the loop is a run of the
  handler and the ticks, one after the other, on one world; and every client gets, byte for byte, the
  replies to the commands that its own bytes encode, in their order.
\<close>

section \<open>Service\<close>

text \<open>
  The abstract loop: answers to commands, each of some descriptor, with background functions run in
  between. The trace holds the answers.
\<close>

type_synonym answer = "int \<times> command \<times> string"

inductive serves :: "'w command_handler \<Rightarrow> ('w \<Rightarrow> (bool \<times> 'w) option) set \<Rightarrow> 'w \<Rightarrow> answer list \<Rightarrow> 'w \<Rightarrow> bool"
  for h fns w where
  idle: "serves h fns w [] w"
| answer: "serves h fns w tr w1 \<Longrightarrow> h cmd w1 = Inr ((reply, stops), w2) \<Longrightarrow> serves h fns w (tr @ [(fd, cmd, reply)]) w2"
| background: "serves h fns w tr w1 \<Longrightarrow> fn \<in> fns \<Longrightarrow> fn w1 = Some (b, w2) \<Longrightarrow> serves h fns w tr w2"

lemma serves_trans: "serves h fns w1 tr2 w2 \<Longrightarrow> serves h fns w tr1 w1 \<Longrightarrow> serves h fns w (tr1 @ tr2) w2"
proof (induction rule: serves.induct)
  case (answer tr w2 cmd reply stops w3 fd)
  from serves.answer [OF answer.IH [OF answer.prems] answer.hyps(2)] show ?case by simp
qed (auto intro: serves.background)

lemma serves_mono: "serves h fns w tr w' \<Longrightarrow> fns \<subseteq> gns \<Longrightarrow> serves h gns w tr w'"
  by (induction rule: serves.induct) (auto intro: serves.intros)

definition answers :: "int \<Rightarrow> (command \<times> string) list \<Rightarrow> answer list" where
  "answers fd qs = map (Pair fd) qs"

definition answers_to :: "int \<Rightarrow> answer list \<Rightarrow> (command \<times> string) list" where
  "answers_to fd tr = map snd (filter (\<lambda>(d, q). d = fd) tr)"

lemma answers_to_simps [simp]:
  "answers_to fd [] = []" "answers_to fd (tr @ tr') = answers_to fd tr @ answers_to fd tr'"
  "answers_to fd (answers fd qs) = qs" "fd' \<noteq> fd \<Longrightarrow> answers_to fd (answers fd' qs) = []"
  by (auto simp: answers_to_def answers_def filter_map o_def)

lemma serves_service:
  "run_service h cmds w = Inr (rs, w') \<Longrightarrow>
     length rs = length cmds \<and> serves h fns w (answers fd (zip cmds (map fst rs))) w'"
proof (induction cmds arbitrary: w rs)
  case (Cons cmd cmds)
  then obtain r w1 rs1 where r: "h cmd w = Inr (r, w1)" "run_service h cmds w1 = Inr (rs1, w')" "rs = r # rs1"
    by (auto simp: bind_res_Inr_iff)
  have "serves h fns w ([] @ [(fd, cmd, fst r)]) w1"
    using r(1) by (intro serves.answer [OF serves.idle, where stops = "snd r"]) simp
  with Cons.IH [OF r(2)] r(3) serves_trans show ?case by (fastforce simp: answers_def)
qed (simp add: serves.idle answers_def)

section \<open>Transcripts\<close>

text \<open>
  The transcript of a connection, against the answers so far: its last answers are those to the commands
  of all it has been heard to say, and their replies are what was sent or waits. Descriptors are
  reused, so that earlier answers may belong to earlier clients.
\<close>

definition transcript :: "nat \<Rightarrow> answer list \<Rightarrow> int \<Rightarrow> conn \<Rightarrow> bool" where
  "transcript m tr fd c \<longleftrightarrow>
     (\<exists>old new. answers_to fd tr = old @ new \<and> feed (RespParser m) (heard c) = Inr (rparser c, map fst new) \<and>
        wire c @ outbuf c = concat (map snd new))"

definition in_order :: "nat \<Rightarrow> answer list \<Rightarrow> int \<Rightarrow> conn \<Rightarrow> bool" where
  "in_order m tr fd c \<longleftrightarrow> close_after_flush c \<or> transcript m tr fd c"

lemma in_order_new: "in_order m tr fd (Connection m)"
proof -
  have "transcript m tr fd (Connection m)"
    unfolding transcript_def
    by (intro exI [of _ "answers_to fd tr"] exI [of _ "[]"]) (simp add: Connection_def feed_Nil)
  then show ?thesis by (simp add: in_order_def)
qed

lemma in_order_other: "in_order m tr fd c \<Longrightarrow> fd' \<noteq> fd \<Longrightarrow> in_order m (tr @ answers fd' qs) fd c"
  by (simp add: in_order_def transcript_def)

lemma in_order_send: "in_order m tr fd c \<Longrightarrow> send_loop script c = (ok, script', c') \<Longrightarrow> in_order m tr fd c'"
  using send_loop_conn [of script c ok script' c'] by (auto simp: in_order_def transcript_def)

lemma in_order_fed:
  assumes "in_order m tr fd c" and "feed (rparser c) bytes = Inr (p, cmds)"
    and "serve_all h cmds (c\<lparr>rparser := p, heard := heard c @ bytes\<rparr>, w, stop) = Inr (c1, w1, stop1)"
  shows "\<exists>qs. serves h fns w (answers fd qs) w1 \<and> in_order m (tr @ answers fd qs) fd c1"
proof -
  obtain rs where c1: "rparser c1 = p" "close_after_flush c1 = close_after_flush c" "heard c1 = heard c @ bytes"
    "wire c1 = wire c" "outbuf c1 = outbuf c @ concat (map fst rs)" and rs: "run_service h cmds w = Inr (rs, w1)"
    using serve_all_conn [OF assms(3)] by auto
  let ?qs = "zip cmds (map fst rs)"
  note sv = serves_service [OF rs, of fns fd]
  have "transcript m (tr @ answers fd ?qs) fd c1" if t: "transcript m tr fd c"
  proof -
    obtain old new where new: "answers_to fd tr = old @ new"
      "feed (RespParser m) (heard c) = Inr (rparser c, map fst new)" "wire c @ outbuf c = concat (map snd new)"
      using t unfolding transcript_def by blast
    have "feed (RespParser m) (heard c1) = Inr (rparser c1, map fst (new @ ?qs))"
      using resp_feed.step_append [OF RespParser_ready new(2), of bytes] assms(2) sv c1 by simp
    moreover have "wire c1 @ outbuf c1 = concat (map snd (new @ ?qs))"
      using new(3) sv c1 by simp
    ultimately show ?thesis
      using new(1) unfolding transcript_def by (intro exI [of _ old] exI [of _ "new @ ?qs"]) simp
  qed
  then have "in_order m (tr @ answers fd ?qs) fd c1"
    using assms(1) c1(2) by (auto simp: in_order_def)
  with sv show ?thesis by blast
qed

lemma read_loop_in_order:
  assumes "read_loop h script n (c, w, stop) = Inr (ok, script', c', w', stop')" and "in_order m tr fd c"
  shows "\<exists>qs. serves h fns w (answers fd qs) w' \<and> in_order m (tr @ answers fd qs) fd c'"
proof (rule read_loop_inv [where I = "\<lambda>c1 w1 stop1. \<exists>qs. serves h fns w (answers fd qs) w1 \<and> in_order m (tr @ answers fd qs) fd c1",
      OF _ _ assms(1)])
  fix c0 w0 stop0 bytes p cmds c1 w1 stop1
  assume "\<exists>qs. serves h fns w (answers fd qs) w0 \<and> in_order m (tr @ answers fd qs) fd c0"
    and fed: "feed (rparser c0) bytes = Inr (p, cmds)"
    "serve_all h cmds (c0\<lparr>rparser := p, heard := heard c0 @ bytes\<rparr>, w0, stop0) = Inr (c1, w1, stop1)"
  then obtain qs where qs: "serves h fns w (answers fd qs) w0" "in_order m (tr @ answers fd qs) fd c0" by blast
  obtain qs1 where "serves h fns w0 (answers fd qs1) w1" "in_order m ((tr @ answers fd qs) @ answers fd qs1) fd c1"
    using in_order_fed [OF qs(2) fed] by blast
  with serves_trans [OF _ qs(1)] show "\<exists>qs. serves h fns w (answers fd qs) w1 \<and> in_order m (tr @ answers fd qs) fd c1"
    by (intro exI [of _ "qs @ qs1"]) (simp add: answers_def)
next
  show "\<exists>qs. serves h fns w (answers fd qs) w \<and> in_order m (tr @ answers fd qs) fd c"
    using assms(2) by (intro exI [of _ "[]"]) (simp add: answers_def serves.idle)
qed (auto simp: in_order_def refused_def mark_close_after_flush_def)

section \<open>The loop\<close>

definition orderly :: "answer list \<Rightarrow> 'w evloop \<Rightarrow> bool" where
  "orderly tr l \<longleftrightarrow> (\<forall>fd c. map_of (conns l) fd = Some c \<longrightarrow> in_order (cfg_max_frame_bytes (cfg l)) tr fd c)"

text \<open>Progress of the loop: answers that lead from world to world and leave all transcripts in order.\<close>

definition progress :: "'w command_handler \<Rightarrow> ('w \<Rightarrow> (bool \<times> 'w) option) set \<Rightarrow> answer list \<Rightarrow> 'w evloop \<Rightarrow> 'w evloop \<Rightarrow> bool" where
  "progress h fns tr l l' \<longleftrightarrow>
     (\<exists>new. serves h fns (world l) new (world l') \<and> orderly (tr @ new) l') \<and> map tick_fn (tick_states l') = map tick_fn (tick_states l)"

lemma orderly_cong: "conns l' = conns l \<Longrightarrow> cfg l' = cfg l \<Longrightarrow> orderly tr l' = orderly tr l"
  by (simp add: orderly_def)

lemma progress_trans:
  assumes "progress h fns tr l l1" and "\<And>tr'. orderly tr' l1 \<Longrightarrow> progress h fns tr' l1 l2"
  shows "progress h fns tr l l2"
proof -
  obtain new where new: "serves h fns (world l) new (world l1)" "orderly (tr @ new) l1"
    using assms(1) unfolding progress_def by blast
  obtain new' where "serves h fns (world l1) new' (world l2)" "orderly ((tr @ new) @ new') l2"
    using assms(2) [OF new(2)] unfolding progress_def by blast
  with serves_trans [OF _ new(1)] assms(1,2) new(2) show ?thesis
    unfolding progress_def by (metis append_assoc)
qed

text \<open>Steps that answer nothing.\<close>

lemma progress_quiet:
  "orderly tr l' \<Longrightarrow> world l' = world l \<Longrightarrow> map tick_fn (tick_states l') = map tick_fn (tick_states l) \<Longrightarrow> progress h fns tr l l'"
  unfolding progress_def by (auto intro!: exI [of _ "[]"] serves.idle)

lemma loop_tick_states [simp]:
  "tick_states (snd (modify_fd fd e l)) = tick_states l" "tick_states (snd (register_fd fd e l)) = tick_states l"
  "tick_states (close_connection fd l) = tick_states l" "tick_states (snd (flush fd c l)) = tick_states l"
  "tick_states (accept_loop script l) = tick_states l"
proof -
  show 1: "tick_states (snd (modify_fd fd e l)) = tick_states l" "tick_states (snd (register_fd fd e l)) = tick_states l"
    for fd e and l :: "'a evloop"
    by (simp_all add: modify_fd_def register_fd_def Let_def split_beta)
  show "tick_states (close_connection fd l) = tick_states l" by (simp add: close_connection_def)
  show "tick_states (snd (flush fd c l)) = tick_states l"
    by (simp add: flush_def Let_def split_beta 1) (simp add: close_connection_def)
  show "tick_states (accept_loop script l) = tick_states l"
    by (induction script arbitrary: l) (simp_all add: Let_def split_beta 1 split: accept.split)
qed

text \<open>All but one: the connection that is being served is out of the table's control.\<close>

definition orderly_but :: "int \<Rightarrow> answer list \<Rightarrow> 'w evloop \<Rightarrow> bool" where
  "orderly_but fd tr l \<longleftrightarrow>
     (\<forall>fd' c. fd' \<noteq> fd \<longrightarrow> map_of (conns l) fd' = Some c \<longrightarrow> in_order (cfg_max_frame_bytes (cfg l)) tr fd' c)"

lemma orderly_but: "orderly tr l \<Longrightarrow> orderly_but fd (tr @ answers fd qs) l"
  unfolding orderly_def orderly_but_def by (intro allI impI in_order_other) simp_all

lemma orderly_close: "orderly_but fd tr l \<Longrightarrow> orderly tr (close_connection fd l)"
  by (auto simp: orderly_def orderly_but_def map_of_delete split: if_splits)

lemma orderly_flush:
  assumes "orderly_but fd tr l" and "in_order (cfg_max_frame_bytes (cfg l)) tr fd c"
  shows "orderly tr (snd (flush fd c l))"
proof -
  obtain ok script c1 where s: "send_loop (send_script l) c = (ok, script, c1)" by (cases "send_loop (send_script l) c")
  define l1 where "l1 = l\<lparr>send_script := script, conns := AList.update fd c1 (conns l)\<rparr>"
  have l1: "orderly tr l1"
    using assms(1) in_order_send [OF assms(2) s] by (auto simp: orderly_def orderly_but_def l1_def update_conv')
  have "orderly tr (snd (modify_fd fd e l1))" for e
    using l1 orderly_cong [of "snd (modify_fd fd e l1)" l1] by simp
  moreover have "orderly tr (close_connection fd l1)"
    using l1 by (intro orderly_close) (simp add: orderly_def orderly_but_def)
  ultimately show ?thesis
    by (simp add: flush_def s l1_def [symmetric] Let_def)
qed

lemma orderly_accept: "orderly tr l \<Longrightarrow> orderly tr (accept_loop script l)"
proof (induction script arbitrary: l)
  case Nil
  then show ?case by (simp add: orderly_def)
next
  case (Cons a script)
  show ?case
  proof (cases "\<exists>fd. a = Accepted fd \<and> \<not> max_clients (cfg l) \<le> length (conns l)")
    case True
    then obtain fd where a: "a = Accepted fd" "\<not> max_clients (cfg l) \<le> length (conns l)" by blast
    obtain ok l1 where reg: "register_fd fd Epollin l = (ok, l1)" by fastforce
    note l1 = fd_fields(7,8) [of fd Epollin l, unfolded reg snd_conv]
    have "orderly tr l1" using Cons.prems orderly_cong [OF l1] by simp
    moreover from this have "orderly tr (l1\<lparr>conns := (fd, Connection (cfg_max_frame_bytes (cfg l1))) # conns l1\<rparr>)"
      using in_order_new by (auto simp: orderly_def)
    ultimately show ?thesis
      using Cons.IH a reg by simp
  next
    case False
    have "orderly tr (accept_loop script (l\<lparr>turned_away := refusals\<rparr>))" for refusals
      using Cons.prems by (intro Cons.IH) (simp add: orderly_def)
    with False Cons.prems show ?thesis by (cases a) (auto simp: orderly_def)
  qed
qed

lemma progress_readable:
  assumes "orderly tr l" and "map_of (conns l) fd = Some c" and "handle_readable h fd c l = Inr (alive, l')"
  shows "progress h fns tr l l'"
  using assms(3)
proof (cases rule: handle_readable_Inr)
  case (1 ok script c1 w1 stop1 l1)
  let ?m = "cfg_max_frame_bytes (cfg l)"
  have "in_order ?m tr fd c" using assms(1,2) by (simp add: orderly_def)
  from read_loop_in_order [OF 1(1) this] obtain qs where
    qs: "serves h fns (world l) (answers fd qs) w1" "in_order ?m (tr @ answers fd qs) fd c1"
    by blast
  have but: "orderly_but fd (tr @ answers fd qs) l1"
    using orderly_but [OF assms(1)] by (simp add: 1(2) orderly_but_def)
  have "orderly (tr @ answers fd qs) (close_connection fd l1)"
    using but by (rule orderly_close)
  moreover have "orderly (tr @ answers fd qs) (snd (flush fd c1 l1))"
    using but qs(2) by (intro orderly_flush) (simp_all add: 1(2))
  ultimately have "orderly (tr @ answers fd qs) l' \<and> world l' = w1 \<and> tick_states l' = tick_states l"
    using arg_cong [OF 1(3), of snd] by (auto simp: 1(2) split: if_splits)
  with qs(1) show ?thesis unfolding progress_def by auto
qed

lemma orderly_but_same: "orderly tr l \<Longrightarrow> orderly_but fd tr l"
  by (simp add: orderly_def orderly_but_def)

lemma progress_event:
  assumes ord: "orderly tr l" and "handle_event h ev l = Inr l'"
  shows "progress h fns tr l l'"
  using assms(2) refl
proof (cases rule: handle_event_Inr)
  case listener
  with orderly_accept [OF ord] show ?thesis by (auto simp: accept_new_clients_def intro: progress_quiet)
next
  case stale
  with ord show ?thesis by (auto intro: progress_quiet)
next
  case (hangup c)
  with orderly_close [OF orderly_but_same [OF ord]] show ?thesis by (auto intro: progress_quiet)
next
  case (live c alive l1)
  have l1: "progress h fns tr l l1"
  proof (cases "epollin ev")
    case True
    with live(4) progress_readable [OF ord live(3)] show ?thesis by simp
  next
    case False
    with live(4) ord progress_quiet [of tr l l] show ?thesis by simp
  qed
  from live(5) show ?thesis
  proof
    assume "\<exists>c1. map_of (conns l1) (efd ev) = Some c1 \<and> l' = snd (flush (efd ev) c1 l1)"
    then obtain c1 where c1: "map_of (conns l1) (efd ev) = Some c1" "l' = snd (flush (efd ev) c1 l1)" by blast
    show ?thesis
    proof (rule progress_trans [OF l1])
      fix tr' assume "orderly tr' l1"
      with c1(1) have "orderly tr' l'"
        unfolding c1(2) by (intro orderly_flush orderly_but_same) (simp_all add: orderly_def)
      then show "progress h fns tr' l1 l'" by (rule progress_quiet) (simp_all add: c1(2))
    qed
  qed (simp add: l1)
qed

lemma progress_events: "handle_events h evs l = Inr l' \<Longrightarrow> orderly tr l \<Longrightarrow> progress h fns tr l l'"
proof (induction evs arbitrary: l tr)
  case Nil
  then show ?case by (auto intro: progress_quiet)
next
  case (Cons ev evs)
  then obtain l1 where l1: "handle_event h ev l = Inr l1" "handle_events h evs l1 = Inr l'"
    by (auto simp: bind_res_Inr_iff)
  from progress_event [OF Cons.prems(2) l1(1)] Cons.IH [OF l1(2)] show ?case by (rule progress_trans)
qed

lemma due_ticks_serve:
  "due_ticks now ts (w, stop) = Some (ts', w', stop') \<Longrightarrow> tick_fn ` set ts \<subseteq> fns \<Longrightarrow>
     serves h fns w [] w' \<and> map tick_fn ts' = map tick_fn ts"
proof (induction ts arbitrary: w stop ts')
  case (Cons t ts)
  show ?case
  proof (cases "next_due_ms t \<le> now")
    case True
    with Cons.prems(1) obtain stops w1 ts1 where t: "tick_fn t w = Some (stops, w1)"
      "due_ticks now ts (w1, stop \<or> stops) = Some (ts1, w', stop')" "ts' = t\<lparr>next_due_ms := now + interval_ms t\<rparr> # ts1"
      by (auto simp: bind_eq_Some_conv)
    have "serves h fns w [] w1"
      using serves.background [OF serves.idle, of "tick_fn t" fns w stops w1 h] t(1) Cons.prems(2) by simp
    with Cons.IH [OF t(2)] Cons.prems(2) t(3) serves_trans [of h fns w1 "[]" w' w "[]"] show ?thesis by simp
  next
    case False
    with Cons show ?thesis by auto
  qed
qed (simp add: serves.idle)

lemma progress_turn:
  assumes "turn h p l = Some (Inr (st, l'))" and "orderly tr l" and fns: "tick_fn ` set (tick_states l) \<subseteq> fns"
  shows "progress h fns tr l l'"
proof (cases p)
  case (Poll evs now)
  with assms(1) obtain l1 due l2 where
    ev: "handle_events h evs (l\<lparr>closed_this_batch := []\<rparr>) = Inr l1" and tk: "run_due_ticks now l1 = Some (due, l2)"
    and l': "l' = l2 \<or> l' = l2\<lparr>capacity := 2 * capacity l2\<rparr>"
    by (auto simp: turn_def split: sum.splits)
  have "orderly tr (l\<lparr>closed_this_batch := []\<rparr>)" using assms(2) by (simp add: orderly_def)
  from progress_events [OF ev this] have l1: "progress h fns tr l l1"
    by (simp add: progress_def)
  have "set (map tick_fn (tick_states l1)) = set (map tick_fn (tick_states l))"
    using l1 by (simp only: progress_def)
  then have fns1: "tick_fn ` set (tick_states l1) \<subseteq> fns" using fns by simp
  obtain ts w stop where run: "due_ticks now (tick_states l1) (world l1, stop_requested l1) = Some (ts, w, stop)"
    and l2: "l2 = l1\<lparr>tick_states := ts, world := w, stop_requested := stop\<rparr>"
    using tk by (auto simp: run_due_ticks_def)
  have world: "world l' = w" "tick_states l' = ts" "conns l' = conns l1" "cfg l' = cfg l1"
    using l' l2 by auto
  show ?thesis
  proof (rule progress_trans [OF l1])
    fix tr' assume "orderly tr' l1"
    then have "orderly (tr' @ []) l'" using orderly_cong [OF world(3,4)] by simp
    with due_ticks_serve [OF run fns1, of h] world(1,2) show "progress h fns tr' l1 l'"
      unfolding progress_def by blast
  qed
qed (use assms in \<open>auto simp: turn_def intro: progress_quiet\<close>)

lemma progress_run:
  "run_polls h ps l = Some (Inr (st, l')) \<Longrightarrow> orderly tr l \<Longrightarrow> tick_fn ` set (tick_states l) \<subseteq> fns \<Longrightarrow> progress h fns tr l l'"
proof (induction ps arbitrary: l tr)
  case Nil
  then show ?case by (auto simp: run_polls.simps orderly_def intro!: progress_quiet split: if_splits)
next
  case (Cons p ps)
  show ?case
  proof (cases "stop_requested l")
    case True
    with Cons.prems show ?thesis by (auto simp: run_polls.simps orderly_def intro!: progress_quiet)
  next
    case False
    from Cons.prems(1) False show ?thesis
    proof (cases rule: run_polls_Cons)
      case (returned st1)
      from progress_turn [OF returned(1) Cons.prems(2,3)] show ?thesis .
    next
      case (goes_on l1)
      from progress_turn [OF goes_on(1) Cons.prems(2,3)] have l1: "progress h fns tr l l1" .
      have "set (map tick_fn (tick_states l1)) = set (map tick_fn (tick_states l))"
        using l1 by (simp only: progress_def)
      with Cons.IH [OF goes_on(2)] Cons.prems(3) show ?thesis by (intro progress_trans [OF l1]) simp
    qed
  qed
qed

lemma loop_run_transcripts:
  assumes "loop_run h epoll_ok ticks start_ms ps l = Some (Inr (st, l'))" and "conns l = []"
  shows "\<exists>tr. serves h (fst ` set ticks) (world l) tr (world l') \<and>
     (\<forall>fd c. map_of (conns l') fd = Some c \<and> \<not> close_after_flush c \<longrightarrow>
        (\<exists>old new. answers_to fd tr = old @ new \<and>
           feed (RespParser (cfg_max_frame_bytes (cfg l))) (heard c) = Inr (rparser c, map fst new) \<and>
           wire c @ outbuf c = concat (map snd new)))"
  using assms(1)
proof (cases rule: loop_run_cases)
  case (failed l1)
  with assms(2) serves.idle [of h "fst ` set ticks" "world l"] show ?thesis by (intro exI [of _ "[]"]) simp
next
  case (started l1)
  have l1: "orderly [] l1" "loop_wf l1" using started(2) assms(2) by (simp_all add: orderly_def loop_wf_def)
  have "tick_fn ` set (tick_states l1) \<subseteq> fst ` set ticks"
    unfolding started(7) by force
  from progress_run [OF started(1) [symmetric] l1(1) this] obtain tr where
    tr: "serves h (fst ` set ticks) (world l1) tr (world l')" "orderly tr l'"
    unfolding progress_def by auto
  have "cfg l' = cfg l" using loop_wf_run [OF started(1) [symmetric] l1(2)] started(3) by simp
  with tr show ?thesis
    unfolding started(4) orderly_def in_order_def transcript_def by metis
qed

text \<open>
  C6. Every client gets the replies to its own commands, in order. Whatever the kernel does (how it cuts
  the input into chunks, what it takes of the output, interruptions, errors, clients coming and
  going, descriptors reused), the loop amounts to answering commands one at a time, ticks in
  between: there is a sequence of answers that takes the world from its first state to the present
  one; and for every open connection that has not broken the protocol, the commands in the bytes
  received from it are those of the last answers given to it, and what was sent to it, with what
  waits to be sent, is exactly their replies one after the other.
\<close>

theorem clients_get_their_replies:
  assumes "loop_run h epoll_ok ticks start_ms ps l = Some (Inr (st, l'))" and "conns l = []"
  shows "\<exists>tr. serves h (fst ` set ticks) (world l) tr (world l') \<and>
     (\<forall>fd c. map_of (conns l') fd = Some c \<and> \<not> close_after_flush c \<longrightarrow>
        (\<exists>old new. answers_to fd tr = old @ new \<and>
           feed (RespParser (cfg_max_frame_bytes (cfg l))) (heard c) = Inr (rparser c, map fst new) \<and>
           wire c @ outbuf c = concat (map snd new)))"
  using assms by (rule loop_run_transcripts)

section \<open>Requests are answered\<close>

lemma read_loop_chunk:
  assumes "bytes \<noteq> []" and "length bytes < kReadChunk" and "feed (rparser c) bytes = Inr (p, cmds)"
    and "run_service h cmds w = Inr (rs, w')"
  shows "read_loop h (Received bytes # script) 0 (c, w, stop) =
     Inr (True, script, c\<lparr>rparser := p, heard := heard c @ bytes, outbuf := outbuf c @ concat (map fst rs)\<rparr>, w',
       stop \<or> (\<exists>r \<in> set rs. snd r))"
  using assms by (simp add: serve_all_service queue_reply_def)

text \<open>A flush when the kernel takes everything.\<close>

lemma flush_all:
  assumes "send_script l = []" and "\<not> close_after_flush c"
  shows "\<exists>l'. flush fd c l = (True, l') \<and> map_of (conns l') fd = Some (c\<lparr>outbuf := [], wire := wire c @ outbuf c\<rparr>) \<and>
     world l' = world l \<and> stop_requested l' = stop_requested l \<and> tick_states l' = tick_states l \<and>
     conns l' = AList.update fd (c\<lparr>outbuf := [], wire := wire c @ outbuf c\<rparr>) (conns l)"
proof -
  let ?c = "c\<lparr>outbuf := [], wire := wire c @ outbuf c\<rparr>"
  let ?l = "l\<lparr>send_script := [], conns := AList.update fd ?c (conns l)\<rparr>"
  have "flush fd c l = (True, snd (modify_fd fd Epollin ?l))"
    using assms by (simp add: flush_def consume_outbuf_def)
  then show ?thesis by (simp add: update_conv')
qed

lemma run_polls_next:
  "\<not> stop_requested l \<Longrightarrow> run_polls h [] l = Some (Inr (None, l))"
  "\<not> stop_requested l \<Longrightarrow> turn h p l = Some (Inr (None, l1)) \<Longrightarrow> run_polls h (p # ps) l = run_polls h ps l1"
  by (simp_all add: run_polls.simps [of h _ l])

lemma turn_answers:
  assumes "map_of (conns l) fd = Some c" and "fd \<noteq> listen_fd l" and "\<not> close_after_flush c"
    and "recv_script l = Received bytes # script" and "bytes \<noteq> []" and "length bytes < kReadChunk" and "send_script l = []"
    and "feed (rparser c) bytes = Inr (p, cmds)" and "run_service h cmds (world l) = Inr (rs, w')"
    and "\<forall>t \<in> set (tick_states l). now < next_due_ms t"
  shows "\<exists>l'. turn h (Poll [ready_event fd] now) l = Some (Inr (None, l')) \<and> world l' = w' \<and>
     stop_requested l' = (stop_requested l \<or> (\<exists>r \<in> set rs. snd r)) \<and>
     conns l' = AList.update fd (c\<lparr>rparser := p, heard := heard c @ bytes, outbuf := [],
       wire := wire c @ outbuf c @ concat (map fst rs)\<rparr>) (conns l)"
proof -
  let ?l0 = "l\<lparr>closed_this_batch := []\<rparr>" and ?stop = "stop_requested l \<or> (\<exists>r \<in> set rs. snd r)"
  let ?c1 = "c\<lparr>rparser := p, heard := heard c @ bytes, outbuf := outbuf c @ concat (map fst rs)\<rparr>"
  let ?l1 = "?l0\<lparr>recv_script := script, world := w', stop_requested := ?stop\<rparr>"
  obtain l2 where l2: "flush fd ?c1 ?l1 = (True, l2)" "world l2 = w'"
    "stop_requested l2 = ?stop" "tick_states l2 = tick_states l"
    "conns l2 = AList.update fd (?c1\<lparr>outbuf := [], wire := wire ?c1 @ outbuf ?c1\<rparr>) (conns l)"
    using flush_all [of ?l1 ?c1 fd] assms(3,7) by auto
  have "handle_readable h fd c ?l0 = Inr (True, l2)"
    using read_loop_chunk [OF assms(5,6,8,9), of script "stop_requested l"] assms(4) l2(1)
    by (simp add: handle_readable_def)
  then have "handle_events h [ready_event fd] ?l0 = Inr l2"
    using assms(1,2) by (simp add: handle_event_def ready_event_def)
  moreover have "due_ticks now (tick_states l2) (world l2, stop_requested l2) = Some (tick_states l2, world l2, stop_requested l2)"
    using assms(10) l2(4) by (intro due_ticks_none_due) simp
  ultimately show ?thesis
    using l2(2,3,5) by (auto simp: turn_def run_due_ticks_def)
qed

text \<open>
  C14. Requests are answered at once. When a client in good standing has sent bytes that complete some
  commands and the kernel takes what is sent, the turn of the loop that sees them returns, with the
  commands executed in order, and everything owed to the client, these replies last, sent. If one of
  the commands asks to stop, the loop then returns with \<^verbatim>\<open>kStopped\<close> instead of polling again.
\<close>

theorem requests_are_answered:
  assumes "map_of (conns l) fd = Some c" and "fd \<noteq> listen_fd l" and "\<not> close_after_flush c"
    and "recv_script l = Received bytes # script" and "bytes \<noteq> []" and "length bytes < kReadChunk" and "send_script l = []"
    and "feed (rparser c) bytes = Inr (p, cmds)" and "run_service h cmds (world l) = Inr (rs, w')"
    and "\<forall>t \<in> set (tick_states l). now < next_due_ms t"
  shows "\<exists>l' c'. turn h (Poll [ready_event fd] now) l = Some (Inr (None, l')) \<and> world l' = w' \<and>
     map_of (conns l') fd = Some c' \<and> outbuf c' = [] \<and> wire c' = wire c @ outbuf c @ concat (map fst rs) \<and> heard c' = heard c @ bytes \<and>
     ((\<exists>r \<in> set rs. snd r) \<longrightarrow> (\<exists>l2. run_polls h ps l' = Some (Inr (Some kStopped, l2)) \<and> world l2 = w'))"
proof -
  obtain l' where l': "turn h (Poll [ready_event fd] now) l = Some (Inr (None, l'))" "world l' = w'"
    "stop_requested l' = (stop_requested l \<or> (\<exists>r \<in> set rs. snd r))"
    "conns l' = AList.update fd (c\<lparr>rparser := p, heard := heard c @ bytes, outbuf := [],
       wire := wire c @ outbuf c @ concat (map fst rs)\<rparr>) (conns l)"
    using turn_answers [OF assms] by blast
  have "\<exists>l2. run_polls h ps l' = Some (Inr (Some kStopped, l2)) \<and> world l2 = w'" if "\<exists>r \<in> set rs. snd r"
    using that l'(2,3) by (simp add: run_polls.simps)
  with l' show ?thesis by (auto simp: update_conv')
qed

text \<open>A client that connects when there is room.\<close>

lemma turn_accepts:
  assumes "conns l = []" and "0 < max_clients (cfg l)" and "accept_script l = [Accepted fd]" and "ctl_script l = []"
    and "\<forall>t \<in> set (tick_states l). now < next_due_ms t" and "capacity l = 256"
  shows "turn h (Poll [ready_event (listen_fd l)] now) l =
     Some (Inr (None, l\<lparr>closed_this_batch := [], armed := AList.update fd Epollin (armed l),
       conns := [(fd, Connection (cfg_max_frame_bytes (cfg l)))], accept_script := []\<rparr>))"
  using assms(1-4,6) due_ticks_none_due [OF assms(5), of "world l" "stop_requested l"]
  by (simp add: turn_def handle_event_def ready_event_def accept_new_clients_def register_fd_def next_ctl_def run_due_ticks_def)

text \<open>One client that connects, sends one command and gets its reply.\<close>

lemma one_command_run:
  assumes l: "conns l = []" "0 < max_clients (cfg l)" "accept_script l = [Accepted fd]" "ctl_script l = []" "fd \<noteq> listen_fd l"
      "\<not> stop_requested l" "recv_script l = [Received (encode cmd)]" "send_script l = []"
    and ticks: "\<forall>(fn, i) \<in> set ticks. 2 < i" and cmd: "cmd_fits (cfg_max_frame_bytes (cfg l)) cmd" "length (encode cmd) < kReadChunk"
    and h: "h cmd (world l) = Inr ((reply, False), w')"
  shows "\<exists>l' c. loop_run h True ticks 0 [Poll [ready_event (listen_fd l)] 1, Poll [ready_event fd] 2] l = Some (Inr (None, l')) \<and>
     world l' = w' \<and> map_of (conns l') fd = Some c \<and> \<not> close_after_flush c \<and> heard c = encode cmd \<and> wire c = reply \<and> outbuf c = []"
proof -
  let ?m = "cfg_max_frame_bytes (cfg l)"
  define l0 where "l0 = l\<lparr>armed := AList.update (listen_fd l) Epollin (armed l),
    tick_states := map (\<lambda>(fn, i). \<lparr>tick_fn = fn, interval_ms = i, next_due_ms = 0 + i\<rparr>) ticks, capacity := 256\<rparr>"
  have start: "loop_run h True ticks 0 ps l = run_polls h ps l0" for ps
    using l(4) by (simp add: loop_run_def register_fd_def next_ctl_def l0_def)
  have due: "\<forall>t \<in> set (tick_states l0). n < next_due_ms t" if "n \<le> 2" for n
    using ticks that by (force simp: l0_def)
  define l1 where "l1 = l0\<lparr>closed_this_batch := [], armed := AList.update fd Epollin (armed l0),
       conns := [(fd, Connection ?m)], accept_script := []\<rparr>"
  have 1: "turn h (Poll [ready_event (listen_fd l)] 1) l0 = Some (Inr (None, l1))"
    using turn_accepts [of l0 fd 1 h] l(1-4) due [of 1] by (simp add: l0_def l1_def)
  obtain p where p: "feed (RespParser ?m) (encode cmd) = Inr (p, [cmd])"
    using feed_encode_all [of "RespParser ?m" "[cmd]"] cmd(1) by (auto simp: RespParser_def)
  have c: "map_of (conns l1) fd = Some (Connection ?m)" "\<not> close_after_flush (Connection ?m)"
    "feed (rparser (Connection ?m)) (encode cmd) = Inr (p, [cmd])" "encode cmd \<noteq> []"
    using p by (simp_all add: l1_def Connection_def encode_resp resp_array_def)
  have "run_service h [cmd] (world l1) = Inr ([(reply, False)], w')"
    using h by (simp add: l1_def l0_def)
  from turn_answers [OF c(1) _ c(2) _ c(4) cmd(2) _ c(3) this, of "[]" 2] l(5,7,8) due [of 2] obtain l2 where
    l2: "turn h (Poll [ready_event fd] 2) l1 = Some (Inr (None, l2))" "world l2 = w'" "\<not> stop_requested l2"
    "conns l2 = AList.update fd ((Connection ?m)\<lparr>rparser := p, heard := encode cmd, outbuf := [], wire := reply\<rparr>) (conns l1)"
    using l(6) by (auto simp: l1_def l0_def Connection_def)
  have "\<not> stop_requested l0" "\<not> stop_requested l1" using l(6) by (simp_all add: l0_def l1_def)
  with 1 l2 start have "loop_run h True ticks 0 [Poll [ready_event (listen_fd l)] 1, Poll [ready_event fd] 2] l = Some (Inr (None, l2))"
    by (simp add: run_polls_next)
  with l2 show ?thesis by (simp add: update_conv' Connection_def)
qed

text \<open>A client that sends two commands and takes three bytes.\<close>

definition two_pings :: string where
  "two_pings = encode_all [[''PING''], [''PING'']]"

lemma two_pings:
  "length two_pings = 28" "\<exists>p. feed (RespParser (64 * 2 ^ 20)) two_pings = Inr (p, [[''PING''], [''PING'']])"
proof -
  show "length two_pings = 28" by code_simp
  have "list_all (cmd_fits (64 * 2 ^ 20)) [[''PING''], [''PING'']]"
    by (simp add: cmd_fits_def arg_fits_def kMaxArgs_def i64_simps)
  then show "\<exists>p. feed (RespParser (64 * 2 ^ 20)) two_pings = Inr (p, [[''PING''], [''PING'']])"
    using feed_encode_all [of "RespParser (64 * 2 ^ 20)" "[[''PING''], [''PING'']]"] unfolding two_pings_def
    by (auto simp: RespParser_def)
qed

theorem requests_are_answered_witness:
  "\<exists>l' c'. turn ok_handler (Poll [ready_event 5] 2)
       ((quiet_loop 1 [] [Received two_pings] [])\<lparr>conns := [(5, Connection (64 * 2 ^ 20))]\<rparr>) = Some (Inr (None, l')) \<and>
     map_of (conns l') 5 = Some c' \<and> wire c' = resp_simple ''OK'' @ resp_simple ''OK'' \<and> outbuf c' = []"
proof -
  let ?m = "64 * 2 ^ 20 :: nat"
  let ?l = "(quiet_loop 1 [] [Received two_pings] [])\<lparr>conns := [(5, Connection ?m)]\<rparr>"
  obtain p where p: "feed (RespParser ?m) two_pings = Inr (p, [[''PING''], [''PING'']])"
    using two_pings(2) ..
  have l: "map_of (conns ?l) 5 = Some (Connection ?m)" "5 \<noteq> listen_fd ?l" "\<not> close_after_flush (Connection ?m)"
    "recv_script ?l = [Received two_pings]" "two_pings \<noteq> []" "length two_pings < kReadChunk" "send_script ?l = []"
    "feed (rparser (Connection ?m)) two_pings = Inr (p, [[''PING''], [''PING'']])"
    "run_service ok_handler [[''PING''], [''PING'']] (world ?l) = Inr ([(resp_simple ''OK'', False), (resp_simple ''OK'', False)], ())"
    "\<forall>t \<in> set (tick_states ?l). 2 < next_due_ms t"
    using p two_pings(1) by (auto simp: quiet_loop_def Connection_def kReadChunk_def ok_handler_def)
  show ?thesis
    using requests_are_answered [OF l] by (fastforce simp: Connection_def)
qed

text \<open>The connection after reading both commands and sending three bytes.\<close>

lemma two_pings_conn:
  assumes "feed (RespParser (64 * 2 ^ 20)) two_pings = Inr (p, [[''PING''], [''PING'']])"
  shows "read_loop ok_handler [Received two_pings] 0 (Connection (64 * 2 ^ 20), (), False) =
      Inr (True, [], \<lparr>rparser = p, outbuf = resp_simple ''OK'' @ resp_simple ''OK'', close_after_flush = False,
        heard = two_pings, wire = []\<rparr>, (), False)"
proof -
  have "two_pings \<noteq> []" using two_pings(1) by auto
  with assms show ?thesis
    by (simp add: Connection_def ok_handler_def queue_reply_def two_pings(1) kReadChunk_def)
qed

theorem clients_get_their_replies_witness:
  "\<exists>l' c tr old new. loop_run ok_handler True [] 0 [Poll [ready_event 3] 1, Poll [ready_event 5] 2]
       (quiet_loop 1 [Accepted 5] [Received two_pings] [Sent 3, Send_again]) = Some (Inr (None, l')) \<and>
     map_of (conns l') 5 = Some c \<and> heard c = two_pings \<and> wire c = ''+OK'' \<and>
     answers_to 5 tr = old @ new \<and> map fst new = [[''PING''], [''PING'']] \<and> wire c @ outbuf c = concat (map snd new)"
proof -
  let ?l = "quiet_loop 1 [Accepted 5] [Received two_pings] [Sent 3, Send_again]"
  let ?m = "64 * 2 ^ 20 :: nat"
  obtain p where p: "feed (RespParser ?m) two_pings = Inr (p, [[''PING''], [''PING'']])"
    using two_pings(2) ..
  define c where "c = \<lparr>rparser = p, outbuf = drop 3 (resp_simple ''OK'' @ resp_simple ''OK''), close_after_flush = False,
    heard = two_pings, wire = ''+OK''\<rparr>"
  define l1 where "l1 = ?l\<lparr>conns := [(5, Connection ?m)], armed := [(3, Epollin), (5, Epollin)], accept_script := []\<rparr>"
  define l2 where "l2 = l1\<lparr>conns := [(5, c)], armed := [(3, Epollin), (5, Epollin_epollout)], recv_script := [], send_script := []\<rparr>"
  have 1: "turn ok_handler (Poll [ready_event 3] 1) (?l\<lparr>armed := [(3, Epollin)]\<rparr>) = Some (Inr (None, l1))"
    by (simp add: turn_def handle_event_def ready_event_def quiet_loop_def accept_new_clients_def register_fd_def
        next_ctl_def run_due_ticks_def l1_def Config_def)
  have 2: "turn ok_handler (Poll [ready_event 5] 2) l1 = Some (Inr (None, l2))"
    by (simp add: turn_def handle_event_def ready_event_def handle_readable_def l1_def quiet_loop_def
        two_pings_conn [OF p, simplified] flush_def consume_outbuf_def resp_simple_def kMaxOutbufBytes_def
        modify_fd_def next_ctl_def run_due_ticks_def l2_def c_def)
  have run: "loop_run ok_handler True [] 0 [Poll [ready_event 3] 1, Poll [ready_event 5] 2] ?l = Some (Inr (None, l2))"
  proof -
    have "loop_run ok_handler True [] 0 ps ?l = run_polls ok_handler ps (?l\<lparr>armed := [(3, Epollin)]\<rparr>)" for ps
      by (simp add: loop_run_def quiet_loop_def register_fd_def next_ctl_def)
    moreover have "\<not> stop_requested (?l\<lparr>armed := [(3, Epollin)]\<rparr>)" "\<not> stop_requested l1" "\<not> stop_requested l2"
      by (simp_all add: l2_def l1_def quiet_loop_def)
    ultimately show ?thesis
      using 1 2 by (simp add: run_polls_next)
  qed
  have c: "map_of (conns l2) 5 = Some c" "\<not> close_after_flush c" "heard c = two_pings" "rparser c = p" "wire c = ''+OK''"
    by (simp_all add: l2_def c_def)
  have start: "conns ?l = []" "cfg_max_frame_bytes (cfg ?l) = ?m" by (simp_all add: quiet_loop_def Config_def)
  obtain tr where tr: "map_of (conns l2) 5 = Some c \<and> \<not> close_after_flush c \<longrightarrow>
      (\<exists>old new. answers_to 5 tr = old @ new \<and> feed (RespParser ?m) (heard c) = Inr (rparser c, map fst new) \<and>
         wire c @ outbuf c = concat (map snd new))"
    using clients_get_their_replies [OF run start(1)] unfolding start(2) by metis
  with c(1,2) obtain old new where
    new: "answers_to 5 tr = old @ new" "feed (RespParser ?m) (heard c) = Inr (rparser c, map fst new)"
    "wire c @ outbuf c = concat (map snd new)"
    by metis
  have "map fst new = [[''PING''], [''PING'']]" using new(2) p c(3) by simp
  with run c new show ?thesis by metis
qed

end
