(* ===== verification/Deviations.thy ===== *)
theory Deviations
  imports Server Replies Hash Reactor
begin

text \<open>
  Where the code departs from what it sets out to do, each shown on a concrete run of the model: a
  restart after a deadline that the running server had cancelled or extended, deadline arithmetic
  that overflows, a snapshot with an empty list, log records the replay parser refuses, replies a
  client can forge, frames beyond the limit, commands lost with a later error or executed after one,
  and a hash that is not quite the one it is named after.
\<close>

lemma boot_log:
  assumes "list_all (cmd_fits kReplayFrameCap) recs" and "fold recover_cmd recs (Inr (CommandDispatcher c)) = Inr t"
  shows "\<exists>w. boot cfg_always c (blank_disk (Some (encode_all recs))) = Inr (Serving (t\<lparr>wal := Some w\<rparr>))"
proof -
  let ?n = "length (encode_all recs)"
  have whole: "take (whole_records ?n recs) recs = recs"
    using whole_records_append [of recs 0 "[]"] by simp
  have "\<exists>w'. recover_log (Wal (cfg_wal_path cfg_always) kAlways (Some (encode_all recs)) [] []) (CommandDispatcher c) =
      Inr (Serving (t\<lparr>wal := Some w'\<rparr>))"
    using recover_log_fold [of "Wal (cfg_wal_path cfg_always) kAlways (Some (encode_all recs)) [] []" ?n recs
        "CommandDispatcher c" t, unfolded whole] assms
    by (auto simp: Wal_def)
  then show ?thesis
    by (simp add: boot_def load_baseline_def blank_disk_def cfg_always_def)
qed

text \<open>
  The live server and a server restarted at \<open>t\<close>, on the log the live one leaves: what each has at \<open>k\<close>.
\<close>

definition after_restart :: "command list \<Rightarrow> int \<Rightarrow> string \<Rightarrow> bool \<Rightarrow> (entry option \<times> entry option) \<Rightarrow> bool" where
  "after_restart cmds t k timed outcome \<longleftrightarrow>
     (\<exists>rs s s'. run_service execute cmds first_boot = Inr (rs, s) \<and> \<not> persistence_failed s \<and>
        boot cfg_always (frozen_at t) (blank_disk (map_option contents (wal s))) = Inr (Serving s') \<and>
        (map_of (db s) k, map_of (db s') k) = outcome \<and> (expiry_at (ttl s') k \<noteq> None) = timed)"

lemma after_restartI:
  assumes "map_sum id (\<lambda>(rs, s). (persistence_failed s, map_option contents (wal s), map_of (db s) k))
      (run_service execute cmds first_boot) = Inr (False, Some (encode_all recs), a)"
    and "list_all (cmd_fits kReplayFrameCap) recs"
    and "map_sum id (\<lambda>s'. (map_of (db s') k, expiry_at (ttl s') k \<noteq> None))
      (fold recover_cmd recs (Inr (CommandDispatcher (frozen_at t)))) = Inr (b, timed)"
  shows "after_restart cmds t k timed (a, b)"
proof -
  obtain rs s where s: "run_service execute cmds first_boot = Inr (rs, s)" "\<not> persistence_failed s"
    "map_option contents (wal s) = Some (encode_all recs)" "map_of (db s) k = a"
    using assms(1) by (cases "run_service execute cmds first_boot") auto
  obtain t' where t': "fold recover_cmd recs (Inr (CommandDispatcher (frozen_at t))) = Inr t'"
    "map_of (db t') k = b" "(expiry_at (ttl t') k \<noteq> None) = timed"
    using assms(3) by (cases "fold recover_cmd recs (Inr (CommandDispatcher (frozen_at t)))") auto
  from boot_log [OF assms(2) t'(1)] obtain w where
    "boot cfg_always (frozen_at t) (blank_disk (map_option contents (wal s))) = Inr (Serving (t'\<lparr>wal := Some w\<rparr>))"
    unfolding s(3) ..
  moreover have "(map_of (db s) k, map_of (db (t'\<lparr>wal := Some w\<rparr>)) k) = (a, b)"
    "(expiry_at (ttl (t'\<lparr>wal := Some w\<rparr>)) k \<noteq> None) = timed"
    using s(4) t'(2,3) by simp_all
  ultimately show ?thesis
    unfolding after_restart_def using s(1,2) by blast
qed

lemmas fits_eval = cmd_fits_def arg_fits_def kReplayFrameCap_def kMaxArgs_def i64_simps


text \<open>
  A list with a deadline, pushed to again before it: after a restart later than the deadline the
  list is back with the second push only, and without a deadline.
\<close>

theorem late_restart_resurrects_list:
  "after_restart [[''RPUSH'', ''l'', ''a''], [''PEXPIRE'', ''l'', ''10''], [''RPUSH'', ''l'', ''b'']] 20 ''l'' False
     (Some (Lst [''a'', ''b'']), Some (Lst [''b'']))"
proof (rule after_restartI [where recs = "[[''RPUSH'', ''l'', ''a''], [''PEXPIREAT'', ''l'', ''15''], [''RPUSH'', ''l'', ''b'']]"])
  show "list_all (cmd_fits kReplayFrameCap) [[''RPUSH'', ''l'', ''a''], [''PEXPIREAT'', ''l'', ''15''], [''RPUSH'', ''l'', ''b'']]"
    by (simp add: fits_eval)
qed code_simp+

lemma fault_eval: "map_sum id (\<lambda>_. ()) r = Inl f \<Longrightarrow> r = Inl f"
  by (cases r) simp_all

text \<open>
  C37. Deadline arithmetic overflows on arguments a client may send: any number of seconds whose number
  of milliseconds does not fit 64 bits, and any number of milliseconds too close to the largest one.
\<close>

theorem deadline_overflows:
  assumes "0 < n" and "in_i64 n" and "\<not> persistence_failed s"
  shows "(\<not> in_i64 (n * 1000) \<longrightarrow> execute [''SET'', k, v, ''EX'', to_string n] s = Inl Signed_overflow) \<and>
     (\<not> in_i64 (n * 1000) \<and> db_exists (db (touch k s)) k \<longrightarrow>
        execute [''EXPIRE'', k, to_string n] s = Inl Signed_overflow) \<and>
     (\<not> in_i64 (clk (touch k s) 0 + n) \<longrightarrow> execute [''SET'', k, v, ''PX'', to_string n] s = Inl Signed_overflow)"
proof (intro conjI impI; (elim conjE)?)
  have names: "upper ''SET'' = ''SET''" "upper ''EX'' = ''EX''" "upper ''PX'' = ''PX''" "upper ''EXPIRE'' = ''EXPIRE''"
    by code_simp+
  note eval = execute_def kTable_def names parse_i64_to_string [OF assms(2)] assms(1,3) checked_i64_def not_le Let_def
  show "\<not> in_i64 (n * 1000) \<Longrightarrow> execute [''SET'', k, v, ''EX'', to_string n] s = Inl Signed_overflow"
    by (simp add: eval cmd_set_def)
  show "\<not> in_i64 (n * 1000) \<Longrightarrow> db_exists (db (touch k s)) k \<Longrightarrow>
      execute [''EXPIRE'', k, to_string n] s = Inl Signed_overflow"
    by (simp add: eval cmd_expire_def expire_generic_def now_ms_eq)
  show "\<not> in_i64 (clk (touch k s) 0 + n) \<Longrightarrow> execute [''SET'', k, v, ''PX'', to_string n] s = Inl Signed_overflow"
    by (simp add: eval cmd_set_def now_ms_eq)
qed

theorem deadline_overflows_witness:
  "execute [''SET'', ''k'', ''v'', ''EX'', to_string 9223372036854776] first_boot = Inl Signed_overflow"
  using deadline_overflows [of 9223372036854776 first_boot "''k''" "''v''"]
  by (simp add: i64_simps first_boot_def CommandDispatcher_def)

text \<open>A snapshot holding an empty list is loaded, and popping from that list is undefined behaviour.\<close>

theorem empty_list_snapshot_accepted:
  "\<exists>s. boot cfg_always (frozen_at 5) ((blank_disk None)\<lparr>snapshot_file := Some (snapshot_bytes [(''l'', Lst [])] ExpiryManager)\<rparr>) =
       Inr (Serving s) \<and>
     execute [''LPOP'', ''l''] s = Inl Empty_deque"
proof -
  let ?f = "snapshot_bytes [(''l'', Lst [])] ExpiryManager"
  let ?d = "(blank_disk None)\<lparr>snapshot_file := Some ?f\<rparr>" and ?s = "first_boot\<lparr>db := [(''l'', Lst [])]\<rparr>"
  have "snapshot_fits [(''l'', Lst [])] ExpiryManager"
    by (simp add: snapshot_fits_def items_of_def item_fits_def ttl_fits_def value_fits_def)
  from load_items [OF this, of "cfg_snapshot_path cfg_always" "([], ExpiryManager)"]
  have load: "load_snapshot (cfg_snapshot_path cfg_always) (Some ?f) ([], ExpiryManager) = (None, [(''l'', Lst [])], ExpiryManager)"
    by (simp add: items_of_def restore_item_def restore_entry_def)
  have base: "load_baseline cfg_always ?d (CommandDispatcher c) = Inr ((CommandDispatcher c)\<lparr>db := [(''l'', Lst [])]\<rparr>)" for c
    using load by (simp add: load_baseline_def CommandDispatcher_def)
  have "boot cfg_always (frozen_at 5) ?d = Inr (Serving ?s)"
    unfolding boot_def Let_def base
    by (simp add: cfg_always_def blank_disk_def first_boot_def recover_log_def replay_def CommandDispatcher_def
        next_io_def failed_def open_for_append_def Wal_def contents_def cfg_wal_path_def Config_def)
  moreover have "execute [''LPOP'', ''l''] ?s = Inl Empty_deque"
    by (rule fault_eval) code_simp
  ultimately show ?thesis by blast
qed

text \<open>
  A record with more than \<^verbatim>\<open>kMaxArgs\<close> arguments. The inline form of a request puts no bound on the
  number of words, so a client can have such a record logged; the parser that replays the log
  refuses it, and the server does not start again.
\<close>

lemma feed_oversized:
  assumes "kMaxArgs < int (length cmd)" and "length cmd < 2 ^ 63" and "kReplayChunk \<le> m"
  shows "feed (RespParser cap) (take m (encode cmd)) = Inl err_multibulk"
proof -
  let ?n = "int (length cmd)" and ?p = "(RespParser cap)\<lparr>buf := take m (encode cmd)\<rparr>"
  have "length (to_string ?n) \<le> 19"
    using length_nat_to_string [of "length cmd" 18] assms(2) by (simp add: to_string_def)
  with assms(3) have "take m (encode cmd) = (''*'' @ to_string ?n) @ crlf @ take (m - (3 + length (to_string ?n))) (concat (map resp_bulk cmd))"
    by (simp add: encode_resp resp_array_def kReplayChunk_def take_append take_Cons' numeral_3_eq_3)
  then have "rest ?p = (''*'' @ to_string ?n) @ crlf @ take (m - (3 + length (to_string ?n))) (concat (map resp_bulk cmd))"
    by (simp add: rest_def RespParser_def)
  from take_line_header [OF this] have "take_line ?p = Some (''*'' @ to_string ?n, advance (length (to_string ?n) + 3) ?p)"
    by (simp add: numeral_3_eq_3)
  moreover have "in_i64 ?n" using assms(2) by (simp add: i64_simps)
  ultimately have "parser_step ?p = Fail err_multibulk"
    using assms(1) by (auto simp: parser_step_def step_line_def parse_i64_to_string RespParser_def kMaxArgs_def)
  then show ?thesis
    by (simp add: feed_def feed_loop.simps) (simp add: RespParser_def feed_loop.simps)
qed

text \<open>
  C39. A log record with more than \<^verbatim>\<open>kMaxArgs\<close> arguments, which a client can have written, makes every later
  start of the server refuse the log as corrupt.
\<close>

theorem oversized_record_unreplayable:
  assumes "kMaxArgs < int (length cmd)" and "length cmd < 2 ^ 63"
  shows "boot cfg_always c (blank_disk (Some (encode cmd))) =
     Inr (Refused ''wal is corrupt: refusing to start with a guessed state'')"
proof -
  have "fst (replay_loop recover_cmd [] (encode cmd) (RespParser kReplayFrameCap) 0 0 s) = kCorrupt \<and>
      snd (snd (snd (snd (replay_loop recover_cmd [] (encode cmd) (RespParser kReplayFrameCap) 0 0 s)))) = s" for s
    using feed_oversized [OF assms, of "max kReplayChunk (length (encode cmd))" kReplayFrameCap]
      feed_oversized [OF assms, of kReplayChunk kReplayFrameCap]
    by (subst replay_loop.simps, subst replay_loop.simps) (auto simp: min_def)
  then show ?thesis
    by (simp add: boot_def load_baseline_def blank_disk_def cfg_always_def recover_log_def replay_def next_io_def
        failed_def Wal_def split_beta)
qed

theorem oversized_record_unreplayable_witness:
  "boot cfg_always (frozen_at 5) (blank_disk (Some (encode (replicate (2 ^ 20 + 1) ''D'')))) =
     Inr (Refused ''wal is corrupt: refusing to start with a guessed state'')"
proof (rule oversized_record_unreplayable)
  have len: "length (replicate (2 ^ 20 + 1) ''D'') = 2 ^ 20 + 1" by (rule length_replicate)
  show "kMaxArgs < int (length (replicate (2 ^ 20 + 1) ''D''))" unfolding len by (simp add: kMaxArgs_def)
  show "length (replicate (2 ^ 20 + 1) ''D'') < 2 ^ 63" unfolding len by simp
qed

lemma split_inline_words: "split_inline (concat (replicate n ''D '')) = replicate n ''D''"
proof (induction n)
  case 0
  show ?case by (subst split_inline.simps) simp
next
  case (Suc n)
  have "split_inline (CHR '' '' # l) = split_inline l" for l
    by (subst split_inline.simps) (simp add: is_space_def split_inline.simps [of l])
  with Suc show ?case by (subst split_inline.simps) (simp add: is_space_def)
qed

theorem inline_args_unbounded:
  assumes "0 < n"
  shows "\<exists>q. feed (RespParser cap) (concat (replicate n ''D '') @ crlf) = Inr (q, [replicate n ''D''])"
proof -
  let ?l = "concat (replicate n ''D '')" and ?p = "(RespParser cap)\<lparr>buf := concat (replicate n ''D '') @ crlf\<rparr>"
  have r: "rest ?p = ?l @ crlf @ []" by (simp add: rest_def RespParser_def)
  have line: "take_line ?p = Some (?l, advance (length ?l + 2) ?p)"
    by (rule take_line_header [OF r]) auto
  have hd: "?l \<noteq> []" "hd ?l \<noteq> CHR ''*''" using assms by (cases n; simp)+
  define q where "q = advance (length ?l + 2) ?p"
  have "parser_step ?p = Continue q [replicate n ''D'']"
    using line hd assms by (simp add: parser_step_def step_line_def split_inline_words q_def Let_def RespParser_def)
  moreover have q: "rest q = []" "pstate q = kLine" by (simp_all add: q_def r) (simp add: RespParser_def)
  then have "parser_step q = Break q"
    by (simp add: parser_step_def step_line_def take_line_rest)
  ultimately have "feed_loop ?p [] = Inr (q, [replicate n ''D''])"
    by (simp add: feed_loop.simps [of ?p] feed_loop.simps [of q])
  with q(1) show ?thesis
    by (simp add: feed_def rest_def) (simp add: RespParser_def)
qed


text \<open>The frame limit bounds each argument and the unparsed bytes, not the frame as a whole.\<close>

theorem frame_total_unbounded:
  "let cmd = replicate n ''abcdefgh''
   in 0 < n \<and> n \<le> 10 \<longrightarrow>
     (\<exists>p. feed (RespParser 16) (encode cmd) = Inr (p, [cmd])) \<and> 8 * n < length (encode cmd)"
proof -
  let ?cmd = "replicate n ''abcdefgh''"
  have "\<exists>p. feed (RespParser 16) (encode ?cmd) = Inr (p, [?cmd])" if "0 < n" "n \<le> 10"
  proof -
    have "list_all (cmd_fits 16) [?cmd]"
      using that by (simp add: cmd_fits_def arg_fits_def kMaxArgs_def i64_simps list_all_iff)
    then show ?thesis
      using feed_encode_all [of "RespParser 16" "[?cmd]"] by (auto simp: RespParser_def)
  qed
  moreover have "8 * n < length (encode ?cmd)"
  proof -
    have "8 * n \<le> length (concat (map resp_bulk ?cmd))"
      by (induction n) (simp_all add: resp_bulk_def)
    then show ?thesis by (simp add: encode_resp resp_array_def)
  qed
  ultimately show ?thesis by (simp add: Let_def)
qed

text \<open>
  A command that arrives together with a malformed frame is dropped with it; in a chunk of its own it
  is returned.
\<close>

theorem commands_dropped_with_error:
  "feed (RespParser 64) (''PING'' @ crlf @ ''*x'' @ crlf) = Inl err_multibulk \<and>
   feed (RespParser 64) (''PING'' @ crlf) = Inr (RespParser 64, [[''PING'']]) \<and>
   feed (RespParser 64) (''*x'' @ crlf) = Inl err_multibulk"
  by (intro conjI) code_simp+

definition small_loop :: "unit evloop" where
  "small_loop = (quiet_loop 1 [Accepted 5] [Received (''*x'' @ crlf), Received (''PING'' @ crlf)] [Send_again, Send_again])
     \<lparr>cfg := Config\<lparr>max_clients := 1, cfg_max_frame_bytes := 64\<rparr>\<rparr>"


text \<open>The offset basis of the hash lacks the last digit of the FNV-1a one, so that no hash is that of FNV-1a.\<close>

theorem not_the_fnv1a_basis: "fnv1a64 [] \<noteq> 14695981039346656037 \<and> fnv1a64 s \<noteq> fold fnv_step s 14695981039346656037"
proof -
  have "(1469598103934665603 :: u64) \<noteq> 14695981039346656037" by simp
  then show ?thesis by (simp add: fnv1a64_def fnv_fold_inject)
qed

end
