(* ===== verification/Timeless.thy ===== *)
theory Timeless
  imports Server
begin

text \<open>
  Recovery at any later time. What a logged record does to a key that has no deadline depends on
  that key's value alone: not on the clock, not on other keys and their deadlines. So a key that the
  log never gives a deadline comes back after a restart exactly as it was, whenever the restart is.
\<close>

section \<open>One key of a recovering server\<close>

definition holds :: "string \<Rightarrow> entry option \<Rightarrow> server \<Rightarrow> bool" where
  "holds k x t \<longleftrightarrow> server_wf t \<and> wal t = None \<and> \<not> persistence_failed t \<and>
     fst (view t) k = x \<and> snd (view t) k = None"

lemma holdsD: "holds k x t \<Longrightarrow> server_wf t" "holds k x t \<Longrightarrow> map_of (db t) k = x"
  by (simp_all add: holds_def view_def)

lemma holds_change:
  assumes "holds k x t" and "server_wf t'" and "wal t' = wal t" and "persistence_failed t' = persistence_failed t"
    and "fst (view t') k = x'" and "snd (view t') k = None"
  shows "holds k x' t'"
  using assms by (simp add: holds_def)

lemma holds_touch:
  assumes "holds k x t"
  shows "holds k x (touch k2 t)"
proof -
  have wf: "server_wf t" using assms by (rule holdsD)
  have "wal (touch k2 t) = None" "\<not> persistence_failed (touch k2 t)"
    using assms by (auto simp: holds_def touch_def check_key_cases evict_hook_def put_record_def)
  moreover have "\<not> expired_key k t"
    using assms by (simp add: holds_def expired_key_def view_def)
  ultimately show ?thesis
    using assms touch_view [OF wf, of k2] by (auto simp: holds_def vdel_def)
qed

text \<open>\<open>acts\<close>: the handler answers, and takes the value \<open>x\<close> of \<open>k\<close> to \<open>x'\<close>, in every such server.\<close>

definition acts :: "string \<Rightarrow> (server \<Rightarrow> (string \<times> server) result) \<Rightarrow> entry option \<Rightarrow> entry option \<Rightarrow> bool" where
  "acts k f x x' \<longleftrightarrow> (\<forall>t. holds k x t \<longrightarrow> (\<exists>r t'. f t = Inr (r, t') \<and> holds k x' t'))"

lemma actsI: "(\<And>t. holds k x t \<Longrightarrow> \<exists>r t'. f t = Inr (r, t') \<and> holds k x' t') \<Longrightarrow> acts k f x x'"
  by (simp add: acts_def)

lemma acts_reply: "\<exists>x'. acts k (\<lambda>t. Inr (r, t)) x x'"
  by (auto simp: acts_def)

lemma acts_if:
  assumes "c \<Longrightarrow> \<exists>x'. acts k f x x'" and "\<not> c \<Longrightarrow> \<exists>x'. acts k g x x'"
  shows "\<exists>x'. acts k (\<lambda>t. if c then f t else g t) x x'"
  using assms by (cases c) simp_all

section \<open>The handlers of logged records\<close>

lemma holds_set: "holds k x t \<Longrightarrow> holds k (if k2 = k then Some (Str v) else x) (t\<lparr>db := db_set k2 v (db t)\<rparr>)"
  using server_wf_set [of t k2 v] by (auto simp: holds_def)

lemma holds_persist: "holds k x t \<Longrightarrow> holds k x (t\<lparr>ttl := persist k2 (ttl t)\<rparr>)"
  using server_wf_persist [of t k2] by (auto simp: holds_def)

lemma holds_tick: "holds k x t \<Longrightarrow> holds k x (t\<lparr>clk := c\<rparr>)"
  by (simp add: holds_def)

lemma holds_delete_now: "holds k x t \<Longrightarrow> holds k (if k2 = k then None else x) (delete_now k2 t)"
  using server_wf_delete_now [of t k2] by (auto simp: holds_def delete_now_def vdel_def)

lemma holds_set_expiry:
  "holds k x t \<Longrightarrow> k2 \<noteq> k \<Longrightarrow> map_of (db t) k2 \<noteq> None \<Longrightarrow> holds k x (t\<lparr>ttl := set_expiry k2 a (ttl t)\<rparr>)"
  using server_wf_set_expiry [of t k2 a] by (auto simp: holds_def)

lemma acts_set:
  assumes "length cmd = 3"
  shows "acts k (cmd_set cmd) x (if cmd ! 1 = k then Some (Str (cmd ! 2)) else x)"
proof (rule actsI)
  fix t
  assume t: "holds k x t"
  define k2 v t1 where "k2 = cmd ! 1" and "v = cmd ! 2" and "t1 = touch k2 t"
  have t1: "holds k x t1" using holds_touch [OF t] by (simp add: t1_def)
  have "cmd_set cmd t = Inr (resp_simple ''OK'', t1\<lparr>db := db_set k2 v (db t1), ttl := persist k2 (ttl t1)\<rparr>)"
    using assms by (simp add: cmd_set_def Let_def t1_def k2_def v_def)
  with holds_persist [OF holds_set [OF t1, of k2 v], of k2]
  show "\<exists>r t'. cmd_set cmd t = Inr (r, t') \<and> holds k (if cmd ! 1 = k then Some (Str (cmd ! 2)) else x) t'"
    unfolding k2_def [symmetric] v_def [symmetric] by simp
qed

lemma acts_incr_by: "\<exists>x'. acts k (incr_by k2 d) x x'"
proof (intro exI [of _ "if k2 = k then case_sum (\<lambda>_. x) (\<lambda>n. Some (Str (to_string n))) (incr_result (\<lambda>_. x) k d) else x"] actsI)
  fix t
  assume t: "holds k x t"
  define t1 where "t1 = touch k2 t"
  have t1: "holds k x t1" using holds_touch [OF t] by (simp add: t1_def)
  have local: "incr_result (map_of (db t1)) k d = incr_result (\<lambda>_. x) k d"
    using holdsD(2) [OF t1] by (simp add: incr_result_def)
  show "\<exists>r t'. incr_by k2 d t = Inr (r, t') \<and>
      holds k (if k2 = k then case_sum (\<lambda>_. x) (\<lambda>n. Some (Str (to_string n))) (incr_result (\<lambda>_. x) k d) else x) t'"
    unfolding incr_by_eq Let_def t1_def [symmetric] local [symmetric]
    using t1 holds_set [OF t1, of k2] by (cases "incr_result (map_of (db t1)) k2 d") auto
qed

lemma acts_incrs: "\<exists>x'. acts k (cmd_incr cmd) x x'" "\<exists>x'. acts k (cmd_decr cmd) x x'" "\<exists>x'. acts k (cmd_incrby cmd) x x'"
  unfolding cmd_incr_def [abs_def] cmd_decr_def [abs_def] cmd_incrby_def [abs_def]
  by (rule acts_if acts_reply acts_incr_by)+
    (cases "parse_i64 (cmd ! 2)"; simp add: acts_incr_by acts_reply)

lemma acts_del_loop:
  "holds k x t \<Longrightarrow> holds k (if k \<in> set keys then None else x) (snd (del_loop keys n t))"
proof (induction keys arbitrary: n t x)
  case (Cons k2 keys)
  define t1 where "t1 = touch k2 t"
  have t1: "holds k x t1" using holds_touch [OF Cons.prems] by (simp add: t1_def)
  show ?case
  proof (cases "map_of (db t1) k2 = None")
    case True
    with t1 have "k2 = k \<Longrightarrow> x = None" by (auto dest: holdsD(2))
    with Cons.IH [OF t1, of n] True show ?thesis
      unfolding del_loop_Cons t1_def [symmetric] by auto
  next
    case False
    with Cons.IH [OF holds_delete_now [OF t1, of k2], of "n + 1"] show ?thesis
      unfolding del_loop_Cons t1_def [symmetric] by (cases "k2 = k") (auto split: if_splits)
  qed
qed simp

lemma acts_del: "\<exists>x'. acts k (cmd_del cmd) x x'"
proof (cases "length cmd < 2")
  case True
  then show ?thesis using acts_reply by (auto simp: cmd_del_def [abs_def])
next
  case False
  then have "acts k (cmd_del cmd) x (if k \<in> set (drop 1 cmd) then None else x)"
    by (intro actsI) (auto simp: cmd_del_def split_beta dest: acts_del_loop [of k x _ "drop 1 cmd" 0])
  then show ?thesis ..
qed

lemma acts_persist: "acts k (cmd_persist cmd) x x"
proof (rule actsI)
  fix t
  assume "holds k x t"
  define k2 t1 where "k2 = cmd ! 1" and "t1 = touch k2 t"
  have t1: "holds k x t1" using holds_touch [OF \<open>holds k x t\<close>] by (simp add: t1_def)
  show "\<exists>r t'. cmd_persist cmd t = Inr (r, t') \<and> holds k x t'"
    unfolding cmd_persist_def k2_def [symmetric] t1_def [symmetric] Let_def
    using \<open>holds k x t\<close> t1 holds_persist [OF t1, of k2] by auto
qed

lemma acts_pexpireat:
  assumes "length cmd = 3 \<longrightarrow> cmd ! 1 \<noteq> k"
  shows "acts k (cmd_pexpireat cmd) x x"
proof (rule actsI)
  fix t
  assume t: "holds k x t"
  define k2 t1 where "k2 = cmd ! 1" and "t1 = touch k2 t"
  define t2 where "t2 = t1\<lparr>clk := \<lambda>i. clk t1 (Suc i)\<rparr>"
  have t1: "holds k x t1" using holds_touch [OF t] by (simp add: t1_def)
  have t2: "holds k x t2" using holds_tick [OF t1] by (simp add: t2_def)
  show "\<exists>r t'. cmd_pexpireat cmd t = Inr (r, t') \<and> holds k x t'"
  proof (cases "length cmd = 3")
    case True
    then have ne: "k2 \<noteq> k" using assms by (simp add: k2_def)
    have "db t2 = db t1" "now_ms t1 = (clk t1 0, t2)" by (simp_all add: t2_def now_ms_eq)
    with True ne t t1 holds_delete_now [OF t2, of k2] holds_set_expiry [OF t2 ne] show ?thesis
      unfolding cmd_pexpireat_def k2_def [symmetric] t1_def [symmetric] Let_def
      by (auto simp: db_exists_def split: option.split)
  qed (use t in \<open>simp add: cmd_pexpireat_def\<close>)
qed

lemma acts_flushall: "\<exists>x'. acts k (cmd_flushall cmd) x x'"
proof (cases "length cmd = 1")
  case True
  have "acts k (cmd_flushall cmd) x None"
  proof (rule actsI)
    fix t
    assume "holds k x t"
    with flushall_wf [OF holdsD(1) [OF this]] True
    show "\<exists>r t'. cmd_flushall cmd t = Inr (r, t') \<and> holds k None t'"
      by (auto simp: cmd_flushall_def holds_def)
  qed
  then show ?thesis ..
next
  case False
  then show ?thesis using acts_reply by (auto simp: cmd_flushall_def [abs_def])
qed

definition as_list :: "entry option \<Rightarrow> string list" where
  "as_list x = (case x of Some (Lst l) \<Rightarrow> l | _ \<Rightarrow> [])"

definition is_str :: "entry option \<Rightarrow> bool" where
  "is_str x \<longleftrightarrow> (case x of Some (Str _) \<Rightarrow> True | _ \<Rightarrow> False)"

lemma at_key: "list_at m k = as_list (map_of m k)" "db_type m k = kString \<longleftrightarrow> is_str (map_of m k)"
  by (auto simp: list_at_def as_list_def db_type_def is_str_def split: option.split entry.split)

lemma acts_push: "\<exists>x'. acts k (push_generic name cmd left) x x'"
proof (cases "length cmd < 3")
  case True
  then show ?thesis using acts_reply by (auto simp: push_generic_def [abs_def])
next
  case False
  let ?x = "if cmd ! 1 = k \<and> \<not> is_str x then Some (Lst (pushed left (drop 2 cmd) (as_list x))) else x"
  have "acts k (push_generic name cmd left) x ?x"
  proof (rule actsI)
    fix t
    assume t: "holds k x t"
    define k2 t1 where "k2 = cmd ! 1" and "t1 = touch k2 t"
    have t1: "holds k x t1" using holds_touch [OF t] by (simp add: t1_def)
    obtain m where m: "push_generic name cmd left t =
      (if is_str (map_of (db t1) k2) then Inr (wrongtype, t1)
       else Inr (resp_integer (int (length (drop 2 cmd) + length (list_at (db t1) k2))), t1\<lparr>db := m\<rparr>))"
      "\<not> is_str (map_of (db t1) k2) \<Longrightarrow> server_wf (t1\<lparr>db := m\<rparr>) \<and> view (t1\<lparr>db := m\<rparr>) =
         ((fst (view t1))(k2 \<mapsto> Lst (pushed left (drop 2 cmd) (as_list (map_of (db t1) k2)))), snd (view t1))"
      using push_generic_ok [OF holdsD(1) [OF t] _ k2_def t1_def, of name left] False unfolding at_key by auto
    have "holds k (if k2 = k then Some (Lst (pushed left (drop 2 cmd) (as_list x))) else x) (t1\<lparr>db := m\<rparr>)"
      if "\<not> is_str (map_of (db t1) k2)"
      by (rule holds_change [OF t1]) (use m(2) [OF that] t1 holdsD(2) [OF t1] in \<open>auto simp: holds_def\<close>)
    with m(1) t1 holdsD(2) [OF t1] show "\<exists>r t'. push_generic name cmd left t = Inr (r, t') \<and> holds k ?x t'"
      unfolding k2_def [symmetric] by (cases "is_str (map_of (db t1) k2)"; cases "k2 = k") auto
  qed
  then show ?thesis ..
qed

lemma acts_pop: "\<exists>x'. acts k (pop_generic name cmd left) x x'"
proof (cases "length cmd = 2")
  case False
  then show ?thesis using acts_reply by (auto simp: pop_generic_def [abs_def])
next
  case True
  let ?l = "popped left (as_list x)"
  let ?x = "if cmd ! 1 = k \<and> \<not> is_str x \<and> as_list x \<noteq> [] then (if ?l = [] then None else Some (Lst ?l)) else x"
  have "acts k (pop_generic name cmd left) x ?x"
  proof (rule actsI)
    fix t
    assume t: "holds k x t"
    define k2 t1 where "k2 = cmd ! 1" and "t1 = touch k2 t"
    have t1: "holds k x t1" using holds_touch [OF t] by (simp add: t1_def)
    have pop: "pop_generic name cmd left t =
      (if is_str (map_of (db t1) k2) then Inr (wrongtype, t1)
       else if as_list (map_of (db t1) k2) = [] then Inr (resp_null_bulk, t1)
       else Inr (resp_bulk (popped_elem left (as_list (map_of (db t1) k2))), keep_list k2 (popped left (as_list (map_of (db t1) k2))) t1))"
      using pop_generic_ok [OF holdsD(1) [OF t] True k2_def t1_def refl, of name left] unfolding at_key .
    have keep: "holds k (if k2 = k then (if l = [] then None else Some (Lst l)) else x) (keep_list k2 l t1)" for l
    proof (rule holds_change [OF t1 keep_list_wf(1) [OF holdsD(1) [OF t1]]])
      show "wal (keep_list k2 l t1) = wal t1" "persistence_failed (keep_list k2 l t1) = persistence_failed t1"
        by (simp_all add: keep_list_def delete_now_def)
    qed (use t1 in \<open>auto simp: keep_list_wf(2) [OF holdsD(1) [OF t1]] vdel_def holds_def\<close>)
    show "\<exists>r t'. pop_generic name cmd left t = Inr (r, t') \<and> holds k ?x t'"
      using pop t1 holdsD(2) [OF t1] keep [of "popped left (as_list (map_of (db t1) k2))"]
      unfolding k2_def [symmetric]
      by (cases "is_str (map_of (db t1) k2)"; cases "as_list (map_of (db t1) k2) = []"; cases "k2 = k")
        (simp_all split: if_split_asm)
  qed
  then show ?thesis ..
qed

section \<open>Records and logs\<close>

text \<open>The record gives \<open>k\<close> a deadline.\<close>

definition times :: "string \<Rightarrow> command \<Rightarrow> bool" where
  "times k r \<longleftrightarrow> length r = 3 \<and> upper (r ! 0) = ''PEXPIREAT'' \<and> r ! 1 = k"

lemma acts_record:
  assumes "log_record r" and "\<not> times k r"
  shows "\<exists>h x'. map_of kTable (upper (r ! 0)) = Some h \<and> acts k (h r) x x'"
proof -
  have names: "upper (r ! 0) \<in> set log_names" and set3: "upper (r ! 0) = ''SET'' \<Longrightarrow> length r = 3"
    using assms(1) by (simp_all add: log_record_def)
  from names show ?thesis
    unfolding log_names_def list.set
    by (elim insertE emptyE)
      (use set3 assms(2) acts_set [of r k x] acts_pexpireat [of r k x] acts_persist [of k r x] acts_del [of k r x]
        acts_incrs [of k r x] acts_flushall [of k r x] acts_push [of k _ r _ x] acts_pop [of k _ r _ x] in
        \<open>auto simp: kTable_def times_def cmd_lpush_def [abs_def] cmd_rpush_def [abs_def] cmd_lpop_def [abs_def] cmd_rpop_def [abs_def]\<close>)
qed

lemma recover_record:
  assumes "log_record r" and "\<not> times k r"
  shows "\<exists>x'. \<forall>t. holds k x t \<longrightarrow> (\<exists>t'. recover_cmd r (Inr t) = Inr t' \<and> holds k x' t')"
proof -
  obtain h x' where h: "map_of kTable (upper (r ! 0)) = Some h" "acts k (h r) x x'"
    using acts_record [OF assms] by blast
  have "\<exists>t'. recover_cmd r (Inr t) = Inr t' \<and> holds k x' t'" if t: "holds k x t" for t
  proof -
    obtain reply t' where t': "h r t = Inr (reply, t')" "holds k x' t'"
      using h(2) t unfolding acts_def by blast
    have "r \<noteq> []" "\<not> persistence_failed t" using assms(1) t by (simp_all add: log_record_def holds_def)
    with t' execute_handler [OF this(2,1) refl h(1)] show ?thesis
      by (auto simp: recover_cmd_def holds_def Let_def)
  qed
  then show ?thesis by blast
qed

lemma recover_records:
  "list_all log_record recs \<Longrightarrow> list_all (\<lambda>r. \<not> times k r) recs \<Longrightarrow>
   \<exists>x'. \<forall>t. holds k x t \<longrightarrow> (\<exists>t'. fold recover_cmd recs (Inr t) = Inr t' \<and> holds k x' t')"
proof (induction recs arbitrary: x)
  case (Cons r recs)
  then obtain x1 where x1: "\<And>t. holds k x t \<Longrightarrow> \<exists>t'. recover_cmd r (Inr t) = Inr t' \<and> holds k x1 t'"
    using recover_record [of r k x] by auto
  from Cons.prems obtain x' where "\<And>t. holds k x1 t \<Longrightarrow> \<exists>t'. fold recover_cmd recs (Inr t) = Inr t' \<and> holds k x' t'"
    using Cons.IH [of x1] by auto
  with x1 show ?case by (intro exI [of _ x']) fastforce
qed auto

lemma deadlines_from_mono: "deadlines_from T recs \<Longrightarrow> S \<le> T \<Longrightarrow> deadlines_from S recs"
  by (auto simp: deadlines_from_def list_all_iff split: option.splits)

lemma deadlines_from_some: "\<exists>T. deadlines_from T recs"
proof (induction recs)
  case (Cons r recs)
  then obtain T where T: "deadlines_from T recs" by blast
  define S where "S = (case record_deadline r of None \<Rightarrow> T | Some a \<Rightarrow> min a T)"
  have "deadlines_from S recs"
    by (rule deadlines_from_mono [OF T]) (simp add: S_def split: option.split)
  moreover have "deadlines_from S [r]"
    by (simp add: deadlines_from_def S_def split: option.split)
  ultimately show ?case
    using deadlines_from_append [of S "[r]" recs] by auto
qed (simp add: deadlines_from_def)

lemma holds_start: "holds k None (CommandDispatcher c)"
  by (simp add: holds_def) (simp add: CommandDispatcher_def)

text \<open>
  Replaying a complete log at any time: keys it never times end up as they are in the server that
  wrote it.
\<close>

lemma logged_replay_any_time:
  assumes "logged s recs" and "\<not> persistence_failed s" and "list_all (\<lambda>r. \<not> times k r) recs"
  shows "\<exists>t. fold recover_cmd recs (Inr (CommandDispatcher c)) = Inr t \<and>
     map_of (db t) k = map_of (db s) k \<and> expiry_at (ttl t) k = None \<and> expiry_at (ttl s) k = None"
proof -
  have shape: "list_all log_record recs"
    and redo: "\<And>T. deadlines_from T recs \<Longrightarrow> replays T recs (Map.empty, Map.empty) (view s)"
    using assms(1,2) unfolding logged_def by auto
  obtain x' where x': "\<And>t. holds k None t \<Longrightarrow> \<exists>t'. fold recover_cmd recs (Inr t) = Inr t' \<and> holds k x' t'"
    using recover_records [OF shape assms(3), of None] by blast
  obtain T where "deadlines_from T recs" using deadlines_from_some by blast
  from redo [OF this] have "\<exists>t. fold recover_cmd recs (Inr (CommandDispatcher (\<lambda>i. T - 1))) = Inr t \<and> view t = view s"
    unfolding replays_def using ready_start [of "\<lambda>i. T - 1" T] by fastforce
  with x' [OF holds_start, of "\<lambda>i. T - 1"] have "fst (view s) k = x' \<and> snd (view s) k = None"
    by (auto simp: holds_def)
  with x' [OF holds_start, of c] show ?thesis
    by (fastforce simp: holds_def view_def)
qed

text \<open>
  C17. Recovery at any later time. In every life with the log on and no failed log write, let the
  process die, even halfway through an append, and be restarted at any time, with any clock. The
  server comes up, and every key to which the log never gave a deadline is there with the same
  value, or absent if it was absent, and still without a deadline.
\<close>

theorem untimed_keys_survive:
  assumes "life cfg s" and "wal_enabled cfg" and "\<not> persistence_failed s"
  shows "\<exists>recs w. wal s = Some w \<and> contents w = encode_all recs \<and>
     (\<forall>k c cmd d. list_all (cmd_fits kReplayFrameCap) recs \<and> list_all (\<lambda>r. \<not> times k r) recs \<and>
        crash_disk s cmd d \<longrightarrow>
        (\<exists>s'. boot cfg c d = Inr (Serving s') \<and> map_of (db s') k = map_of (db s) k \<and>
           expiry_at (ttl s') k = None \<and> expiry_at (ttl s) k = None))"
proof -
  obtain recs pol where log: "logged s recs" and pol: "fsync cfg = Some pol"
    using life_logged [OF assms(1)] assms(2) by auto
  then obtain w where w: "wal s = Some w" "contents w = encode_all recs"
    using assms(3) unfolding logged_def by blast
  have "\<exists>s'. boot cfg c d = Inr (Serving s') \<and> map_of (db s') k = map_of (db s) k \<and>
      expiry_at (ttl s') k = None \<and> expiry_at (ttl s) k = None"
    if fits: "list_all (cmd_fits kReplayFrameCap) recs" and k: "list_all (\<lambda>r. \<not> times k r) recs"
      and d: "crash_disk s cmd d" for k c cmd d
  proof -
    obtain t where t: "fold recover_cmd recs (Inr (CommandDispatcher c)) = Inr t" "map_of (db t) k = map_of (db s) k"
      "expiry_at (ttl t) k = None" "expiry_at (ttl s) k = None"
      using logged_replay_any_time [OF log assms(3) k] by blast
    from boot_replays [OF assms(2) pol w d fits t(1)] t show ?thesis by auto
  qed
  with w show ?thesis by blast
qed

theorem untimed_keys_survive_witness:
  "\<exists>s'. boot cfg_always (frozen_at 1000)
       (blank_disk (Some (encode_all [[''SET'', ''k'', ''v''], [''SET'', ''e'', ''x''], [''PEXPIREAT'', ''e'', ''15'']]))) =
         Inr (Serving s') \<and> map_of (db s') ''k'' = Some (Str ''v'')"
proof -
  let ?c1 = "[''SET'', ''k'', ''v'']" and ?c2 = "[''SET'', ''e'', ''x'', ''PX'', ''10'']"
  let ?recs = "[[''SET'', ''k'', ''v''], [''SET'', ''e'', ''x''], [''PEXPIREAT'', ''e'', ''15'']]"
  have "map_sum id (\<lambda>(rs, s). (persistence_failed s, map_of (db s) ''k'', map_option contents (wal s)))
      (run_service execute [?c1, ?c2] first_boot) = Inr (False, Some (Str ''v''), Some (encode_all ?recs))"
    by code_simp
  then obtain rs s w where run: "run_service execute [?c1, ?c2] first_boot = Inr (rs, s)" and s: "\<not> persistence_failed s"
    "map_of (db s) ''k'' = Some (Str ''v'')" "wal s = Some w" "contents w = encode_all ?recs"
    by (cases "run_service execute [?c1, ?c2] first_boot") auto
  from run have life: "life cfg_always s"
    by (auto simp: bind_res_Inr_iff intro: life_command [OF life_command [OF life_first_boot]])
  have fits: "list_all (cmd_fits kReplayFrameCap) ?recs" "cmd_fits kReplayFrameCap [''DEL'', ''k'']"
    by (simp_all add: cmd_fits_def arg_fits_def kReplayFrameCap_def kMaxArgs_def i64_simps)
  have un: "list_all (\<lambda>r. \<not> times ''k'' r) ?recs"
    by (simp add: times_def upper_names)
  have crash: "crash_disk s [''DEL'', ''k''] (blank_disk (Some (encode_all ?recs)))"
    using s fits(2) unfolding crash_disk_def
    by (auto simp: blank_disk_def intro!: exI [of _ "0::nat"])
  have "wal_enabled cfg_always" by (simp add: cfg_always_def)
  from untimed_keys_survive [OF life this s(1)] obtain recs where
    recs: "contents w = encode_all recs" "\<And>k c cmd d. list_all (cmd_fits kReplayFrameCap) recs \<and>
      list_all (\<lambda>r. \<not> times k r) recs \<and> crash_disk s cmd d \<Longrightarrow>
      \<exists>s'. boot cfg_always c d = Inr (Serving s') \<and> map_of (db s') k = map_of (db s) k"
    using s(3) by fastforce
  have "recs = ?recs" using recs(1) s(4) by (intro encode_all_inject) simp
  with recs(2) [of "''k''" "[''DEL'', ''k'']" "blank_disk (Some (encode_all ?recs))" "frozen_at 1000"] fits(1) un crash s(2)
  show ?thesis by simp
qed

end
