(* ===== verification/Semantics.thy ===== *)
theory Semantics
  imports Recovery
begin

text \<open>
  What the commands mean. The abstract state is one map from keys to a value and a deadline, of the
  keys that are alive at the time of the command; expired keys that still occupy memory, the lazy and
  active eviction, the two tables and the log are not seen. The specification gives the reply and the
  new map of each command; the lemmas show that the dispatcher implements it.
\<close>

section \<open>The abstract state\<close>

type_synonym kv = "string \<rightharpoonup> entry \<times> int option"

definition alive_at :: "int \<Rightarrow> entry option \<Rightarrow> int option \<Rightarrow> (entry \<times> int option) option" where
  "alive_at t e d =
     (case (e, d) of
        (None, _) \<Rightarrow> None
      | (Some e, None) \<Rightarrow> Some (e, None)
      | (Some e, Some x) \<Rightarrow> if x \<le> t then None else Some (e, Some x))"

definition alive :: "int \<Rightarrow> view \<Rightarrow> kv" where
  "alive t v = (\<lambda>k. alive_at t (fst v k) (snd v k))"

lemma alive_at_simps [simp]:
  "alive_at t None d = None" "alive_at t (Some e) None = Some (e, None)"
  "t < x \<Longrightarrow> alive_at t (Some e) (Some x) = Some (e, Some x)"
  "x \<le> t \<Longrightarrow> alive_at t (Some e) (Some x) = None"
  by (simp_all add: alive_at_def split: option.split)

lemma alive_upd: "alive t (m(k := e), d(k := x)) = (alive t (m, d))(k := alive_at t e x)"
  by (simp add: alive_def fun_eq_iff)

lemma alive_upd_value: "alive t (m(k := e), d) = (alive t (m, d))(k := alive_at t e (d k))"
  by (simp add: alive_def fun_eq_iff)

lemma alive_upd_deadline: "alive t (m, d(k := x)) = (alive t (m, d))(k := alive_at t (m k) x)"
  by (simp add: alive_def fun_eq_iff)

lemma alive_vdel: "alive t (vdel ks v) = alive t v |` (- set ks)"
  by (auto simp: alive_def vdel_def restrict_map_def fun_eq_iff)

section \<open>The specification\<close>

text \<open>Reading one key.\<close>

definition spec_get :: "kv \<Rightarrow> string list \<Rightarrow> string" where
  "spec_get K ws =
     (case ws of
        [k] \<Rightarrow> (case K k of None \<Rightarrow> resp_null_bulk | Some (Str v, _) \<Rightarrow> resp_bulk v | Some (Lst _, _) \<Rightarrow> wrongtype)
      | _ \<Rightarrow> wrong_arity ''get'')"

definition spec_type :: "kv \<Rightarrow> string list \<Rightarrow> string" where
  "spec_type K ws =
     (case ws of
        [k] \<Rightarrow> resp_simple (case K k of None \<Rightarrow> ''none'' | Some (Str _, _) \<Rightarrow> ''string'' | Some (Lst _, _) \<Rightarrow> ''list'')
      | _ \<Rightarrow> wrong_arity ''type'')"

definition spec_llen :: "kv \<Rightarrow> string list \<Rightarrow> string" where
  "spec_llen K ws =
     (case ws of
        [k] \<Rightarrow> (case K k of None \<Rightarrow> resp_integer 0 | Some (Str _, _) \<Rightarrow> wrongtype | Some (Lst l, _) \<Rightarrow> resp_integer (int (length l)))
      | _ \<Rightarrow> wrong_arity ''llen'')"

text \<open>The elements from one index to another, both included, counted from the end when negative.\<close>

definition slice :: "int \<Rightarrow> int \<Rightarrow> 'a list \<Rightarrow> 'a list" where
  "slice i j l =
     (let from_end = (\<lambda>i. if i < 0 then i + int (length l) else i)
      in map snd (filter (\<lambda>(p, x). from_end i \<le> int p \<and> int p \<le> from_end j) (enumerate 0 l)))"

definition spec_lrange :: "kv \<Rightarrow> string list \<Rightarrow> string" where
  "spec_lrange K ws =
     (case ws of
        [k, a, b] \<Rightarrow>
          (case (parse_i64 a, parse_i64 b) of
             (Some i, Some j) \<Rightarrow>
               (case K k of
                  Some (Str _, _) \<Rightarrow> wrongtype
                | Some (Lst l, _) \<Rightarrow> resp_array (map resp_bulk (slice i j l))
                | None \<Rightarrow> resp_array [])
           | _ \<Rightarrow> not_an_integer)
      | _ \<Rightarrow> wrong_arity ''lrange'')"

definition spec_exists :: "kv \<Rightarrow> string list \<Rightarrow> string" where
  "spec_exists K ws =
     (if ws = [] then wrong_arity ''exists'' else resp_integer (int (length (filter (\<lambda>k. K k \<noteq> None) ws))))"

text \<open>The time left: -2 without the key, -1 without a deadline. None is an overflow.\<close>

definition spec_ttl :: "int \<Rightarrow> bool \<Rightarrow> string \<Rightarrow> kv \<Rightarrow> string list \<Rightarrow> string option" where
  "spec_ttl t in_seconds name K ws =
     (case ws of
        [k] \<Rightarrow>
          (case K k of
             None \<Rightarrow> Some (resp_integer (- 2))
           | Some (_, None) \<Rightarrow> Some (resp_integer (- 1))
           | Some (_, Some x) \<Rightarrow>
               if in_seconds then
                 if in_i64 (x - t + 500) then Some (resp_integer ((x - t + 500) div 1000)) else None
               else if in_i64 (x - t) then Some (resp_integer (x - t)) else None)
      | _ \<Rightarrow> Some (wrong_arity name))"

text \<open>Writing. None is an overflow of a deadline.\<close>

definition spec_set :: "int \<Rightarrow> kv \<Rightarrow> string list \<Rightarrow> (string \<times> kv) option" where
  "spec_set t K ws =
     (case ws of
        k # v # words \<Rightarrow>
          (case set_options words \<lparr>nx = False, xx = False, expire = None\<rparr> of
             Inl _ \<Rightarrow> None
           | Inr (Inl err) \<Rightarrow> Some (err, K)
           | Inr (Inr opts) \<Rightarrow>
               if nx opts \<and> K k \<noteq> None \<or> xx opts \<and> K k = None then Some (resp_null_bulk, K)
               else (case expire opts of
                       None \<Rightarrow> Some (resp_simple ''OK'', K(k \<mapsto> (Str v, None)))
                     | Some ms \<Rightarrow>
                         if in_i64 (t + ms) then Some (resp_simple ''OK'', K(k \<mapsto> (Str v, Some (t + ms)))) else None))
      | _ \<Rightarrow> Some (wrong_arity ''set'', K))"

definition spec_add :: "int \<Rightarrow> kv \<Rightarrow> string \<Rightarrow> string \<times> kv" where
  "spec_add delta K k =
     (case incr_result (map_option fst \<circ> K) k delta of
        Inl err \<Rightarrow> (err, K)
      | Inr n \<Rightarrow> (resp_integer n, K(k \<mapsto> (Str (to_string n), Option.bind (K k) snd))))"

definition spec_incr :: "int \<Rightarrow> string \<Rightarrow> kv \<Rightarrow> string list \<Rightarrow> string \<times> kv" where
  "spec_incr delta name K ws = (case ws of [k] \<Rightarrow> spec_add delta K k | _ \<Rightarrow> (wrong_arity name, K))"

definition spec_incrby :: "kv \<Rightarrow> string list \<Rightarrow> string \<times> kv" where
  "spec_incrby K ws =
     (case ws of
        [k, d] \<Rightarrow> (case parse_i64 d of None \<Rightarrow> (not_an_integer, K) | Some delta \<Rightarrow> spec_add delta K k)
      | _ \<Rightarrow> (wrong_arity ''incrby'', K))"

definition spec_del :: "kv \<Rightarrow> string list \<Rightarrow> string \<times> kv" where
  "spec_del K ws =
     (if ws = [] then (wrong_arity ''del'', K)
      else (resp_integer (int (card (set ws \<inter> dom K))), K |` (- set ws)))"

text \<open>A deadline for a key: one that is not in the future deletes it.\<close>

definition spec_deadline :: "int \<Rightarrow> kv \<Rightarrow> string \<Rightarrow> int \<Rightarrow> string \<times> kv" where
  "spec_deadline t K k x =
     (case K k of
        None \<Rightarrow> (resp_integer 0, K)
      | Some (e, _) \<Rightarrow> (resp_integer 1, if x \<le> t then K(k := None) else K(k \<mapsto> (e, Some x))))"

definition spec_expire :: "int \<Rightarrow> int \<Rightarrow> string \<Rightarrow> kv \<Rightarrow> string list \<Rightarrow> (string \<times> kv) option" where
  "spec_expire t u name K ws =
     (case ws of
        [k, a] \<Rightarrow>
          (case parse_i64 a of
             None \<Rightarrow> Some (not_an_integer, K)
           | Some n \<Rightarrow>
               if K k = None \<or> n \<le> 0 \<or> in_i64 (n * u) \<and> in_i64 (t + n * u)
               then Some (spec_deadline t K k (t + n * u)) else None)
      | _ \<Rightarrow> Some (wrong_arity name, K))"

definition spec_pexpireat :: "int \<Rightarrow> kv \<Rightarrow> string list \<Rightarrow> string \<times> kv" where
  "spec_pexpireat t K ws =
     (case ws of
        [k, a] \<Rightarrow> (case parse_i64 a of None \<Rightarrow> (not_an_integer, K) | Some x \<Rightarrow> spec_deadline t K k x)
      | _ \<Rightarrow> (wrong_arity ''pexpireat'', K))"

definition spec_persist :: "kv \<Rightarrow> string list \<Rightarrow> string \<times> kv" where
  "spec_persist K ws =
     (case ws of
        [k] \<Rightarrow>
          (case K k of
             Some (e, Some _) \<Rightarrow> (resp_integer 1, K(k \<mapsto> (e, None)))
           | _ \<Rightarrow> (resp_integer 0, K))
      | _ \<Rightarrow> (wrong_arity ''persist'', K))"

text \<open>Lists: a missing key is an empty list, and a list that becomes empty is a missing key.\<close>

definition spec_push :: "bool \<Rightarrow> string \<Rightarrow> kv \<Rightarrow> string list \<Rightarrow> string \<times> kv" where
  "spec_push left name K ws =
     (case ws of
        k # v # vs \<Rightarrow>
          (case K k of
             Some (Str _, _) \<Rightarrow> (wrongtype, K)
           | Some (Lst l, d) \<Rightarrow>
               (resp_integer (int (length (v # vs) + length l)), K(k \<mapsto> (Lst (pushed left (v # vs) l), d)))
           | None \<Rightarrow> (resp_integer (int (length (v # vs))), K(k \<mapsto> (Lst (pushed left (v # vs) []), None))))
      | _ \<Rightarrow> (wrong_arity name, K))"

definition spec_pop :: "bool \<Rightarrow> string \<Rightarrow> kv \<Rightarrow> string list \<Rightarrow> string \<times> kv" where
  "spec_pop left name K ws =
     (case ws of
        [k] \<Rightarrow>
          (case K k of
             Some (Str _, _) \<Rightarrow> (wrongtype, K)
           | Some (Lst l, d) \<Rightarrow>
               (resp_bulk (popped_elem left l), K(k := if popped left l = [] then None else Some (Lst (popped left l), d)))
           | None \<Rightarrow> (resp_null_bulk, K))
      | _ \<Rightarrow> (wrong_arity name, K))"

definition spec_flushall :: "kv \<Rightarrow> string list \<Rightarrow> string \<times> kv" where
  "spec_flushall K ws = (if ws = [] then (resp_simple ''OK'', Map.empty) else (wrong_arity ''flushall'', K))"

text \<open>By name.\<close>

definition spec :: "int \<Rightarrow> string \<Rightarrow> kv \<Rightarrow> string list \<Rightarrow> (string \<times> kv) option" where
  "spec t name K ws =
     (if name = ''GET'' then Some (spec_get K ws, K)
      else if name = ''TYPE'' then Some (spec_type K ws, K)
      else if name = ''EXISTS'' then Some (spec_exists K ws, K)
      else if name = ''LLEN'' then Some (spec_llen K ws, K)
      else if name = ''LRANGE'' then Some (spec_lrange K ws, K)
      else if name = ''TTL'' then map_option (\<lambda>r. (r, K)) (spec_ttl t True ''ttl'' K ws)
      else if name = ''PTTL'' then map_option (\<lambda>r. (r, K)) (spec_ttl t False ''pttl'' K ws)
      else if name = ''SET'' then spec_set t K ws
      else if name = ''INCR'' then Some (spec_incr 1 ''incr'' K ws)
      else if name = ''DECR'' then Some (spec_incr (- 1) ''decr'' K ws)
      else if name = ''INCRBY'' then Some (spec_incrby K ws)
      else if name = ''DEL'' then Some (spec_del K ws)
      else if name = ''EXPIRE'' then spec_expire t 1000 ''expire'' K ws
      else if name = ''PEXPIRE'' then spec_expire t 1 ''pexpire'' K ws
      else if name = ''PEXPIREAT'' then Some (spec_pexpireat t K ws)
      else if name = ''PERSIST'' then Some (spec_persist K ws)
      else if name = ''LPUSH'' then Some (spec_push True ''lpush'' K ws)
      else if name = ''RPUSH'' then Some (spec_push False ''rpush'' K ws)
      else if name = ''LPOP'' then Some (spec_pop True ''lpop'' K ws)
      else if name = ''RPOP'' then Some (spec_pop False ''rpop'' K ws)
      else if name = ''FLUSHALL'' then Some (spec_flushall K ws)
      else None)"

section \<open>After a touch\<close>

text \<open>The readings of the clock during the command are all \<open>t\<close>.\<close>

definition at_time :: "int \<Rightarrow> server \<Rightarrow> bool" where
  "at_time t s \<longleftrightarrow> server_wf s \<and> (\<forall>i. clk s i = t)"

lemma alive_Some:
  "alive t v k = Some (e, d) \<longleftrightarrow> fst v k = Some e \<and> snd v k = d \<and> (\<forall>x. d = Some x \<longrightarrow> t < x)"
  by (auto simp: alive_def alive_at_def split: option.split)

lemma touched:
  assumes "at_time t s" and "s1 = touch k s" and "K = alive t (view s)"
  shows "at_time t s1" and "alive t (view s1) = K" and "fst (view s1) k = map_option fst (K k)"
    and "snd (view s1) k = Option.bind (K k) snd"
proof -
  have wf: "server_wf s" and clk: "clk s i = t" for i using assms(1) by (simp_all add: at_time_def)
  have "clk s1 i = t" for i using clk unfolding assms(2) touch_def check_key_cases by simp
  with wf show "at_time t s1" by (simp add: at_time_def assms(2))
  note v = touch_view [OF wf, of k, folded assms(2)]
  show "alive t (view s1) = K"
  proof (cases "expired_key k s")
    case True
    then have "alive t (view s) k = None"
      by (auto simp: expired_key_def clk alive_def alive_at_def view_def split: option.splits)
    with v True show ?thesis by (auto simp: assms(3) alive_vdel restrict_map_def fun_eq_iff)
  qed (simp add: v assms(3))
  show "fst (view s1) k = map_option fst (K k)" "snd (view s1) k = Option.bind (K k) snd"
    using v server_wfD(3) [OF wf, of k]
    by (auto simp: assms(3) expired_key_def clk alive_def alive_at_def view_def vdel_def split: option.splits if_splits)
qed

text \<open>A handler meets an outcome of the specification.\<close>

definition meets :: "int \<Rightarrow> (string \<times> kv) option \<Rightarrow> (string \<times> server) result \<Rightarrow> bool" where
  "meets t out res \<longleftrightarrow> (\<forall>r s1. res = Inr (r, s1) \<longrightarrow> out = Some (r, alive t (view s1)))"

lemma meetsI: "out = Some (r, alive t (view s1)) \<Longrightarrow> meets t out (Inr (r, s1))"
  by (simp add: meets_def)

lemma db_type_K: "fst (view s1) k = map_option fst x \<Longrightarrow>
   db_type (db s1) k = (case x of None \<Rightarrow> kNone | Some (Str _, _) \<Rightarrow> kString | Some (Lst _, _) \<Rightarrow> kList)"
  by (auto simp: view_def db_type_def split: option.split prod.split entry.split)

lemma db_get_K: "fst (view s1) k = map_option fst x \<Longrightarrow>
   db_get (db s1) k = (case x of Some (Str v, _) \<Rightarrow> Some v | _ \<Rightarrow> None)"
  by (auto simp: view_def db_get_def split: option.split prod.split entry.split)

lemma db_exists_K: "fst (view s1) k = map_option fst x \<Longrightarrow> db_exists (db s1) k \<longleftrightarrow> x \<noteq> None"
  by (auto simp: view_def db_exists_def)

lemma list_at_K: "fst (view s1) k = map_option fst x \<Longrightarrow>
   list_at (db s1) k = (case x of Some (Lst l, _) \<Rightarrow> l | _ \<Rightarrow> [])"
  by (auto simp: view_def list_at_def split: option.split prod.split entry.split)

lemma expiry_at_K: "snd (view s1) k = Option.bind x snd \<Longrightarrow> expiry_at (ttl s1) k = Option.bind x snd"
  by (simp add: view_def)

lemmas looked_up = db_type_K db_get_K db_exists_K list_at_K expiry_at_K

section \<open>Reads\<close>

text \<open>A command of one key touches it and looks it up; with other words it is refused.\<close>

lemma meets_unary:
  assumes s: "at_time t s" and K: "K = alive t (view s)"
    and key: "\<And>k s1. ws = [k] \<Longrightarrow> touch k s = s1 \<Longrightarrow> at_time t s1 \<Longrightarrow> alive t (view s1) = K \<Longrightarrow>
      fst (view s1) k = map_option fst (K k) \<Longrightarrow> snd (view s1) k = Option.bind (K k) snd \<Longrightarrow> meets t out res"
    and other: "length ws \<noteq> 1 \<Longrightarrow> (\<And>f g. (case ws of [k] \<Rightarrow> f k | _ \<Rightarrow> g) = g) \<Longrightarrow> meets t out res"
  shows "meets t out res"
proof (cases "\<exists>k. ws = [k]")
  case True
  then obtain k where ws: "ws = [k]" by blast
  show ?thesis by (rule key [OF ws refl touched [OF s refl K]])
next
  case False
  show ?thesis
  proof (rule other)
    show "length ws \<noteq> 1" using False by (cases ws; cases "tl ws") auto
    show "(case ws of [k] \<Rightarrow> f k | _ \<Rightarrow> g) = g" for f g
      using False by (cases ws; cases "tl ws") auto
  qed
qed

lemmas entry_splits = option.splits prod.splits entry.splits

lemma meets_get:
  assumes "at_time t s" and K: "K = alive t (view s)"
  shows "meets t (Some (spec_get K ws, K)) (cmd_get (w # ws) s)"
proof (rule meets_unary [OF assms])
  fix k s1
  assume "ws = [k]" "touch k s = s1" and s1: "alive t (view s1) = K" "fst (view s1) k = map_option fst (K k)"
  then show "meets t (Some (spec_get K ws, K)) (cmd_get (w # ws) s)"
    by (simp add: meets_def cmd_get_def spec_get_def looked_up(1,2) [OF s1(2)] del: db_type_simps split: entry_splits)
qed (simp add: meets_def cmd_get_def spec_get_def K)

lemma meets_type:
  assumes "at_time t s" and K: "K = alive t (view s)"
  shows "meets t (Some (spec_type K ws, K)) (cmd_type (w # ws) s)"
proof (rule meets_unary [OF assms])
  fix k s1
  assume "ws = [k]" "touch k s = s1" and s1: "alive t (view s1) = K" "fst (view s1) k = map_option fst (K k)"
  then show "meets t (Some (spec_type K ws, K)) (cmd_type (w # ws) s)"
    by (simp add: meets_def cmd_type_def spec_type_def looked_up(1) [OF s1(2)] split: entry_splits)
qed (simp add: meets_def cmd_type_def spec_type_def K)

lemma meets_llen:
  assumes "at_time t s" and K: "K = alive t (view s)"
  shows "meets t (Some (spec_llen K ws, K)) (cmd_llen (w # ws) s)"
proof (rule meets_unary [OF assms])
  fix k s1
  assume ws: "ws = [k]" "touch k s = s1" and s1: "alive t (view s1) = K" "fst (view s1) k = map_option fst (K k)"
  have "db_llen (db s1) k = Inr (length (list_at (db s1) k))" if "db_type (db s1) k \<noteq> kString"
    using that by (rule db_llen_ok)
  with ws s1(1) show "meets t (Some (spec_llen K ws, K)) (cmd_llen (w # ws) s)"
    by (simp add: meets_def cmd_llen_def spec_llen_def looked_up(1,4) [OF s1(2)] del: db_type_simps split: entry_splits)
qed (simp add: meets_def cmd_llen_def spec_llen_def K)

lemma filter_enumerate:
  "map snd (filter (\<lambda>(p, x). a \<le> int p \<and> int p \<le> b) (enumerate m l)) = drop (nat (a - int m)) (take (nat (b + 1 - int m)) l)"
proof (induction l arbitrary: m)
  case (Cons x l)
  consider "int m < a" | "a \<le> int m" "int m \<le> b" | "a \<le> int m" "b < int m" by linarith
  then show ?case
  proof cases
    case 1
    then have a: "nat (a - int m) = Suc (nat (a - int (Suc m)))" by simp
    show ?thesis
    proof (cases "int m \<le> b")
      case True
      then have "nat (b + 1 - int m) = Suc (nat (b + 1 - int (Suc m)))" by simp
      with 1 a Cons.IH [of "Suc m"] show ?thesis by simp
    next
      case False
      with 1 Cons.IH [of "Suc m"] show ?thesis by simp
    qed
  next
    case 2
    then have "nat (b + 1 - int m) = Suc (nat (b + 1 - int (Suc m)))" "nat (a - int m) = 0" "nat (a - int (Suc m)) = 0" by simp_all
    with 2 Cons.IH [of "Suc m"] show ?thesis by simp
  next
    case 3
    with Cons.IH [of "Suc m"] show ?thesis by simp
  qed
qed simp

lemma slice_Nil [simp]: "slice i j [] = []"
  by (simp add: slice_def)

lemma slice_eq: "slice i j l = drop (clamp_start (int (length l)) i) (take (clamp_stop (int (length l)) j) l)"
proof -
  let ?n = "int (length l)" and ?e = "\<lambda>i. if i < 0 then i + int (length l) else i"
  have "slice i j l = drop (nat (?e i)) (take (nat (?e j + 1)) l)"
    unfolding slice_def Let_def using filter_enumerate [of "?e i" "?e j" 0 l] by simp
  also have "take (nat (?e j + 1)) l = take (nat (min ?n (?e j + 1))) l"
    by (simp add: min_def)
  finally show ?thesis by (simp add: clamp_start_def clamp_stop_def)
qed

lemma meets_lrange:
  assumes "at_time t s" and K: "K = alive t (view s)"
  shows "meets t (Some (spec_lrange K ws, K)) (cmd_lrange (w # ws) s)"
proof (cases "length ws = 3")
  case False
  then have "(case ws of [k, a, b] \<Rightarrow> f k a b | _ \<Rightarrow> g) = g" for f g
    by (auto split: list.split)
  with False show ?thesis by (simp add: meets_def cmd_lrange_def spec_lrange_def K)
next
  case True
  then obtain k a b where ws: "ws = [k, a, b]"
    by (auto simp: length_Suc_conv eval_nat_numeral)
  define s1 where "s1 = touch k s"
  note s1 = touched [OF assms(1) s1_def K]
  have "db_lrange (db s1) k i j = Inr (slice i j (list_at (db s1) k))" if "db_type (db s1) k \<noteq> kString" for i j
    using db_lrange_ok [OF that] by (simp add: slice_eq Let_def)
  with s1(2) show ?thesis
    by (auto simp: meets_def cmd_lrange_def spec_lrange_def ws s1_def [symmetric] K [symmetric]
        looked_up(1,4) [OF s1(3)] simp del: db_type_simps split: entry_splits)
qed

lemma exists_loop_K:
  "at_time t s \<Longrightarrow> K = alive t (view s) \<Longrightarrow> exists_loop keys n s = (n', s') \<Longrightarrow>
     n' = n + int (length (filter (\<lambda>k. K k \<noteq> None) keys)) \<and> alive t (view s') = K"
proof (induction keys arbitrary: n s)
  case (Cons k keys)
  define s1 where "s1 = touch k s"
  note s1 = touched [OF Cons.prems(1) s1_def Cons.prems(2)]
  have "exists_loop keys (if K k \<noteq> None then n + 1 else n) s1 = (n', s')"
    using Cons.prems(3) by (simp add: s1_def [symmetric] Let_def db_exists_K [OF s1(3)])
  from Cons.IH [OF s1(1) s1(2) [symmetric] this] show ?case by auto
qed simp

lemma meets_exists:
  assumes "at_time t s" and K: "K = alive t (view s)"
  shows "meets t (Some (spec_exists K ws, K)) (cmd_exists (w # ws) s)"
proof (cases "ws = []")
  case False
  obtain n s' where "exists_loop ws 0 s = (n, s')" by fastforce
  with exists_loop_K [OF assms this] False show ?thesis
    by (simp add: meets_def cmd_exists_def spec_exists_def Suc_le_eq)
qed (simp add: meets_def cmd_exists_def spec_exists_def K)

lemma meets_ttl:
  assumes "at_time t s" and K: "K = alive t (view s)"
  shows "meets t (map_option (\<lambda>r. (r, K)) (spec_ttl t b name K ws)) (ttl_generic name (w # ws) b s)"
proof (rule meets_unary [OF assms])
  fix k s1
  assume ws: "ws = [k]" "touch k s = s1" and s1: "at_time t s1" "alive t (view s1) = K"
    "fst (view s1) k = map_option fst (K k)" "snd (view s1) k = Option.bind (K k) snd"
  show "meets t (map_option (\<lambda>r. (r, K)) (spec_ttl t b name K ws)) (ttl_generic name (w # ws) b s)"
  proof (cases "\<exists>e x. K k = Some (e, Some x)")
    case True
    then obtain e x where x: "K k = Some (e, Some x)" by blast
    then have "t < x" using alive_Some [of t "view s1" k e "Some x"] s1(2) by simp
    moreover have "clk s1 0 = t" using s1(1) by (simp add: at_time_def)
    ultimately show ?thesis
      using ws s1(2) x
      by (auto simp: meets_def ttl_generic_def spec_ttl_def db_exists_K [OF s1(3)] expiry_at_K [OF s1(4)] now_ms_eq Let_def
          bind_res_Inr_iff)
  next
    case False
    with ws s1(2) show ?thesis
      by (cases "K k") (auto simp: meets_def ttl_generic_def spec_ttl_def db_exists_K [OF s1(3)] expiry_at_K [OF s1(4)])
  qed
qed (simp add: meets_def ttl_generic_def spec_ttl_def K)

section \<open>Writes\<close>

lemma set_options_expire:
  "set_options ws opts = Inr (Inr o') \<Longrightarrow> expire o' = expire opts \<or> (\<exists>ms > 0. expire o' = Some ms)"
  by (induction ws opts rule: set_options.induct) (auto simp: bind_res_Inr_iff split: if_splits option.splits)

lemma meets_set:
  assumes "at_time t s" and K: "K = alive t (view s)"
  shows "meets t (spec_set t K ws) (cmd_set (w # ws) s)"
proof (cases "\<exists>k v words. ws = k # v # words")
  case False
  then have "(case ws of k # v # words \<Rightarrow> f k v words | _ \<Rightarrow> g) = g" "length ws < 2" for f g
    by (cases ws; cases "tl ws"; auto)+
  then show ?thesis by (simp add: meets_def cmd_set_def spec_set_def K)
next
  case True
  then obtain k v words where ws: "ws = k # v # words" by blast
  define s1 where "s1 = touch k s"
  note s1 = touched [OF assms(1) s1_def K]
  define s2 where "s2 = s1\<lparr>db := db_set k v (db s1)\<rparr>"
  have wf: "server_wf s1" "clk s1 0 = t" using s1(1) by (simp_all add: at_time_def)
  note s2 = server_wf_set [OF wf(1), of k v, folded s2_def]
  have eq: "cmd_set (w # ws) s =
      bind_res (set_options words \<lparr>nx = False, xx = False, expire = None\<rparr>) (\<lambda>parsed.
        case parsed of
          Inl err \<Rightarrow> Inr (err, s)
        | Inr opts \<Rightarrow>
            if nx opts \<and> K k \<noteq> None \<or> xx opts \<and> K k = None then Inr (resp_null_bulk, s1)
            else case expire opts of
              Some ms \<Rightarrow> bind_res (checked_i64 (t + ms)) (\<lambda>at.
                Inr (resp_simple ''OK'', s2\<lparr>clk := \<lambda>i. clk s2 (Suc i), ttl := set_expiry k at (ttl s2)\<rparr>))
            | None \<Rightarrow> Inr (resp_simple ''OK'', s2\<lparr>ttl := persist k (ttl s2)\<rparr>))"
  proof -
    have shape: "3 \<le> length (w # ws)" "k = (w # ws) ! 1" "drop 3 (w # ws) = words" by (simp_all add: ws)
    have s2': "s2 = s1\<lparr>db := db_set k ((w # ws) ! 2) (db s1)\<rparr>" by (simp add: ws s2_def)
    have "clk s2 0 = t" using wf(2) by (simp add: s2_def)
    then show ?thesis
      unfolding cmd_set_eq [OF shape(1,2) s1_def s2'] shape(3) by (simp only: db_exists_K [OF s1(3)] not_not)
  qed
  note eq = eq [unfolded ws]
  have plain: "alive t (view (s2\<lparr>ttl := persist k (ttl s2)\<rparr>)) = K(k \<mapsto> (Str v, None))"
    using server_wf_persist(2) [OF s2(1), of k] s2(2) s1(2) by (simp add: alive_upd)
  have timed: "alive t (view (s2\<lparr>clk := c, ttl := set_expiry k x (ttl s2)\<rparr>)) = K(k \<mapsto> (Str v, Some x))" if "t < x" for x c
  proof -
    have "map_of (db s2) k \<noteq> None" by (simp add: s2_def)
    from server_wf_set_expiry(2) [OF s2(1) this, of x] have "view (s2\<lparr>clk := c, ttl := set_expiry k x (ttl s2)\<rparr>) =
        ((fst (view s1))(k \<mapsto> Str v), (snd (view s1))(k \<mapsto> x))"
      using s2(2) by (simp add: view_def)
    with that s1(2) show ?thesis by (simp add: alive_upd)
  qed
  show ?thesis
  proof (cases "set_options words \<lparr>nx = False, xx = False, expire = None\<rparr>")
    case (Inl f)
    then show ?thesis by (simp add: meets_def eq ws)
  next
    case (Inr parsed)
    show ?thesis
    proof (cases parsed)
      case (Inl err)
      show ?thesis unfolding eq spec_set_def Inr ws list.case Inl sum.case bind_res.simps by (simp add: meets_def K)
    next
      case opts: (Inr opts)
      then have ms: "expire opts = None \<or> (\<exists>ms > 0. expire opts = Some ms)"
        using set_options_expire [of words _ opts] Inr by fastforce
      show ?thesis
      proof (cases "nx opts \<and> K k \<noteq> None \<or> xx opts \<and> K k = None")
        case True
        then show ?thesis unfolding eq spec_set_def Inr ws list.case opts sum.case bind_res.simps if_P [OF True]
          using s1(2) by (simp add: meets_def)
      next
        case False
        show ?thesis unfolding eq spec_set_def Inr ws list.case opts sum.case bind_res.simps if_not_P [OF False]
          using ms plain timed by (auto simp: meets_def bind_res_Inr_iff)
      qed
    qed
  qed
qed

text \<open>The key that was touched, with another value and the deadline it had.\<close>

lemma alive_revalued:
  assumes "alive t v = K" and "snd v k = Option.bind (K k) snd"
  shows "alive t ((fst v)(k \<mapsto> e), snd v) = K(k \<mapsto> (e, Option.bind (K k) snd))"
proof -
  have "alive_at t (Some e) (Option.bind (K k) snd) = Some (e, Option.bind (K k) snd)"
  proof (cases "K k")
    case (Some a)
    then obtain e0 d where "K k = Some (e0, d)" by fastforce
    with alive_Some [of t v k e0 d] assms(1) show ?thesis by (cases d) auto
  qed simp
  with assms show ?thesis by (simp add: alive_upd_value)
qed

lemma meets_add:
  assumes "at_time t s" and K: "K = alive t (view s)"
  shows "meets t (Some (spec_add delta K k)) (incr_by k delta s)"
proof -
  define s1 where "s1 = touch k s"
  note s1 = touched [OF assms(1) s1_def K]
  have wf: "server_wf s1" using s1(1) by (simp add: at_time_def)
  have "incr_result (map_of (db s1)) k delta = incr_result (map_option fst \<circ> K) k delta"
    using s1(3) by (simp add: incr_result_def view_def)
  moreover have "alive t (view (s1\<lparr>db := db_set k v (db s1)\<rparr>)) = K(k \<mapsto> (Str v, Option.bind (K k) snd))" for v
    using server_wf_set(2) [OF wf, of k v] alive_revalued [OF s1(2,4)] by simp
  ultimately show ?thesis
    using s1(2) by (simp add: meets_def spec_add_def incr_by_eq Let_def s1_def [symmetric] split: sum.split)
qed

lemma meets_incr:
  assumes "at_time t s" and K: "K = alive t (view s)"
  shows "meets t (Some (spec_incr 1 ''incr'' K ws)) (cmd_incr (w # ws) s)"
    and "meets t (Some (spec_incr (- 1) ''decr'' K ws)) (cmd_decr (w # ws) s)"
proof -
  have "meets t (Some (spec_incr delta name K ws)) (if length ws \<noteq> 1 then Inr (wrong_arity name, s) else incr_by (ws ! 0) delta s)"
    for delta name
  proof (rule meets_unary [OF assms, of ws])
    fix k
    assume "ws = [k]"
    with meets_add [OF assms, of delta k] show
      "meets t (Some (spec_incr delta name K ws)) (if length ws \<noteq> 1 then Inr (wrong_arity name, s) else incr_by (ws ! 0) delta s)"
      by (simp add: spec_incr_def)
  qed (simp add: meets_def spec_incr_def K)
  from this [of 1 "''incr''"] this [of "- 1" "''decr''"] show
    "meets t (Some (spec_incr 1 ''incr'' K ws)) (cmd_incr (w # ws) s)"
    "meets t (Some (spec_incr (- 1) ''decr'' K ws)) (cmd_decr (w # ws) s)"
    by (auto simp: cmd_incr_def cmd_decr_def split: if_splits)
qed

text \<open>Commands of two words.\<close>

lemma two_words: "length ws = 2 \<Longrightarrow> ws = [ws ! 0, ws ! 1]"
  by (auto simp: length_Suc_conv eval_nat_numeral)

lemma not_two_words: "length ws \<noteq> 2 \<Longrightarrow> (case ws of [a, b] \<Rightarrow> f a b | _ \<Rightarrow> g) = g"
  by (auto split: list.split)

lemma meets_incrby:
  assumes "at_time t s" and K: "K = alive t (view s)"
  shows "meets t (Some (spec_incrby K ws)) (cmd_incrby (w # ws) s)"
proof (cases "length ws = 2")
  case True
  then obtain k d where ws: "ws = [k, d]" using two_words by blast
  show ?thesis
  proof (cases "parse_i64 d")
    case None
    with ws show ?thesis by (simp add: meets_def cmd_incrby_def spec_incrby_def K)
  next
    case (Some delta)
    with ws meets_add [OF assms, of delta k] show ?thesis by (simp add: cmd_incrby_def spec_incrby_def)
  qed
next
  case False
  with not_two_words [OF False] show ?thesis by (simp add: meets_def cmd_incrby_def spec_incrby_def K)
qed

lemma del_loop_K:
  "at_time t s \<Longrightarrow> K = alive t (view s) \<Longrightarrow> del_loop keys n s = (n', s') \<Longrightarrow>
     n' = n + int (card (set keys \<inter> dom K)) \<and> alive t (view s') = K |` (- set keys)"
proof (induction keys arbitrary: n s K)
  case (Cons k keys)
  define s1 where "s1 = touch k s"
  note s1 = touched [OF Cons.prems(1) s1_def Cons.prems(2)]
  have wf: "server_wf s1" using s1(1) by (simp add: at_time_def)
  note loop = Cons.prems(3) [unfolded del_loop_Cons, folded s1_def]
  show ?case
  proof (cases "K k")
    case None
    then have "del_loop keys n s1 = (n', s')" using loop s1(3) by (simp add: view_def)
    from Cons.IH [OF s1(1) s1(2) [symmetric] this] None show ?thesis
      by (auto simp: restrict_map_def fun_eq_iff domIff insert_absorb Int_insert_left)
  next
    case (Some e)
    define s2 where "s2 = delete_now k s1"
    have s2: "at_time t s2" "K(k := None) = alive t (view s2)"
      using server_wf_delete_now [OF wf, of k] s1(1,2) alive_vdel [of t "[k]" "view s1"]
      by (simp_all add: s2_def at_time_def delete_now_def)
    have "del_loop keys (n + 1) s2 = (n', s')" using loop s1(3) Some by (simp add: view_def s2_def)
    from Cons.IH [OF s2 this] have IH: "n' = n + 1 + int (card (set keys \<inter> dom (K(k := None))))"
      "alive t (view s') = (K(k := None)) |` (- set keys)" by blast+
    have "set (k # keys) \<inter> dom K = insert k (set keys \<inter> dom (K(k := None)))" using Some by auto
    then have "card (set (k # keys) \<inter> dom K) = Suc (card (set keys \<inter> dom (K(k := None))))"
      by (simp add: card_insert_if)
    moreover have "(K(k := None)) |` (- set keys) = K |` (- set (k # keys))"
      by (auto simp: restrict_map_def fun_eq_iff)
    ultimately show ?thesis using IH by (simp only: of_nat_Suc) simp
  qed
qed simp

lemma meets_del:
  assumes "at_time t s" and K: "K = alive t (view s)"
  shows "meets t (Some (spec_del K ws)) (cmd_del (w # ws) s)"
proof (cases "ws = []")
  case False
  obtain n s' where "del_loop ws 0 s = (n, s')" by fastforce
  with del_loop_K [OF assms this] False show ?thesis
    by (simp add: meets_def cmd_del_def spec_del_def Suc_le_eq)
qed (simp add: meets_def cmd_del_def spec_del_def K)

text \<open>A deadline set, or a key deleted, on the key that was touched and found.\<close>

lemma alive_rearmed:
  assumes "at_time t s1" and "alive t (view s1) = K" and "fst (view s1) k = map_option fst (K k)" and "K k = Some (e, d)"
  shows "t < x \<Longrightarrow> alive t (view (s1\<lparr>clk := c, ttl := set_expiry k x (ttl s1)\<rparr>)) = K(k \<mapsto> (e, Some x))"
    and "alive t (view (delete_now k (s1\<lparr>clk := c\<rparr>))) = K(k := None)"
proof -
  have wf: "server_wf s1" using assms(1) by (simp add: at_time_def)
  have k: "fst (view s1) k = Some e" using assms(3,4) by simp
  then have "map_of (db s1) k \<noteq> None" by (simp add: view_def)
  from server_wf_set_expiry(2) [OF wf this, of x]
  have "view (s1\<lparr>clk := c, ttl := set_expiry k x (ttl s1)\<rparr>) = (fst (view s1), (snd (view s1))(k \<mapsto> x))"
    by (simp add: view_def)
  with k assms(2) show "t < x \<Longrightarrow> alive t (view (s1\<lparr>clk := c, ttl := set_expiry k x (ttl s1)\<rparr>)) = K(k \<mapsto> (e, Some x))"
    by (simp add: alive_upd_deadline)
  have "server_wf (s1\<lparr>clk := c\<rparr>)" "view (s1\<lparr>clk := c\<rparr>) = view s1" using wf by simp_all
  with server_wf_delete_now(2) [of "s1\<lparr>clk := c\<rparr>" k] assms(2) show "alive t (view (delete_now k (s1\<lparr>clk := c\<rparr>))) = K(k := None)"
    by (simp add: alive_vdel)
qed

lemma meets_expire:
  assumes "at_time t s" and K: "K = alive t (view s)" and "0 < u"
  shows "meets t (spec_expire t u name K ws) (expire_generic name (w # ws) u s)"
proof (cases "length ws = 2")
  case False
  with not_two_words [OF False] show ?thesis by (simp add: meets_def expire_generic_def spec_expire_def K)
next
  case True
  then obtain k a where ws: "ws = [k, a]" using two_words by blast
  define s1 where "s1 = touch k s"
  note s1 = touched [OF assms(1) s1_def K]
  have clk: "clk s1 0 = t" using s1(1) by (simp add: at_time_def)
  show ?thesis
  proof (cases "parse_i64 a")
    case None
    with ws show ?thesis by (simp add: meets_def expire_generic_def spec_expire_def K)
  next
    case (Some n)
    have eq: "expire_generic name (w # ws) u s =
        (if K k = None then Inr (resp_integer 0, s1)
         else if n \<le> 0 then Inr (resp_integer 1, delete_now k (s1\<lparr>clk := clk s1\<rparr>))
         else bind_res (checked_i64 (n * u)) (\<lambda>ms. bind_res (checked_i64 (t + ms)) (\<lambda>at.
           Inr (resp_integer 1, s1\<lparr>clk := \<lambda>i. clk s1 (Suc i), ttl := set_expiry k at (ttl s1)\<rparr>))))"
      using Some by (simp add: expire_generic_def ws s1_def [symmetric] Let_def now_ms_eq clk db_exists_K [OF s1(3)])
    have out: "spec_expire t u name K ws =
        (if K k = None \<or> n \<le> 0 \<or> in_i64 (n * u) \<and> in_i64 (t + n * u) then Some (spec_deadline t K k (t + n * u)) else None)"
      using Some by (simp add: spec_expire_def ws)
    show ?thesis
    proof (cases "K k")
      case None
      then show ?thesis unfolding eq out using s1(2) by (simp add: meets_def spec_deadline_def)
    next
      case e: (Some e)
      then obtain e0 d where e0: "K k = Some (e0, d)" by (cases e) auto
      note upd = alive_rearmed [OF s1(1-3) e0]
      show ?thesis
      proof (cases "n \<le> 0")
        case True
        then have "t + n * u \<le> t" using assms(3) by (simp add: mult_nonpos_nonneg)
        with True e0 upd(2) [of "clk s1"] show ?thesis unfolding eq out by (simp add: meets_def spec_deadline_def)
      next
        case False
        then have "0 < n * u" using assms(3) by simp
        then have "\<not> t + n * u \<le> t" by simp
        with False e0 upd(1) show ?thesis unfolding eq out by (auto simp: meets_def spec_deadline_def bind_res_Inr_iff)
      qed
    qed
  qed
qed

lemma meets_pexpireat:
  assumes "at_time t s" and K: "K = alive t (view s)"
  shows "meets t (Some (spec_pexpireat t K ws)) (cmd_pexpireat (w # ws) s)"
proof (cases "length ws = 2")
  case False
  with not_two_words [OF False] show ?thesis by (simp add: meets_def cmd_pexpireat_def spec_pexpireat_def K)
next
  case True
  then obtain k a where ws: "ws = [k, a]" using two_words by blast
  define s1 where "s1 = touch k s"
  note s1 = touched [OF assms(1) s1_def K]
  have clk: "clk s1 0 = t" using s1(1) by (simp add: at_time_def)
  show ?thesis
  proof (cases "parse_i64 a")
    case None
    with ws show ?thesis by (simp add: meets_def cmd_pexpireat_def spec_pexpireat_def K)
  next
    case (Some x)
    let ?c = "\<lambda>i. clk s1 (Suc i)"
    have eq: "cmd_pexpireat (w # ws) s =
        (if K k = None then Inr (resp_integer 0, s1)
         else if x \<le> t then Inr (resp_integer 1, delete_now k (s1\<lparr>clk := ?c\<rparr>))
         else Inr (resp_integer 1, s1\<lparr>clk := ?c, ttl := set_expiry k x (ttl s1)\<rparr>))"
      using Some by (simp add: cmd_pexpireat_def ws s1_def [symmetric] Let_def now_ms_eq clk db_exists_K [OF s1(3)])
    have out: "spec_pexpireat t K ws = spec_deadline t K k x" using Some by (simp add: spec_pexpireat_def ws)
    show ?thesis
    proof (cases "K k")
      case None
      then show ?thesis unfolding eq out using s1(2) by (simp add: meets_def spec_deadline_def)
    next
      case e: (Some e)
      then obtain e0 d where e0: "K k = Some (e0, d)" by (cases e) auto
      from alive_rearmed [OF s1(1-3) e0] e0 show ?thesis unfolding eq out by (simp add: meets_def spec_deadline_def)
    qed
  qed
qed

lemma meets_persist:
  assumes "at_time t s" and K: "K = alive t (view s)"
  shows "meets t (Some (spec_persist K ws)) (cmd_persist (w # ws) s)"
proof (rule meets_unary [OF assms, of ws])
  fix k s1
  assume ws: "ws = [k]" "touch k s = s1" and s1: "at_time t s1" "alive t (view s1) = K"
    "fst (view s1) k = map_option fst (K k)" "snd (view s1) k = Option.bind (K k) snd"
  have wf: "server_wf s1" using s1(1) by (simp add: at_time_def)
  have "alive t (view (s1\<lparr>ttl := persist k (ttl s1)\<rparr>)) = K(k \<mapsto> (e, None))" if "K k = Some (e, d)" for e d
    using server_wf_persist(2) [OF wf, of k] s1(2,3) that by (simp add: alive_upd_deadline)
  with ws s1(2) show "meets t (Some (spec_persist K ws)) (cmd_persist (w # ws) s)"
    by (simp add: meets_def cmd_persist_def spec_persist_def db_exists_K [OF s1(3)] expiry_at_K [OF s1(4)] split: option.split prod.split)
qed (simp add: meets_def cmd_persist_def spec_persist_def K)

lemma meets_push:
  assumes "at_time t s" and K: "K = alive t (view s)"
  shows "meets t (Some (spec_push left name K ws)) (push_generic name (w # ws) left s)"
proof (cases "\<exists>k v vs. ws = k # v # vs")
  case False
  then have "(case ws of k # v # vs \<Rightarrow> f k v vs | _ \<Rightarrow> g) = g" "length ws < 2" for f g
    by (cases ws; cases "tl ws"; auto)+
  then show ?thesis by (simp add: meets_def push_generic_def spec_push_def K)
next
  case True
  then obtain k v vs where ws: "ws = k # v # vs" by blast
  define s1 where "s1 = touch k s"
  note s1 = touched [OF assms(1) s1_def K]
  have wf: "server_wf s" using assms(1) by (simp add: at_time_def)
  have shape: "3 \<le> length (w # ws)" "k = (w # ws) ! 1" "drop 2 (w # ws) = v # vs" by (simp_all add: ws)
  obtain db' where eq: "push_generic name (w # ws) left s =
      (if db_type (db s1) k = kString then Inr (wrongtype, s1)
       else Inr (resp_integer (int (length (v # vs) + length (list_at (db s1) k))), s1\<lparr>db := db'\<rparr>))"
    and v: "db_type (db s1) k \<noteq> kString \<Longrightarrow> view (s1\<lparr>db := db'\<rparr>) =
         ((fst (view s1))(k \<mapsto> Lst (pushed left (v # vs) (list_at (db s1) k))), snd (view s1))"
    using push_generic_ok [OF wf shape(1,2) s1_def, of name left] unfolding shape(3) by blast
  have out: "spec_push left name K ws =
      (case K k of
         Some (Str _, _) \<Rightarrow> (wrongtype, K)
       | Some (Lst l, d) \<Rightarrow> (resp_integer (int (length (v # vs) + length l)), K(k \<mapsto> (Lst (pushed left (v # vs) l), d)))
       | None \<Rightarrow> (resp_integer (int (length (v # vs))), K(k \<mapsto> (Lst (pushed left (v # vs) []), None))))"
    by (simp add: spec_push_def ws)
  have type: "db_type (db s1) k \<noteq> kString \<longleftrightarrow> (\<forall>a d. K k \<noteq> Some (Str a, d))"
    by (auto simp: db_type_K [OF s1(3)] split: option.split entry.split)
  show ?thesis
  proof (cases "db_type (db s1) k = kString")
    case True
    then obtain a d where "K k = Some (Str a, d)" using type by auto
    with True s1(2) show ?thesis unfolding eq out by (simp add: meets_def del: db_type_simps)
  next
    case False
    from alive_revalued [OF s1(2,4), of "Lst (pushed left (v # vs) (list_at (db s1) k))", folded v [OF False]]
    have after: "alive t (view (s1\<lparr>db := db'\<rparr>)) = K(k \<mapsto> (Lst (pushed left (v # vs) (list_at (db s1) k)), Option.bind (K k) snd))" .
    show ?thesis
      unfolding eq out if_not_P [OF False] using False [unfolded type] after list_at_K [OF s1(3)]
      by (cases "K k") (auto simp: meets_def split: entry.split)
  qed
qed

lemma meets_pop:
  assumes "at_time t s" and K: "K = alive t (view s)"
  shows "meets t (Some (spec_pop left name K ws)) (pop_generic name (w # ws) left s)"
proof (rule meets_unary [OF assms, of ws])
  fix k s1
  assume ws: "ws = [k]" "touch k s = s1" and s1: "at_time t s1" "alive t (view s1) = K"
    "fst (view s1) k = map_option fst (K k)" "snd (view s1) k = Option.bind (K k) snd"
  have wf: "server_wf s" "server_wf s1" using assms(1) s1(1) by (simp_all add: at_time_def)
  let ?l = "list_at (db s1) k"
  have eq: "pop_generic name (w # ws) left s =
     (if db_type (db s1) k = kString then Inr (wrongtype, s1)
      else if ?l = [] then Inr (resp_null_bulk, s1)
      else Inr (resp_bulk (popped_elem left ?l), keep_list k (popped left ?l) s1))"
    using ws(1) by (intro pop_generic_ok [OF wf(1) _ _ ws(2) [symmetric] refl]) simp_all
  have after: "alive t (view (keep_list k l s1)) = K(k := if l = [] then None else Some (Lst l, Option.bind (K k) snd))" for l
    using keep_list_wf(2) [OF wf(2), of k l] alive_revalued [OF s1(2,4)] alive_vdel [of t "[k]" "view s1"] s1(2) by simp
  have ne: "l \<noteq> []" if "K k = Some (Lst l, d)" for l d
    using db_wf_lookup [OF server_wfD(1) [OF wf(2)], of k "Lst l"] s1(3) that by (simp add: view_def entry_ok_def)
  show "meets t (Some (spec_pop left name K ws)) (pop_generic name (w # ws) left s)"
  proof (cases "K k")
    case None
    then show ?thesis unfolding eq
      using s1(2) by (simp add: meets_def spec_pop_def ws db_type_K [OF s1(3)] list_at_K [OF s1(3)] del: db_type_simps)
  next
    case (Some a)
    then obtain e d where e: "K k = Some (e, d)" by (cases a) auto
    show ?thesis
    proof (cases e)
      case (Str v)
      with e s1(2) show ?thesis unfolding eq
        by (simp add: meets_def spec_pop_def ws db_type_K [OF s1(3)] del: db_type_simps)
    next
      case (Lst l)
      with e ne after show ?thesis unfolding eq
        by (simp add: meets_def spec_pop_def ws db_type_K [OF s1(3)] list_at_K [OF s1(3)] del: db_type_simps)
    qed
  qed
qed (simp add: meets_def pop_generic_def spec_pop_def K)

lemma meets_flushall:
  assumes "at_time t s" and K: "K = alive t (view s)"
  shows "meets t (Some (spec_flushall K ws)) (cmd_flushall (w # ws) s)"
proof -
  have wf: "server_wf s" using assms(1) by (simp add: at_time_def)
  have "alive t (Map.empty, Map.empty) = Map.empty" by (simp add: alive_def)
  with flushall_wf(2) [OF wf] show ?thesis
    by (simp add: meets_def cmd_flushall_def spec_flushall_def Let_def K db_clear_def)
qed

section \<open>The dispatcher\<close>

definition specified :: "string list" where
  "specified = [''GET'', ''TYPE'', ''EXISTS'', ''LLEN'', ''LRANGE'', ''TTL'', ''PTTL'', ''SET'', ''INCR'', ''DECR'', ''INCRBY'',
     ''DEL'', ''EXPIRE'', ''PEXPIRE'', ''PEXPIREAT'', ''PERSIST'', ''LPUSH'', ''RPUSH'', ''LPOP'', ''RPOP'', ''FLUSHALL'']"

lemmas meets_handlers = meets_get meets_type meets_exists meets_llen meets_lrange meets_ttl meets_set meets_incr meets_incrby
  meets_del meets_expire meets_pexpireat meets_persist meets_push meets_pop meets_flushall

lemma kTable_meets:
  assumes "at_time t s" and "K = alive t (view s)" and "map_of kTable name = Some h" and "name \<in> set specified"
  shows "meets t (spec t name K ws) (h (w # ws) s)"
  using map_of_SomeD [OF assms(3)] assms(4) unfolding kTable_def list.set
  by (elim insertE emptyE Pair_inject)
    (simp_all add: specified_def spec_def cmd_ttl_def cmd_pttl_def cmd_expire_def cmd_pexpire_def cmd_lpush_def cmd_rpush_def
      cmd_lpop_def cmd_rpop_def meets_handlers [OF assms(1,2)])



section \<open>Listing\<close>

lemma check_key_K:
  assumes "at_time t s" and "K = alive t (view s)" and "fst (view s) k \<noteq> None" and "check_key k s = (dead, s1)"
  shows "dead \<longleftrightarrow> K k = None" and "at_time t s1" and "alive t (view s1) = K"
    and "k' \<noteq> k \<Longrightarrow> fst (view s1) k' = fst (view s) k'"
proof -
  have s1: "s1 = touch k s" and wf: "server_wf s" and clk: "clk s 0 = t"
    using assms(1,4) by (simp_all add: touch_def at_time_def)
  show "dead \<longleftrightarrow> K k = None"
    using assms(3,4) by (auto simp: check_key_cases assms(2) expired_key_def clk alive_def alive_at_def view_def split: option.splits if_splits)
  show "at_time t s1" "alive t (view s1) = K" using touched(1,2) [OF assms(1) s1 assms(2)] by simp_all
  show "k' \<noteq> k \<Longrightarrow> fst (view s1) k' = fst (view s) k'"
    using touch_view [OF wf, of k] by (simp add: s1 vdel_def)
qed

lemma keys_loop_K:
  "at_time t s \<Longrightarrow> K = alive t (view s) \<Longrightarrow> distinct keys \<Longrightarrow> (\<And>k. k \<in> set keys \<Longrightarrow> fst (view s) k \<noteq> None) \<Longrightarrow>
   keys_loop keys es s = (es', s') \<Longrightarrow>
     es' = es @ map resp_bulk (filter (\<lambda>k. K k \<noteq> None) keys) \<and> alive t (view s') = K"
proof (induction keys arbitrary: es s)
  case (Cons k keys)
  obtain dead s1 where c: "check_key k s = (dead, s1)" by fastforce
  note s1 = check_key_K [OF Cons.prems(1,2) _ c]
  have k: "fst (view s) k \<noteq> None" using Cons.prems(4) by simp
  have rest: "fst (view s1) k' \<noteq> None" if "k' \<in> set keys" for k'
  proof -
    have "k' \<noteq> k" using Cons.prems(3) that by auto
    then show ?thesis using s1(4) [OF k] Cons.prems(4) [of k'] that by simp
  qed
  have loop: "keys_loop keys (if K k = None then es else es @ [resp_bulk k]) s1 = (es', s')"
    using Cons.prems(5) s1(1) [OF k] by (simp add: c)
  from Cons.IH [OF s1(2) [OF k] s1(3) [OF k, symmetric] _ rest loop] Cons.prems(3) show ?case by auto
qed simp

text \<open>
  C22. KEYS lists exactly the keys that are alive and match the pattern, each once, and leaves what is
  alive as it was. The order is that of the hash table.
\<close>

theorem keys_lists_the_living:
  assumes "server_wf s" and "\<forall>i. clk s i = t" and "upper w = ''KEYS''"
    and "execute [w, pat] s = Inr (r, s')" and "\<not> persistence_failed s'"
  shows "\<exists>ks. r = resp_array (map resp_bulk ks) \<and> distinct ks \<and>
     set ks = {k \<in> dom (alive t (view s)). glob_match pat k} \<and> alive t (view s') = alive t (view s)"
proof -
  have at: "at_time t s" using assms(1,2) by (simp add: at_time_def)
  have ok: "\<not> persistence_failed s" using assms(4,5) by (auto simp: execute_def)
  have h: "map_of kTable ''KEYS'' = Some cmd_keys" by (simp add: kTable_def)
  obtain s1 where run: "cmd_keys [w, pat] s = Inr (r, s1)" "view s' = view s1"
    using assms(3-5) execute_handler [OF ok, of "[w, pat]" "''KEYS''" cmd_keys] h
    by (auto simp: Let_def bind_res_Inr_iff split: if_splits)
  let ?keys = "keys_matching_glob (db s) pat" and ?K = "alive t (view s)"
  obtain es where loop: "keys_loop ?keys [] s = (es, s1)" and r: "r = resp_array es"
    using run(1) by (auto simp: cmd_keys_def split: prod.splits)
  have keys: "distinct ?keys" "set ?keys = {k. fst (view s) k \<noteq> None \<and> glob_match pat k}"
    using keys_matching_glob_distinct [OF server_wfD(1) [OF assms(1)]]
    by (auto simp: keys_matching_glob_def view_def map_of_eq_None_iff)
  then have dom: "fst (view s) k \<noteq> None" if "k \<in> set ?keys" for k using that by simp
  have living: "fst (view s) k \<noteq> None" if "?K k \<noteq> None" for k using that by (cases "fst (view s) k") (auto simp: alive_def)
  from keys_loop_K [OF at refl keys(1) dom loop] have "es = map resp_bulk (filter (\<lambda>k. ?K k \<noteq> None) ?keys)"
    "alive t (view s1) = ?K" by simp_all
  with r run(2) keys living show ?thesis
    by (intro exI [of _ "filter (\<lambda>k. ?K k \<noteq> None) ?keys"]) auto
qed

theorem keys_lists_the_living_witness:
  "\<exists>s' ks. execute [''keys'', ''a*''] ((CommandDispatcher (frozen_at 5))\<lparr>db := [(''ab'', Str ''1''), (''b'', Str ''2'')]\<rparr>) =
     Inr (resp_array (map resp_bulk ks), s') \<and> set ks = {''ab''}"
proof -
  let ?s = "(CommandDispatcher (frozen_at 5))\<lparr>db := [(''ab'', Str ''1''), (''b'', Str ''2'')]\<rparr>"
  have start: "server_wf ?s" "\<forall>i. clk ?s i = 5" "upper ''keys'' = ''KEYS''"
    by (simp add: server_wf_def CommandDispatcher_def ExpiryManager_def expiry_at_def expiry_wf_def db_wf_iff entry_ok_def)
      (simp add: CommandDispatcher_def frozen_at_def, code_simp)
  have "glob_ref ''a*'' 0 ''ab''" "\<not> glob_ref ''a*'' 0 ''b''" by code_simp+
  then have glob: "glob_match ''a*'' ''ab''" "\<not> glob_match ''a*'' ''b''" by (simp_all add: glob_match_ref)
  then have "cmd_keys [''keys'', ''a*''] ?s = Inr (resp_array [resp_bulk ''ab''], ?s)"
    by (simp add: cmd_keys_def keys_matching_glob_def check_key_cases expired_key_def CommandDispatcher_def ExpiryManager_def
        expiry_at_def)
  then have run: "execute [''keys'', ''a*''] ?s = Inr (resp_array [resp_bulk ''ab''], ?s)" "\<not> persistence_failed ?s"
    using execute_handler [of ?s "[''keys'', ''a*'']" "''KEYS''" cmd_keys] start(3)
    by (simp_all add: CommandDispatcher_def kTable_def Let_def)
  have "alive 5 (view ?s) = [''ab'' \<mapsto> (Str ''1'', None), ''b'' \<mapsto> (Str ''2'', None)]"
    by (simp add: fun_eq_iff alive_def view_def CommandDispatcher_def ExpiryManager_def expiry_at_def)
  with glob have "{k \<in> dom (alive 5 (view ?s)). glob_match ''a*'' k} = {''ab''}" by auto
  with keys_lists_the_living [OF start run] run(1) show ?thesis by metis
qed

end
