(* ===== verification/Baseline.thy ===== *)
theory Baseline
  imports Server
begin

text \<open>
  Snapshot and log together, the boot order of \<^verbatim>\<open>src/src/main.cpp\<close>: the snapshot is the baseline, the log is
  everything that happened after it. The lemmas join the file format, the log format and the redo
  records of the commands.
\<close>

text \<open>The disk: a snapshot of an earlier state, and the log since then with some bytes of one more record.\<close>

definition snapshot_disk :: "string \<Rightarrow> server \<Rightarrow> command \<Rightarrow> disk \<Rightarrow> bool" where
  "snapshot_disk bytes s cmd d \<longleftrightarrow>
     dir_ok d \<and> snapshot_file d = Some bytes \<and> list_all (\<lambda>r. \<not> failed r) (log_io d) \<and> cmd_fits kReplayFrameCap cmd \<and>
     (\<exists>w n. wal s = Some w \<and> n < length (encode cmd) \<and> log_file d = Some (contents w @ take n (encode cmd)))"

lemma load_baseline_snapshot:
  assumes "server_wf s" and "snapshot_fits (db s) (ttl s)" and "snapshot_file d = Some (snapshot_bytes (db s) (ttl s))"
  shows "\<exists>s1. load_baseline conf d (CommandDispatcher c) = Inr s1 \<and> server_wf s1 \<and> view s1 = view s \<and>
     wal s1 = None \<and> \<not> persistence_failed s1 \<and> clk s1 = c"
proof -
  have wf: "db_wf (db s)" "\<And>k. expiry_at (ttl s) k \<noteq> None \<Longrightarrow> map_of (db s) k \<noteq> None"
    using assms(1) by (auto simp: server_wf_def)
  obtain db' e' where l: "\<And>p. load_snapshot p (Some (snapshot_bytes (db s) (ttl s))) ([], ExpiryManager) = (None, db', e')"
    "db_wf db'" "map_of db' = map_of (db s)" "expiry_wf e'" "expiry_at e' = expiry_at (ttl s)"
    using load_saved [OF wf assms(2)] by metis
  let ?s = "(CommandDispatcher c)\<lparr>db := db', ttl := e'\<rparr>"
  have "load_baseline conf d (CommandDispatcher c) = Inr ?s"
    using l(1) [of "cfg_snapshot_path conf"] by (simp add: load_baseline_def assms(3)) (simp add: CommandDispatcher_def)
  moreover have "server_wf ?s" "view ?s = view s"
    using wf(2) l(2-5) by (simp_all add: server_wf_def view_def)
  ultimately show ?thesis by (intro exI [of _ ?s]) (simp add: CommandDispatcher_def)
qed



end
