(* ===== verification/Frame.thy ===== *)
theory Frame
  imports Recovery
begin

text \<open>
  What a command may touch. Apart from keys whose deadline has passed, which any access may evict, a
  command changes no key it does not name, and one that answers with an error changes nothing.
\<close>

definition vat :: "string \<Rightarrow> view \<Rightarrow> entry option \<times> int option" where
  "vat k v = (fst v k, snd v k)"

definition framed :: "string set \<Rightarrow> server \<Rightarrow> string \<Rightarrow> server \<Rightarrow> bool" where
  "framed K s r s1 \<longleftrightarrow>
     (\<exists>ks mid. evicted s ks mid \<and> (hd r = CHR ''-'' \<longrightarrow> view s1 = view mid) \<and>
        (\<forall>k. k \<notin> K \<longrightarrow> vat k (view s1) = vat k (view mid)))"

lemma framed_evicted: "evicted s ks s1 \<Longrightarrow> framed K s r s1"
  unfolding framed_def by blast

lemma framed_same: "server_wf s \<Longrightarrow> framed K s r s"
  by (rule framed_evicted [OF evicted_refl])

lemma framed_touch:
  assumes "server_wf s" and "k \<in> K" and "hd r = CHR ''-'' \<Longrightarrow> view s1 = view (touch k s)"
    and "\<And>k'. k' \<noteq> k \<Longrightarrow> vat k' (view s1) = vat k' (view (touch k s))"
  shows "framed K s r s1"
proof -
  obtain ks where "evicted s ks (touch k s)" using evicted_touch [OF assms(1)] by blast
  moreover have "vat k' (view s1) = vat k' (view (touch k s))" if "k' \<notin> K" for k'
    using that assms(2,4) by metis
  ultimately show ?thesis
    unfolding framed_def using assms(3) by (intro exI [of _ ks] exI [of _ "touch k s"]) simp
qed

lemma framed_touched: "server_wf s \<Longrightarrow> framed K s r (touch k s)"
  using evicted_touch framed_evicted by blast

lemma vat_vdel: "k \<notin> set ks \<Longrightarrow> vat k (vdel ks v) = vat k v"
  by (simp add: vat_def vdel_def)

lemma framed_incr_by:
  assumes wf: "server_wf s" and k: "k \<in> K" and run: "incr_by k d s = Inr (r, s1)"
  shows "framed K s r s1"
proof -
  define mid where "mid = touch k s"
  have mid: "server_wf mid" using wf by (simp add: mid_def)
  note eq = run [unfolded incr_by_eq Let_def, folded mid_def]
  show ?thesis
  proof (cases "incr_result (map_of (db mid)) k d")
    case (Inl err)
    with eq have "s1 = touch k s" by (simp add: mid_def)
    with wf show ?thesis by (simp only: framed_touched)
  next
    case (Inr n)
    with eq have "r = resp_integer n" "view s1 = ((fst (view mid))(k \<mapsto> Str (to_string n)), snd (view mid))"
      using server_wf_set(2) [OF mid, of k "to_string n"] by auto
    then show ?thesis
      by (intro framed_touch [OF wf k]) (simp_all add: vat_def mid_def)
  qed
qed

lemma framed_del: "server_wf s \<Longrightarrow> cmd_del cmd s = Inr (r, s1) \<Longrightarrow> framed (set (drop 1 cmd)) s r s1"
proof (cases "length cmd < 2")
  case False
  assume wf: "server_wf s" and run: "cmd_del cmd s = Inr (r, s1)"
  obtain n where n: "del_loop (drop 1 cmd) 0 s = (n, s1)" "r = resp_integer n"
    using run False by (auto simp: cmd_del_def split: prod.splits)
  with del_loop_effect [OF wf n(1)] have "view s1 = vdel (drop 1 cmd) (view s)" by blast
  with n(2) evicted_refl [OF wf] show ?thesis
    unfolding framed_def by (intro exI [of _ "[]"] exI [of _ s]) (simp add: vat_vdel)
qed (auto simp: cmd_del_def framed_same)

lemma framed_rearmed:
  assumes wf: "server_wf s" and "rearmed k s r s1" and k: "k \<in> K"
  shows "framed K s r s1"
  using assms(2) refl
proof (cases rule: rearmed_cases)
  case err
  with wf show ?thesis by (simp add: framed_same)
next
  case absent
  with wf show ?thesis by (simp add: framed_touched)
next
  case (past c)
  with server_wf_delete_now(2) [of "(touch k s)\<lparr>clk := c\<rparr>" k] wf show ?thesis
    by (intro framed_touch [OF wf k]) (simp_all add: vat_vdel)
next
  case (armed c at)
  with server_wf_set_expiry(2) [of "(touch k s)\<lparr>clk := c\<rparr>" k at] wf show ?thesis
    by (intro framed_touch [OF wf k]) (simp_all add: vat_def)
qed

text \<open>The key of a command, as a set: none when the word is missing.\<close>

definition first_key :: "command \<Rightarrow> string set" where
  "first_key cmd = set (take 1 (drop 1 cmd))"

lemma first_key: "2 \<le> length cmd \<Longrightarrow> k = cmd ! 1 \<Longrightarrow> k \<in> first_key cmd"
  by (cases cmd rule: remdups_adj.cases) (simp_all add: first_key_def)

lemma framed_deadlines:
  assumes wf: "server_wf s"
  shows "expire_generic name cmd u s = Inr (r, s1) \<Longrightarrow> framed (first_key cmd) s r s1"
    and "cmd_pexpireat cmd s = Inr (r, s1) \<Longrightarrow> framed (first_key cmd) s r s1"
proof -
  show "framed (first_key cmd) s r s1" if run: "expire_generic name cmd u s = Inr (r, s1)"
  proof (cases "length cmd = 3")
    case True
    then show ?thesis by (intro framed_rearmed [OF wf expire_generic_rearmed [OF run refl]] first_key) simp_all
  qed (use run wf in \<open>auto simp: expire_generic_def framed_same\<close>)
  show "framed (first_key cmd) s r s1" if run: "cmd_pexpireat cmd s = Inr (r, s1)"
  proof (cases "length cmd = 3")
    case True
    then show ?thesis by (intro framed_rearmed [OF wf pexpireat_rearmed [OF run refl]] first_key) simp_all
  qed (use run wf in \<open>auto simp: cmd_pexpireat_def framed_same\<close>)
qed

lemma framed_incrs:
  assumes "server_wf s"
  shows "cmd_incr cmd s = Inr (r, s1) \<Longrightarrow> framed (first_key cmd) s r s1"
    and "cmd_decr cmd s = Inr (r, s1) \<Longrightarrow> framed (first_key cmd) s r s1"
    and "cmd_incrby cmd s = Inr (r, s1) \<Longrightarrow> framed (first_key cmd) s r s1"
  using framed_incr_by [OF assms first_key [of cmd, OF _ refl]] framed_same [OF assms]
  by (auto simp: cmd_incr_def cmd_decr_def cmd_incrby_def split: if_splits option.splits)

lemma framed_set:
  assumes wf: "server_wf s" and run: "cmd_set cmd s = Inr (r, s1)"
  shows "framed (first_key cmd) s r s1"
proof (cases "length cmd < 3")
  case True
  with wf run show ?thesis by (auto simp: cmd_set_def framed_same)
next
  case False
  then have len: "3 \<le> length cmd" by simp
  define k where "k = cmd ! 1"
  define mid where "mid = touch k s"
  define s2 where "s2 = mid\<lparr>db := db_set k (cmd ! 2) (db mid)\<rparr>"
  have k: "k \<in> first_key cmd" using len by (intro first_key) (simp_all add: k_def)
  have s2: "server_wf s2" "view s2 = ((fst (view mid))(k \<mapsto> Str (cmd ! 2)), snd (view mid))"
    using server_wf_set [OF touch_wf [OF wf]] by (simp_all add: s2_def mid_def)
  from run len k_def mid_def s2_def show ?thesis
  proof (cases rule: cmd_set_cases)
    case err
    with wf show ?thesis by (simp add: framed_same)
  next
    case declined
    with wf show ?thesis by (simp add: mid_def framed_touched)
  next
    case plain
    with server_wf_persist [OF s2(1), of k] s2(2) show ?thesis
      by (intro framed_touch [OF wf k]) (simp_all add: vat_def mid_def)
  next
    case (timed at)
    have "map_of (db s2) k \<noteq> None" using s2(2) by (auto simp: view_def)
    with timed server_wf_set_expiry(2) [of "s2\<lparr>clk := \<lambda>i. clk s2 (Suc i)\<rparr>" k at] s2 show ?thesis
      by (intro framed_touch [OF wf k]) (simp_all add: vat_def mid_def)
  qed
qed

lemma framed_persist:
  assumes wf: "server_wf s" and run: "cmd_persist cmd s = Inr (r, s1)"
  shows "framed (first_key cmd) s r s1"
proof (cases "length cmd = 2")
  case False
  with wf run show ?thesis by (auto simp: cmd_persist_def framed_same)
next
  case True
  define k where "k = cmd ! 1"
  define mid where "mid = touch k s"
  have k: "k \<in> first_key cmd" using True by (intro first_key) (simp_all add: k_def)
  from run consider "s1 = mid" | "r = resp_integer 1" "s1 = mid\<lparr>ttl := persist k (ttl mid)\<rparr>"
    unfolding cmd_persist_def k_def [symmetric] mid_def [symmetric] Let_def using True by (auto split: if_splits)
  then show ?thesis
  proof cases
    case 1
    with wf show ?thesis by (simp add: mid_def framed_touched)
  next
    case 2
    with server_wf_persist(2) [OF touch_wf [OF wf, of k], of k] show ?thesis
      by (intro framed_touch [OF wf k]) (simp_all add: vat_def mid_def)
  qed
qed

lemma framed_push:
  assumes wf: "server_wf s" and run: "push_generic name cmd left s = Inr (r, s1)"
  shows "framed (first_key cmd) s r s1"
proof (cases "length cmd < 3")
  case True
  with wf run show ?thesis by (auto simp: push_generic_def framed_same)
next
  case False
  then have len: "3 \<le> length cmd" by simp
  define k where "k = cmd ! 1"
  define mid where "mid = touch k s"
  have k: "k \<in> first_key cmd" using len by (intro first_key) (simp_all add: k_def)
  obtain m where m: "push_generic name cmd left s =
      (if db_type (db mid) k = kString then Inr (wrongtype, mid)
       else Inr (resp_integer (int (length (drop 2 cmd) + length (list_at (db mid) k))), mid\<lparr>db := m\<rparr>))"
    "db_type (db mid) k \<noteq> kString \<Longrightarrow> view (mid\<lparr>db := m\<rparr>) =
         ((fst (view mid))(k \<mapsto> Lst (pushed left (drop 2 cmd) (list_at (db mid) k))), snd (view mid))"
    using push_generic_ok [OF wf len k_def mid_def, of name left] by blast
  show ?thesis
  proof (cases "db_type (db mid) k = kString")
    case True
    with run m(1) have "s1 = touch k s" by (simp add: mid_def)
    with wf show ?thesis by (simp only: framed_touched)
  next
    case False
    with run m(1) have "s1 = mid\<lparr>db := m\<rparr>" "hd r \<noteq> CHR ''-''" by auto
    with m(2) [OF False] show ?thesis
      by (intro framed_touch [OF wf k]) (simp_all add: vat_def mid_def)
  qed
qed

lemma framed_pop:
  assumes wf: "server_wf s" and run: "pop_generic name cmd left s = Inr (r, s1)"
  shows "framed (first_key cmd) s r s1"
proof (cases "length cmd = 2")
  case False
  with wf run show ?thesis by (auto simp: pop_generic_def framed_same)
next
  case True
  define k where "k = cmd ! 1"
  define mid where "mid = touch k s"
  define l where "l = list_at (db mid) k"
  have k: "k \<in> first_key cmd" using True by (intro first_key) (simp_all add: k_def)
  have mid: "server_wf mid" using wf by (simp add: mid_def)
  consider "s1 = touch k s" | "hd r \<noteq> CHR ''-''" "s1 = keep_list k (popped left l) mid"
    using run pop_generic_ok [OF wf True k_def mid_def l_def, of name left] mid_def by (auto split: if_splits)
  then show ?thesis
  proof cases
    case 1
    with wf show ?thesis by (simp only: framed_touched)
  next
    case 2
    with keep_list_wf(2) [OF mid, of k "popped left l"] show ?thesis
      by (intro framed_touch [OF wf k]) (simp_all add: vat_def mid_def vdel_def)
  qed
qed

lemma framed_flushall:
  assumes wf: "server_wf s" and run: "cmd_flushall cmd s = Inr (r, s1)"
  shows "framed UNIV s r s1"
proof (cases "length cmd = 1")
  case True
  with run have "r = resp_simple ''OK''" by (simp add: cmd_flushall_def Let_def)
  with evicted_refl [OF wf] show ?thesis unfolding framed_def by (intro exI [of _ "[]"] exI [of _ s]) simp
next
  case False
  with run wf show ?thesis by (auto simp: cmd_flushall_def framed_same)
qed

section \<open>Every command\<close>

text \<open>The keys a command names as targets of a change.\<close>

definition targets :: "command \<Rightarrow> string set" where
  "targets cmd =
     (if cmd = [] \<or> upper (cmd ! 0) \<in> set read_only then {}
      else if upper (cmd ! 0) = ''DEL'' then set (drop 1 cmd)
      else if upper (cmd ! 0) = ''FLUSHALL'' then UNIV
      else first_key cmd)"

lemma kTable_framed:
  assumes wf: "server_wf s" and "cmd \<noteq> []" and "map_of kTable (upper (cmd ! 0)) = Some h" and "h cmd s = Inr (r, s1)"
  shows "framed (targets cmd) s r s1"
proof (cases "upper (cmd ! 0) \<in> set read_only")
  case True
  with read_only_evicts [OF wf map_of_SomeD [OF assms(3)] True assms(4)] show ?thesis
    using framed_evicted by blast
next
  case False
  note fr = framed_deadlines [OF wf] framed_incrs [OF wf] framed_set [OF wf] framed_persist [OF wf]
    framed_push [OF wf] framed_pop [OF wf] framed_flushall [OF wf] framed_del [OF wf]
  obtain name where name: "upper (cmd ! 0) = name" by blast
  with False have t: "targets cmd = (if name = ''DEL'' then set (drop 1 cmd) else if name = ''FLUSHALL'' then UNIV else first_key cmd)"
    using assms(2) by (simp add: targets_def)
  from map_of_SomeD [OF assms(3)] assms(4) False show ?thesis
    unfolding t name kTable_def list.set
    by (elim insertE emptyE Pair_inject)
      (simp_all add: read_only_def cmd_expire_def cmd_pexpire_def cmd_lpush_def cmd_rpush_def cmd_lpop_def cmd_rpop_def fr del: One_nat_def)
qed

lemma execute_framed:
  assumes wf: "server_wf s" and run: "execute cmd s = Inr (r, s')" and ok: "\<not> persistence_failed s'"
  shows "framed (targets cmd) s r s'"
proof -
  consider "persistence_failed s \<or> cmd = [] \<or> upper (cmd ! 0) = ''SHUTDOWN'' \<or> map_of kTable (upper (cmd ! 0)) = None"
    | h where "\<not> persistence_failed s" "cmd \<noteq> []" "map_of kTable (upper (cmd ! 0)) = Some h"
    by blast
  then show ?thesis
  proof cases
    case 1
    then have "view s' = view s"
      using run by (auto simp: execute_def split: if_splits option.splits)
    with evicted_refl [OF wf] show ?thesis unfolding framed_def by metis
  next
    case 2
    from run ok obtain s1 where h: "h cmd s = Inr (r, s1)" and v: "view s' = view s1"
      unfolding execute_handler [OF 2(1,2) refl 2(3)] by (auto simp: bind_res_Inr_iff Let_def split: if_splits)
    from kTable_framed [OF wf 2(2,3) h] v show ?thesis unfolding framed_def by simp
  qed
qed

text \<open>
  C18. Commands keep to their keys. A key that a command does not name is afterwards as it was,
  value and deadline, unless a clock reading had reached its deadline, in which case it may be gone.
  A command that answers with an error, while persistence holds, changes nothing at all but for such
  evictions, its own keys included.
\<close>

theorem commands_keep_to_their_keys:
  assumes "server_wf s" and "execute cmd s = Inr (r, s')" and "\<not> persistence_failed s'"
    and "k \<notin> targets cmd \<or> hd r = CHR ''-''"
  shows "map_of (db s') k = map_of (db s) k \<and> expiry_at (ttl s') k = expiry_at (ttl s) k \<or>
     map_of (db s') k = None \<and> expiry_at (ttl s') k = None \<and>
       (\<exists>t i. expiry_at (ttl s) k = Some t \<and> t \<le> clk s i)"
proof -
  obtain ks mid where mid: "evicted s ks mid" "hd r = CHR ''-'' \<longrightarrow> view s' = view mid"
    "\<forall>k. k \<notin> targets cmd \<longrightarrow> vat k (view s') = vat k (view mid)"
    using execute_framed [OF assms(1-3)] unfolding framed_def by blast
  with assms(4) have "vat k (view s') = vat k (vdel ks (view s))"
    unfolding evicted_def by auto
  moreover have "k \<in> set ks \<Longrightarrow> \<exists>t i. expiry_at (ttl s) k = Some t \<and> t \<le> clk s i"
    using mid(1) unfolding evicted_def view_def by simp
  ultimately show ?thesis
    by (cases "k \<in> set ks") (auto simp: vat_def vdel_def view_def)
qed

theorem commands_keep_to_their_keys_witness:
  "\<exists>r s'. execute [''SET'', ''k'', ''w''] ((CommandDispatcher (frozen_at 5))\<lparr>db := [(''j'', Str ''v'')]\<rparr>) = Inr (r, s') \<and>
     map_of (db s') ''j'' = Some (Str ''v'')"
proof -
  let ?s = "(CommandDispatcher (frozen_at 5))\<lparr>db := [(''j'', Str ''v'')]\<rparr>" and ?cmd = "[''SET'', ''k'', ''w'']"
  have "map_sum id (persistence_failed \<circ> snd) (execute ?cmd ?s) = Inr False"
    by code_simp
  then obtain r s' where run: "execute ?cmd ?s = Inr (r, s')" "\<not> persistence_failed s'"
    by (cases "execute ?cmd ?s") auto
  have wf: "server_wf ?s"
    by (simp add: server_wf_def CommandDispatcher_def db_wf_def entry_ok_def)
  have "''j'' \<notin> targets ?cmd"
    by (simp add: targets_def upper_names read_only_def first_key_def)
  with commands_keep_to_their_keys [OF wf run, of "''j''"] run(1) show ?thesis
    by (auto simp: CommandDispatcher_def)
qed

end
