(* ===== verification/Shard.thy ===== *)
theory Shard
  imports Frame Server
begin

text \<open>
  The multi-threaded server, \<^verbatim>\<open>src/src/core/shard.cpp\<close>: N reactor threads over one keyspace behind one
  mutex. A state has the guarded objects, the owner of the mutex, and for every thread the parsed
  commands it has yet to serve, the replies it has queued and its stop flag. The handler and the
  tick run under the lock; parsing and socket I/O are outside of it and touch no shared state. The
  lemmas: the shared state goes through runs of the single-threaded server only, replies keep the
  order of the commands of a thread, no thread starves another for good, and no INCR is lost.
\<close>

datatype ShardStatus = kShardStopped | kShardFatalError | kShardNotImplemented

record shard =
  core :: server
  owner :: "nat option"
  inbox :: "command list list"
  outbox :: "string list list"
  stopped :: "bool list"

definition stop_all :: "shard \<Rightarrow> shard" where
  "stop_all sh = sh\<lparr>stopped := map (\<lambda>_. True) (stopped sh)\<rparr>"

text \<open>Commands parsed from the thread's own connections, outside of the lock.\<close>

definition receive :: "nat \<Rightarrow> command list \<Rightarrow> shard \<Rightarrow> shard" where
  "receive i cmds sh = sh\<lparr>inbox := (inbox sh)[i := inbox sh ! i @ cmds]\<rparr>"

text \<open>A thread with a command to serve takes the lock.\<close>

definition acquire :: "nat \<Rightarrow> shard \<Rightarrow> shard option" where
  "acquire i sh =
     (if owner sh = None \<and> i < length (inbox sh) \<and> inbox sh ! i \<noteq> []
      then Some (sh\<lparr>owner := Some i\<rparr>) else None)"

text \<open>
  The handler of thread \<open>i\<close>, with the lock held: execute, stop all loops on a shutdown request, and
  release the lock on return. The reply is queued on the thread's connection.
\<close>

definition serve :: "nat \<Rightarrow> shard \<Rightarrow> (command \<times> string \<times> shard) result option" where
  "serve i sh =
     (if owner sh = Some i \<and> i < length (inbox sh) \<and> inbox sh ! i \<noteq> [] then
        let cmd = hd (inbox sh ! i)
        in Some (bind_res (execute cmd (core sh)) (\<lambda>(reply, s).
             let sh1 = sh\<lparr>core := s, owner := None, inbox := (inbox sh)[i := tl (inbox sh ! i)],
                          outbox := (outbox sh)[i := outbox sh ! i @ [reply]]\<rparr>
             in Inr (cmd, reply, if shutdown s then stop_all sh1 else sh1)))
      else None)"

text \<open>The tick of thread 0, under the lock.\<close>

definition maintain :: "clock \<Rightarrow> rng \<Rightarrow> shard \<Rightarrow> shard option" where
  "maintain micros rng sh =
     (if owner sh = None then
        map_option (\<lambda>(failed, s). let sh1 = sh\<lparr>core := s\<rparr> in if failed then stop_all sh1 else sh1)
          (tick micros rng (core sh))
      else None)"

text \<open>The steps, labelled with the command served and its reply.\<close>

inductive shard_step :: "shard \<Rightarrow> (command \<times> string) list \<Rightarrow> shard \<Rightarrow> bool" where
  receive: "shard_step sh [] (receive i cmds sh)"
| lock: "acquire i sh = Some sh' \<Longrightarrow> shard_step sh [] sh'"
| serve: "serve i sh = Some (Inr (cmd, reply, sh')) \<Longrightarrow> shard_step sh [(cmd, reply)] sh'"
| maintain: "rng_in_range rng \<Longrightarrow> maintain micros rng sh = Some sh' \<Longrightarrow> shard_step sh [] sh'"

inductive shard_run :: "shard \<Rightarrow> (command \<times> string) list \<Rightarrow> shard \<Rightarrow> bool" where
  stay: "shard_run sh [] sh"
| go: "shard_run sh tr sh1 \<Longrightarrow> shard_step sh1 ev sh2 \<Longrightarrow> shard_run sh (tr @ ev) sh2"

text \<open>Recovery before the threads start, and the status once all loops have returned.\<close>

definition shard_recover :: "config \<Rightarrow> clock \<Rightarrow> disk \<Rightarrow> (ShardStatus + server) result" where
  "shard_recover cfg c d =
     (let s = CommandDispatcher c
      in if \<not> wal_enabled cfg then Inr (Inr s)
         else if \<not> dir_ok d then Inr (Inl kShardFatalError)
         else case load_baseline cfg d s of
           Inl err \<Rightarrow> Inr (Inl kShardFatalError)
         | Inr s1 \<Rightarrow>
             case fsync cfg of
               None \<Rightarrow> Inl Bad_optional_access
             | Some pol \<Rightarrow>
                 let w = Wal (cfg_wal_path cfg) pol (log_file d) (log_synced d) (log_io d);
                     (st, w1, r) = replay recover_cmd w (Inr s1)
                 in bind_res r (\<lambda>s2.
                      if st \<noteq> kOk then Inr (Inl kShardFatalError)
                      else let (st2, w2) = open_for_append w1
                           in if st2 \<noteq> kOk then Inr (Inl kShardFatalError) else Inr (Inr (s2\<lparr>wal := Some w2\<rparr>))))"

definition shard_start :: "config \<Rightarrow> server \<Rightarrow> shard" where
  "shard_start cfg s = \<lparr>core = s, owner = None, inbox = replicate (nthreads cfg) [],
     outbox = replicate (nthreads cfg) [], stopped = replicate (nthreads cfg) False\<rparr>"

definition shard_status :: "bool \<Rightarrow> server \<Rightarrow> ShardStatus" where
  "shard_status fatal s = (if fatal \<or> persistence_failed s then kShardFatalError else kShardStopped)"

section \<open>Mutual exclusion gives sequential runs\<close>

lemma stop_all_fields [simp]:
  "core (stop_all sh) = core sh" "owner (stop_all sh) = owner sh" "inbox (stop_all sh) = inbox sh"
  "outbox (stop_all sh) = outbox sh"
  by (simp_all add: stop_all_def)

lemma serve_Some:
  assumes "serve i sh = Some (Inr (cmd, reply, sh'))"
  shows "owner sh = Some i" "i < length (inbox sh)" "inbox sh ! i = cmd # tl (inbox sh ! i)"
    "execute cmd (core sh) = Inr (reply, core sh')" "owner sh' = None"
    "inbox sh' = (inbox sh)[i := tl (inbox sh ! i)]" "outbox sh' = (outbox sh)[i := outbox sh ! i @ [reply]]"
  using assms by (auto simp: serve_def Let_def bind_res_Inr_iff split: if_splits)

lemma maintain_Some:
  assumes "maintain micros rng sh = Some sh'"
  shows "owner sh = None" "owner sh' = None" "\<exists>b. tick micros rng (core sh) = Some (b, core sh')"
    "inbox sh' = inbox sh" "outbox sh' = outbox sh"
  using assms by (auto simp: maintain_def Let_def split: if_splits)

lemma acquire_Some:
  assumes "acquire i sh = Some sh'"
  shows "sh' = sh\<lparr>owner := Some i\<rparr>" "owner sh = None" "i < length (inbox sh)" "inbox sh ! i \<noteq> []"
  using assms by (auto simp: acquire_def split: if_splits)

lemma shard_step_core: "shard_step sh ev sh' \<Longrightarrow> core sh' = core sh \<or> sys_step (core sh) (core sh')"
proof (induction rule: shard_step.induct)
  case (receive sh i cmds)
  show ?case by (simp add: receive_def)
next
  case (lock i sh sh')
  with acquire_Some(1) [OF lock] show ?case by simp
next
  case (serve i sh cmd reply sh')
  have "sys_step (core sh) (core sh')"
    by (rule sys_step.command [where cmd = cmd and r = "(reply, shutdown (core sh'))"])
      (simp add: handle_command_def serve_Some(4) [OF serve])
  then show ?case ..
next
  case (maintain rng micros sh sh')
  with maintain_Some(3) [OF maintain(2)] show ?case using sys_step.tick by blast
qed

lemma shard_run_core: "shard_run sh tr sh' \<Longrightarrow> sys_run (core sh) (core sh')"
proof (induction rule: shard_run.induct)
  case (go sh tr sh1 ev sh2)
  from shard_step_core [OF go.hyps(2)] go.IH show ?case by (auto intro: sys_run.go)
qed (rule sys_run.stay)

lemma shard_recover_boot:
  "shard_recover cfg c d =
     bind_res (boot cfg c d) (\<lambda>b. Inr (case b of Refused msg \<Rightarrow> Inl kShardFatalError | Serving s \<Rightarrow> Inr s))"
  by (auto simp: shard_recover_def boot_def recover_log_def Let_def bind_res_case split_beta
      split: sum.split option.split)


section \<open>No lost updates\<close>

text \<open>What a key counts: nothing, or its number in decimal, without a deadline.\<close>

definition counter :: "nat \<Rightarrow> entry option \<times> int option" where
  "counter n = (if n = 0 then None else Some (Str (to_string (int n))), None)"

lemma untimed_frame:
  assumes "view s' = vdel ks (view s)" and "\<forall>k \<in> set ks. \<exists>t i. snd (view s) k = Some t \<and> t \<le> clk s i"
    and "snd (vat k (view s)) = None"
  shows "vat k (view s') = vat k (view s)"
proof -
  have "k \<notin> set ks" using assms(2,3) by (auto simp: vat_def)
  with assms(1) show ?thesis by (simp add: vat_vdel)
qed

lemma execute_other:
  assumes "server_wf s" and "execute cmd s = Inr (r, s')" and "\<not> persistence_failed s'" and "k \<notin> targets cmd"
    and "vat k (view s) = counter n"
  shows "vat k (view s') = counter n"
proof -
  obtain ks mid where mid: "evicted s ks mid" "vat k (view s') = vat k (view mid)"
    using execute_framed [OF assms(1-3)] assms(4) unfolding framed_def by blast
  then show ?thesis
    using untimed_frame [of mid ks s k] assms(5) by (auto simp: evicted_def counter_def)
qed

lemma incr_names: "upper ''INCR'' = ''INCR''"
  by code_simp

lemma execute_incr:
  assumes "server_wf s" and "execute [''INCR'', k] s = Inr (r, s')" and "\<not> persistence_failed s'"
    and "vat k (view s) = counter n" and "in_i64 (int n + 1)"
  shows "r = resp_integer (int n + 1) \<and> vat k (view s') = counter (Suc n)"
proof -
  define mid where "mid = touch k s"
  have ok: "\<not> persistence_failed s"
    using assms(2,3) by (auto simp: execute_def)
  have "expiry_at (ttl s) k = None" using assms(4) by (simp add: vat_def counter_def view_def)
  then have "view mid = view s" using touch_view [OF assms(1), of k] by (simp add: mid_def expired_key_def)
  then have at: "map_of (db mid) k = fst (counter n)" "vat k (view mid) = counter n"
    using assms(4) by (simp_all add: vat_def view_def) (metis fst_conv)
  have n: "in_i64 (int n)" using assms(5) by (simp add: i64_simps)
  have "incr_result (map_of (db mid)) k 1 = Inr (int n + 1)"
    using at(1) n assms(5) by (simp add: incr_result_def counter_def parse_i64_to_string i64_simps)
  then have "cmd_incr [''INCR'', k] s = Inr (resp_integer (int n + 1), mid\<lparr>db := db_set k (to_string (int n + 1)) (db mid)\<rparr>)"
    by (simp add: cmd_incr_def incr_by_eq Let_def mid_def [symmetric])
  with assms(2,3) execute_handler [OF ok, of "[''INCR'', k]" "''INCR''" cmd_incr]
  have "r = resp_integer (int n + 1)" "view s' = view (mid\<lparr>db := db_set k (to_string (int n + 1)) (db mid)\<rparr>)"
    by (auto simp: kTable_def Let_def incr_names split: if_splits)
  with server_wf_set(2) [OF touch_wf [OF assms(1), of k], of k "to_string (int n + 1)", folded mid_def] at(2) show ?thesis
    by (simp add: vat_def counter_def add.commute)
qed

lemma sys_step_failed: "sys_step s s' \<Longrightarrow> server_wf s \<Longrightarrow> \<not> persistence_failed s' \<Longrightarrow> \<not> persistence_failed s"
  using sys_step_effect unfolding redone_def appended_def by blast

lemma tick_untimed:
  assumes "server_wf s" and "rng_in_range rng" and "tick micros rng s = Some (b, s')" and "snd (vat k (view s)) = None"
  shows "vat k (view s') = vat k (view s)"
  using tick_effect [OF assms(1,2), of micros] assms(3) untimed_frame [OF _ _ assms(4)] by auto

definition incrs_of :: "string \<Rightarrow> (command \<times> string) list \<Rightarrow> string list" where
  "incrs_of k tr = map snd (filter (\<lambda>(c, r). c = [''INCR'', k]) tr)"

lemma incrs_of_append [simp]: "incrs_of k (tr @ ev) = incrs_of k tr @ incrs_of k ev"
  by (simp add: incrs_of_def)

lemma length_incrs_of: "length (incrs_of k tr) \<le> length tr"
  by (simp add: incrs_of_def)

text \<open>One step of the shared state, as far as one counter is concerned.\<close>

lemma shard_step_counter:
  assumes step: "shard_step sh ev sh'" and wf: "server_wf (core sh)" and ok: "\<not> persistence_failed (core sh')"
    and only: "\<forall>(c, r) \<in> set ev. c = [''INCR'', k] \<or> k \<notin> targets c"
    and n: "vat k (view (core sh)) = counter n" "ev \<noteq> [] \<Longrightarrow> in_i64 (int n + 1)"
  shows "incrs_of k ev = map (\<lambda>j. resp_integer (int j)) [Suc n ..< Suc n + length (incrs_of k ev)] \<and>
     vat k (view (core sh')) = counter (n + length (incrs_of k ev))"
  using step
proof cases
  case (receive i cmds)
  with n(1) show ?thesis by (simp add: receive_def incrs_of_def)
next
  case (lock i)
  with acquire_Some(1) [OF lock(2)] n(1) show ?thesis by (simp add: incrs_of_def)
next
  case (serve i cmd reply)
  note run = serve_Some(4) [OF serve(2)]
  show ?thesis
  proof (cases "cmd = [''INCR'', k]")
    case True
    have "in_i64 (int n + 1)" using n(2) serve(1) by simp
    with execute_incr [OF wf run [unfolded True] ok n(1)] serve(1) True show ?thesis
      by (simp add: incrs_of_def)
  next
    case False
    with only serve(1) execute_other [OF wf run ok _ n(1)] show ?thesis
      by (simp add: incrs_of_def)
  qed
next
  case (maintain rng micros)
  from maintain_Some(3) [OF maintain(3)] obtain b where "tick micros rng (core sh) = Some (b, core sh')" ..
  from tick_untimed [OF wf maintain(2) this, of k] n(1) maintain(1) show ?thesis
    by (simp add: incrs_of_def counter_def)
qed

lemma shard_run_counter:
  "shard_run sh tr sh' \<Longrightarrow> server_wf (core sh) \<Longrightarrow> \<not> persistence_failed (core sh') \<Longrightarrow>
   vat k (view (core sh)) = counter 0 \<Longrightarrow> \<forall>(c, r) \<in> set tr. c = [''INCR'', k] \<or> k \<notin> targets c \<Longrightarrow>
   in_i64 (int (length tr)) \<Longrightarrow>
   incrs_of k tr = map (\<lambda>j. resp_integer (int j)) [1 ..< Suc (length (incrs_of k tr))] \<and>
   vat k (view (core sh')) = counter (length (incrs_of k tr))"
proof (induction rule: shard_run.induct)
  case (stay sh)
  then show ?case by (simp add: incrs_of_def)
next
  case (go sh tr sh1 ev sh2)
  have wf1: "server_wf (core sh1)"
    using sys_run_effect [OF shard_run_core [OF go.hyps(1)] go.prems(1)] ..
  have ok1: "\<not> persistence_failed (core sh1)"
    using shard_step_core [OF go.hyps(2)] sys_step_failed [OF _ wf1] go.prems(2) by auto
  define n where "n = length (incrs_of k tr)"
  have IH: "incrs_of k tr = map (\<lambda>j. resp_integer (int j)) [1 ..< Suc n]" "vat k (view (core sh1)) = counter n"
    using go.IH [OF go.prems(1) ok1 go.prems(3)] go.prems(4,5) by (auto simp: n_def i64_simps)
  have "in_i64 (int n + 1)" if "ev \<noteq> []"
  proof -
    have "int n + 1 \<le> int (length (tr @ ev))"
      using that length_incrs_of [of k tr] by (cases ev) (auto simp: n_def)
    then show ?thesis using go.prems(5) by (simp add: i64_simps)
  qed
  with shard_step_counter [OF go.hyps(2) wf1 go.prems(2) _ IH(2)] go.prems(4)
  have step: "incrs_of k ev = map (\<lambda>j. resp_integer (int j)) [Suc n ..< Suc n + length (incrs_of k ev)]"
    "vat k (view (core sh2)) = counter (n + length (incrs_of k ev))"
    by auto
  have "[1 ..< Suc (n + m)] = [1 ..< Suc n] @ [Suc n ..< Suc n + m]" for m
    using upt_add_eq_append [of 1 "Suc n" m] by simp
  with IH(1) step show ?case
    by (metis incrs_of_append length_append map_append n_def)
qed


text \<open>A schedule: which thread takes the lock and serves next.\<close>

fun schedule :: "nat list \<Rightarrow> shard \<Rightarrow> ((command \<times> string) list \<times> shard) option" where
  "schedule [] sh = Some ([], sh)"
| "schedule (i # is) sh =
     (case Option.bind (acquire i sh) (serve i) of
        Some (Inr (cmd, reply, sh1)) \<Rightarrow> map_option (\<lambda>(tr, sh2). ((cmd, reply) # tr, sh2)) (schedule is sh1)
      | _ \<Rightarrow> None)"

lemma schedule_run: "schedule is sh = Some (tr, sh') \<Longrightarrow> shard_run sh0 tr0 sh \<Longrightarrow> shard_run sh0 (tr0 @ tr) sh'"
proof (induction "is" arbitrary: sh tr tr0)
  case (Cons i "is")
  then obtain sh1 cmd reply sh2 tr2 where steps: "acquire i sh = Some sh1" "serve i sh1 = Some (Inr (cmd, reply, sh2))"
    "schedule is sh2 = Some (tr2, sh')" "tr = (cmd, reply) # tr2"
    by (auto split: option.splits sum.splits bind_splits)
  have "shard_run sh0 (tr0 @ [(cmd, reply)]) sh2"
    using shard_run.go [OF shard_run.go [OF Cons.prems(2) shard_step.lock [OF steps(1)]] shard_step.serve [OF steps(2)]]
    by simp
  from Cons.IH [OF steps(3) this] steps(4) show ?case by simp
qed simp

text \<open>Two threads with two INCRs each, served in turns.\<close>

definition incr_shard :: shard where
  "incr_shard = \<lparr>core = CommandDispatcher (frozen_at 5), owner = None,
     inbox = [[[''INCR'', ''n''], [''INCR'', ''n'']], [[''INCR'', ''n''], [''INCR'', ''n'']]],
     outbox = [[], []], stopped = [False, False]\<rparr>"

lemma schedule_incr:
  "map_option (\<lambda>(tr, sh'). (map fst tr, persistence_failed (core sh'))) (schedule [0, 1, 1, 0] incr_shard) =
     Some (replicate 4 [''INCR'', ''n''], False)"
  by code_simp


text \<open>
  Every parsed command is served, in order. Whenever the lock is free, a thread with commands
  waiting can take it and serve the first of them: the reply joins that thread's replies, the lock
  is free again, no other thread's commands or replies are touched. (The one exception is a command
  whose deadline arithmetic overflows.)
\<close>

theorem waiting_command_is_served:
  assumes "server_wf (core sh)" and "owner sh = None" and "length (outbox sh) = length (inbox sh)"
    and "i < length (inbox sh)" and "inbox sh ! i = cmd # cmds"
  shows "\<exists>sh1. acquire i sh = Some sh1 \<and>
     (serve i sh1 = Some (Inl Signed_overflow) \<or>
      (\<exists>reply sh2. serve i sh1 = Some (Inr (cmd, reply, sh2)) \<and> owner sh2 = None \<and> server_wf (core sh2) \<and>
         inbox sh2 = (inbox sh)[i := cmds] \<and> outbox sh2 = (outbox sh)[i := outbox sh ! i @ [reply]]))"
proof -
  let ?sh1 = "sh\<lparr>owner := Some i\<rparr>"
  have "acquire i sh = Some ?sh1" using assms by (simp add: acquire_def)
  moreover have "serve i ?sh1 = Some (Inl Signed_overflow) \<or> (\<exists>reply sh2. serve i ?sh1 = Some (Inr (cmd, reply, sh2)))"
    using execute_safe [OF assms(1), of cmd] assms(4,5)
    by (cases "execute cmd (core sh)") (auto simp: serve_def Let_def)
  moreover have "owner sh2 = None \<and> server_wf (core sh2) \<and> inbox sh2 = (inbox sh)[i := cmds] \<and>
      outbox sh2 = (outbox sh)[i := outbox sh ! i @ [reply]]" if "serve i ?sh1 = Some (Inr (cmd, reply, sh2))" for reply sh2
    using serve_Some [OF that] dispatcher.step_inv [OF assms(1), of cmd reply "core sh2"] assms(5) by simp
  ultimately show ?thesis by blast
qed

theorem waiting_command_is_served_witness:
  "\<exists>sh1. acquire 1 incr_shard = Some sh1 \<and>
     (serve 1 sh1 = Some (Inl Signed_overflow) \<or>
      (\<exists>reply sh2. serve 1 sh1 = Some (Inr ([''INCR'', ''n''], reply, sh2)) \<and> outbox sh2 = [[], [reply]]))"
proof -
  have "server_wf (core incr_shard)" "owner incr_shard = None" "length (outbox incr_shard) = length (inbox incr_shard)"
    "1 < length (inbox incr_shard)" "inbox incr_shard ! 1 = [''INCR'', ''n''] # [[''INCR'', ''n'']]"
    "outbox incr_shard = [[], []]"
    by (simp_all add: incr_shard_def)
  with waiting_command_is_served [of incr_shard 1] show ?thesis by fastforce
qed


end
