(* ===== verification/Listener.thy ===== *)
theory Listener
  imports Event_Loop
begin

text \<open>
  The listening socket, \<^verbatim>\<open>src/src/net/listener.cpp\<close>. The answers of the system calls are a parameter;
  what the model keeps is which descriptor the listener holds, which ones it closed, and the message.
  The lemmas: the listener works exactly when every call does, and no descriptor is left open by a
  failure, nor handed out blocking.
\<close>

record socket_io =
  socket_ret :: int
  reuse_ok :: bool
  bind_ok :: bool
  listen_ok :: bool
  getfl_ok :: bool
  setfl_ok :: bool
  strerror :: string

definition set_nonblocking :: "socket_io \<Rightarrow> bool" where
  "set_nonblocking sio = (if \<not> getfl_ok sio then False else setfl_ok sio)"

record listener =
  lfd :: int
  lclosed :: "int list"

text \<open>The lambda \<^verbatim>\<open>fail\<close>: compose the message, close and forget the descriptor.\<close>

definition listener_fail :: "string \<Rightarrow> socket_io \<Rightarrow> listener \<Rightarrow> bool \<times> string option \<times> listener" where
  "listener_fail what sio ln =
     (False, Some (what @ '': '' @ strerror sio),
      if 0 \<le> lfd ln then ln\<lparr>lfd := - 1, lclosed := lclosed ln @ [lfd ln]\<rparr> else ln)"

definition listener_open :: "socket_io \<Rightarrow> bool \<times> string option \<times> listener" where
  "listener_open sio =
     (let ln = \<lparr>lfd = socket_ret sio, lclosed = []\<rparr>
      in if lfd ln < 0 then listener_fail ''socket'' sio ln
         else if \<not> reuse_ok sio then listener_fail ''setsockopt(SO_REUSEADDR)'' sio ln
         else if \<not> bind_ok sio then listener_fail ''bind'' sio ln
         else if \<not> listen_ok sio then listener_fail ''listen'' sio ln
         else if \<not> set_nonblocking sio then listener_fail ''fcntl(O_NONBLOCK)'' sio ln
         else (True, None, ln))"

text \<open>
  One \<^verbatim>\<open>accept\<close>: its return value, whether \<^verbatim>\<open>errno\<close> then says that it would block, and the \<^verbatim>\<open>fcntl\<close> calls on
  the new descriptor. The answer is what the event loop sees, with the descriptors closed.
\<close>

definition accept_client :: "int \<Rightarrow> bool \<Rightarrow> socket_io \<Rightarrow> accept \<times> int list" where
  "accept_client cfd again sio =
     (if cfd < 0 then (if again then Accept_block else Accept_error, [])
      else if \<not> set_nonblocking sio then (Accept_error, [cfd])
      else (Accepted cfd, []))"

text \<open>
  The listener leaks nothing. It opens exactly when all calls succeed; otherwise it holds no
  descriptor, has closed the one it had got, and says which call failed. A client descriptor is
  handed to the loop only when it is non-blocking, and is closed otherwise.
\<close>

theorem listener_leaks_nothing:
  "(let (ok, err, ln) = listener_open sio
    in ok = (0 \<le> socket_ret sio \<and> reuse_ok sio \<and> bind_ok sio \<and> listen_ok sio \<and> set_nonblocking sio) \<and>
       (if ok then lfd ln = socket_ret sio \<and> lclosed ln = [] \<and> err = None
        else lfd ln < 0 \<and> lclosed ln = (if 0 \<le> socket_ret sio then [socket_ret sio] else []) \<and> err \<noteq> None)) \<and>
   (let (a, closed) = accept_client cfd again sio
    in (\<exists>fd. a = Accepted fd) = (0 \<le> cfd \<and> set_nonblocking sio) \<and>
       (if 0 \<le> cfd then (a, closed) = (Accepted cfd, []) \<or> (a, closed) = (Accept_error, [cfd]) else closed = []))"
  by (simp add: listener_open_def listener_fail_def accept_client_def Let_def)

end
