(* ===== verification/Process.thy ===== *)
theory Process
  imports Reactor Shard Listener
begin

text \<open>
  The whole process, \<^verbatim>\<open>src/src/main.cpp\<close>, with \<^verbatim>\<open>ShardedServer::start_and_run\<close> of \<^verbatim>\<open>src/src/core/shard.cpp\<close>:
  the command line, recovery, the listener, the handler and the tick installed in the event loop, the
  loop itself and the exit code. Everything the operating system answers is one record. The lemmas
  put the components together: a running process is a life of the server, it stops once persistence
  has failed, and what it serves survives its death.
\<close>

section \<open>The program\<close>

text \<open>
  What the loop acts on: the server, and for every tick to come the microsecond clock and the random
  numbers its expiry cycle will see.
\<close>

type_synonym server_world = "server \<times> (nat \<Rightarrow> clock \<times> rng)"

definition main_handler :: "server_world command_handler" where
  "main_handler cmd w =
     (case w of (s, src) \<Rightarrow> bind_res (handle_command cmd s) (\<lambda>(r, s1). Inr (r, s1, src)))"

definition main_tick :: "server_world \<Rightarrow> (bool \<times> server_world) option" where
  "main_tick w =
     (case w of (s, src) \<Rightarrow>
        map_option (\<lambda>(stops, s1). (stops, s1, \<lambda>i. src (Suc i))) (tick (fst (src 0)) (snd (src 0)) s))"

text \<open>
  The surroundings of a process: its arguments, the wall clock, the disk, the answers of the socket
  calls (for \<^verbatim>\<open>accept\<close>: its value, whether \<^verbatim>\<open>errno\<close> says it would block, the \<^verbatim>\<open>fcntl\<close> calls), of epoll and of
  the steady clock; and what the scheduler makes of the reactor threads: whether some loop died, and
  the state they leave.
\<close>

record machine =
  argv :: "string list"
  wall_clock :: clock
  files :: disk
  sockets :: socket_io
  accepts :: "(int \<times> bool \<times> socket_io) list"
  receives :: "recv list"
  sends :: "send list"
  ctls :: "bool list"
  epoll_made :: bool
  started_ms :: int
  polls :: "poll list"
  tick_sources :: "nat \<Rightarrow> clock \<times> rng"
  threads :: "shard \<Rightarrow> bool \<times> shard"

text \<open>The constructor of the event loop.\<close>

definition EventLoop :: "listener \<Rightarrow> config \<Rightarrow> machine \<Rightarrow> 'w \<Rightarrow> 'w evloop" where
  "EventLoop ln conf m w =
     \<lparr>cfg = conf, listen_fd = lfd ln, world = w, stop_requested = False, conns = [], armed = [],
      closed_this_batch = [], tick_states = [], capacity = 0, ctl_script = ctls m, recv_script = receives m,
      send_script = sends m, accept_script = map (\<lambda>(cfd, again, sio). fst (accept_client cfd again sio)) (accepts m),
      turned_away = []\<rparr>"

text \<open>A process has exited, with what its server had come to if it had one, or is in its loop.\<close>

datatype process = Exited int "server option" | Running "server_world evloop"

definition start_and_run :: "config \<Rightarrow> machine \<Rightarrow> (ShardStatus \<times> server option) result" where
  "start_and_run conf m =
     bind_res (shard_recover conf (wall_clock m) (files m)) (\<lambda>r.
       case r of
         Inl st \<Rightarrow> Inr (st, None)
       | Inr s \<Rightarrow>
           let (ok, err, ln) = listener_open (sockets m)
           in if \<not> ok then Inr (kShardFatalError, Some s)
              else let (fatal, sh) = threads m (shard_start conf s)
                   in Inr (shard_status fatal (core sh), Some (core sh)))"

definition main_single :: "config \<Rightarrow> machine \<Rightarrow> process result option" where
  "main_single conf m =
     (case boot conf (wall_clock m) (files m) of
        Inl f \<Rightarrow> Some (Inl f)
      | Inr (Refused msg) \<Rightarrow> Some (Inr (Exited 1 None))
      | Inr (Serving s) \<Rightarrow>
          let (ok, err, ln) = listener_open (sockets m)
          in if \<not> ok then Some (Inr (Exited 1 (Some s)))
             else map_option (\<lambda>r. bind_res r (\<lambda>(st, l).
                    case st of
                      None \<Rightarrow> Inr (Running l)
                    | Some st \<Rightarrow> Inr (Exited (exit_code st (fst (world l))) (Some (fst (world l))))))
                  (loop_run main_handler (epoll_made m) [(main_tick, 100)] (started_ms m) (polls m)
                     (EventLoop ln conf m (s, tick_sources m))))"

definition main :: "machine \<Rightarrow> process result option" where
  "main m =
     (case parse_argv (argv m) Config of
        Inl err \<Rightarrow> Some (Inr (Exited 2 None))
      | Inr conf \<Rightarrow>
          if 1 < nthreads conf then
            Some (bind_res (start_and_run conf m) (\<lambda>(st, s). Inr (Exited (if st = kShardStopped then 0 else 1) s)))
          else main_single conf m)"

section \<open>Invariants of the loop\<close>

definition outcome :: "(fault \<Rightarrow> bool) \<Rightarrow> ('a \<Rightarrow> bool) \<Rightarrow> 'a result \<Rightarrow> bool" where
  "outcome F P r \<longleftrightarrow> (case r of Inl f \<Rightarrow> F f | Inr x \<Rightarrow> P x)"

lemma outcome_simps [simp]: "outcome F P (Inl f) \<longleftrightarrow> F f" "outcome F P (Inr x) \<longleftrightarrow> P x"
  by (simp_all add: outcome_def)

lemma outcome_bind: "outcome F P r \<Longrightarrow> (\<And>x. P x \<Longrightarrow> outcome F Q (f x)) \<Longrightarrow> outcome F Q (bind_res r f)"
  by (cases r) simp_all

lemma outcome_safe: "outcome (\<lambda>f. f = Signed_overflow) P r \<longleftrightarrow> safe P r"
  by (cases r) simp_all

text \<open>
  What the owner of a loop promises: the handler keeps an invariant of the world and faults in known
  ways only, and the ticks keep it and return. Then the loop does.
\<close>

locale hosted =
  fixes h :: "'w command_handler" and fns :: "('w \<Rightarrow> (bool \<times> 'w) option) set"
    and I :: "'w \<Rightarrow> bool" and F :: "fault \<Rightarrow> bool"
  assumes handler: "I w \<Longrightarrow> outcome F (\<lambda>(r, w'). I w') (h cmd w)"
    and ticker: "fn \<in> fns \<Longrightarrow> I w \<Longrightarrow> \<exists>b w'. fn w = Some (b, w') \<and> I w'"
begin

lemma serve_all_hosted: "I w \<Longrightarrow> outcome F (\<lambda>(c', w', stop'). I w') (serve_all h cmds (c, w, stop))"
proof (induction cmds arbitrary: c w stop)
  case (Cons cmd cmds)
  have "outcome F (\<lambda>(c', w', stop'). I w') (serve_all h cmds (queue_reply reply c, w1, stop \<or> stops))"
    if "I w1" for reply stops w1
    using Cons.IH [OF that] .
  then show ?case
    by (auto intro!: outcome_bind [OF handler [OF Cons.prems, of cmd]])
qed simp

lemma read_loop_hosted: "I w \<Longrightarrow> outcome F (\<lambda>(ok, script', c', w', stop'). I w') (read_loop h script n (c, w, stop))"
proof (induction script arbitrary: n c w stop)
  case (Cons r script)
  show ?case
  proof (cases "\<exists>bytes p cmds. r = Received bytes \<and> bytes \<noteq> [] \<and> feed (rparser c) bytes = Inr (p, cmds)")
    case True
    then obtain bytes p cmds where r: "r = Received bytes" "bytes \<noteq> []" "feed (rparser c) bytes = Inr (p, cmds)" by blast
    have "outcome F (\<lambda>(ok, script', c', w', stop'). I w')
        (if stop1 \<or> length bytes < kReadChunk \<or> kMaxReadPerEvent \<le> n + length bytes
         then Inr (True, script, c1, w1, stop1) else read_loop h script (n + length bytes) (c1, w1, stop1))"
      if "I w1" for c1 w1 stop1
      using that Cons.IH [OF that] by simp
    then show ?thesis
      by (auto simp: r intro!: outcome_bind [OF serve_all_hosted [OF Cons.prems]])
  next
    case False
    with Cons show ?thesis
      by (cases r) (auto simp: Let_def split: sum.split)
  qed
qed simp

definition kept :: "'w evloop \<Rightarrow> 'w evloop \<Rightarrow> bool" where
  "kept l l' \<longleftrightarrow> I (world l') \<and> tick_states l' = tick_states l"

lemma readable_hosted: "I (world l) \<Longrightarrow> outcome F (\<lambda>(alive, l'). kept l l') (handle_readable h fd c l)"
  unfolding handle_readable_def
proof (rule outcome_bind [OF read_loop_hosted])
  fix x :: "bool \<times> recv list \<times> conn \<times> 'w \<times> bool" assume "case x of (ok, script', c', w', stop') \<Rightarrow> I w'"
  then obtain ok script c1 w1 stop1 where x: "x = (ok, script, c1, w1, stop1)" "I w1" by (cases x) auto
  let ?l1 = "l\<lparr>recv_script := script, world := w1, stop_requested := stop1\<rparr>"
  have "kept l (close_connection fd ?l1)" "kept l (snd (flush fd c1 ?l1))"
    using x(2) by (simp_all add: kept_def)
  then show "outcome F (\<lambda>(alive, l'). kept l l')
      (case x of (ok, script, c1, w1, stop1) \<Rightarrow>
         let l1 = l\<lparr>recv_script := script, world := w1, stop_requested := stop1\<rparr>
         in if \<not> ok then Inr (False, close_connection fd l1) else Inr (flush fd c1 l1))"
    unfolding x(1) prod.case Let_def by (cases ok) (simp_all add: split_beta)
qed

lemma event_hosted:
  assumes "I (world l)"
  shows "outcome F (kept l) (handle_event h ev l)"
proof (cases "efd ev = listen_fd l \<or> efd ev \<in> set (closed_this_batch l) \<or> map_of (conns l) (efd ev) = None \<or> epollhup ev")
  case True
  with assms show ?thesis
    by (auto simp: handle_event_def Let_def kept_def accept_new_clients_def split: option.split)
next
  case False
  then obtain c where c: "map_of (conns l) (efd ev) = Some c" by auto
  have "outcome F (\<lambda>(alive, l'). kept l l') (if epollin ev then handle_readable h (efd ev) c l else Inr (True, l))"
    using readable_hosted [OF assms] assms by (simp add: kept_def)
  then have "outcome F (kept l)
      (bind_res (if epollin ev then handle_readable h (efd ev) c l else Inr (True, l)) (\<lambda>(alive, l1).
         if \<not> alive \<or> \<not> epollout ev then Inr l1
         else case map_of (conns l1) (efd ev) of None \<Rightarrow> Inr l1 | Some c1 \<Rightarrow> Inr (snd (flush (efd ev) c1 l1))))"
    by (rule outcome_bind) (auto simp: kept_def split: option.split)
  with False c show ?thesis by (simp add: handle_event_def Let_def)
qed

lemma events_hosted: "I (world l) \<Longrightarrow> outcome F (kept l) (handle_events h evs l)"
proof (induction evs arbitrary: l)
  case (Cons ev evs)
  have "outcome F (kept l) (handle_events h evs l1)" if "kept l l1" for l1
    using that Cons.IH [of l1] by (cases "handle_events h evs l1") (auto simp: kept_def)
  with event_hosted [OF Cons.prems] show ?case by (auto intro: outcome_bind)
qed (simp add: kept_def)

lemma due_ticks_hosted:
  "I w \<Longrightarrow> tick_fn ` set ts \<subseteq> fns \<Longrightarrow>
     \<exists>ts' w' stop'. due_ticks now ts (w, stop) = Some (ts', w', stop') \<and> I w' \<and> tick_fn ` set ts' = tick_fn ` set ts"
proof (induction ts arbitrary: w stop)
  case (Cons t ts)
  show ?case
  proof (cases "next_due_ms t \<le> now")
    case True
    obtain b w1 where t: "tick_fn t w = Some (b, w1)" "I w1" using ticker [of "tick_fn t" w] Cons.prems by auto
    with True Cons.IH [OF t(2), of "stop \<or> b"] Cons.prems(2) show ?thesis by auto
  next
    case False
    with Cons.IH [OF Cons.prems(1), of stop] Cons.prems(2) show ?thesis by auto
  qed
qed simp

lemma turn_hosted:
  assumes "I (world l)" and "tick_fn ` set (tick_states l) \<subseteq> fns"
  shows "\<exists>r. turn h p l = Some r \<and> outcome F (\<lambda>(st, l'). I (world l') \<and> tick_fn ` set (tick_states l') \<subseteq> fns) r"
proof (cases p)
  case (Poll evs now)
  have ev: "outcome F (kept (l\<lparr>closed_this_batch := []\<rparr>)) (handle_events h evs (l\<lparr>closed_this_batch := []\<rparr>))"
    using assms(1) by (intro events_hosted) simp
  show ?thesis
  proof (cases "handle_events h evs (l\<lparr>closed_this_batch := []\<rparr>)")
    case (Inl f)
    with ev Poll show ?thesis by (simp add: turn_def)
  next
    case (Inr l1)
    with ev have l1: "I (world l1)" "tick_states l1 = tick_states l" by (simp_all add: kept_def)
    with due_ticks_hosted [OF l1(1), of "tick_states l1" now "stop_requested l1"] assms(2) obtain ts w stop where
      "due_ticks now (tick_states l1) (world l1, stop_requested l1) = Some (ts, w, stop)" "I w" "tick_fn ` set ts \<subseteq> fns"
      by auto
    with Inr Poll show ?thesis by (simp add: turn_def run_due_ticks_def)
  qed
qed (use assms in \<open>simp_all add: turn_def\<close>)

lemma run_hosted:
  "I (world l) \<Longrightarrow> tick_fn ` set (tick_states l) \<subseteq> fns \<Longrightarrow>
     \<exists>r. run_polls h ps l = Some r \<and> outcome F (\<lambda>(st, l'). I (world l')) r"
proof (induction ps arbitrary: l)
  case Nil
  then show ?case by (simp add: run_polls.simps)
next
  case (Cons p ps)
  obtain r where r: "turn h p l = Some r" "outcome F (\<lambda>(st, l'). I (world l') \<and> tick_fn ` set (tick_states l') \<subseteq> fns) r"
    using turn_hosted [OF Cons.prems] by blast
  show ?case
  proof (cases "stop_requested l")
    case True
    with Cons.prems show ?thesis by (simp add: run_polls.simps)
  next
    case False
    show ?thesis
    proof (cases r)
      case (Inl f)
      with r False show ?thesis by (simp add: run_polls.simps)
    next
      case (Inr x)
      obtain st l1 where x: "x = (st, l1)" by fastforce
      with r(2) Inr Cons.IH [of l1] r(1) False show ?thesis
        by (cases st) (simp_all add: run_polls.simps [of h "p # ps"])
    qed
  qed
qed

lemma loop_run_hosted:
  assumes "I (world l)" and "fst ` set ticks \<subseteq> fns"
  shows "\<exists>r. loop_run h epoll_ok ticks start_ms ps l = Some r \<and> outcome F (\<lambda>(st, l'). I (world l')) r"
proof (cases rule: loop_run_cases [OF refl, of h epoll_ok ticks start_ms ps l])
  case (1 l1)
  with assms(1) show ?thesis by simp
next
  case (2 l1)
  have "tick_fn ` set (tick_states l1) = fst ` set ticks" unfolding 2(7) by force
  with assms run_hosted [of l1 ps] 2(1,4) show ?thesis by simp
qed

end

section \<open>A running process is a life of the server\<close>

definition ticks_in_range :: "(nat \<Rightarrow> clock \<times> rng) \<Rightarrow> bool" where
  "ticks_in_range src \<longleftrightarrow> (\<forall>i. rng_in_range (snd (src i)))"

definition process_ok :: "config \<Rightarrow> server_world \<Rightarrow> bool" where
  "process_ok conf w \<longleftrightarrow> life conf (fst w) \<and> ticks_in_range (snd w)"

definition process_failed :: "wal option \<Rightarrow> server_world \<Rightarrow> bool" where
  "process_failed log w \<longleftrightarrow>
     server_wf (fst w) \<and> persistence_failed (fst w) \<and> wal (fst w) = log \<and> ticks_in_range (snd w)"

lemma main_tick_Some:
  "tick (fst (src 0)) (snd (src 0)) s = Some (b, s') \<Longrightarrow> main_tick (s, src) = Some (b, s', \<lambda>i. src (Suc i))"
  by (simp add: main_tick_def)

lemma ticks_in_range_Suc: "ticks_in_range src \<Longrightarrow> rng_in_range (snd (src 0)) \<and> ticks_in_range (\<lambda>i. src (Suc i))"
  by (simp add: ticks_in_range_def)

lemma handle_command_safe: "server_wf s \<Longrightarrow> safe (\<lambda>_. True) (handle_command cmd s)"
  unfolding handle_command_def by (rule safe_bind [OF execute_safe]) auto

interpretation running: hosted main_handler "{main_tick}" "process_ok conf" "\<lambda>f. f = Signed_overflow" for conf
proof
  fix w cmd assume "process_ok conf w"
  then obtain s src where w: "w = (s, src)" "life conf s" "ticks_in_range src" by (cases w) (auto simp: process_ok_def)
  have wf: "server_wf s" using life_logged [OF w(2)] ..
  have "life conf s'" if "handle_command cmd s = Inr (r, s')" for r s'
    using life.step [OF w(2) sys_step.command [OF that]] .
  with handle_command_safe [OF wf, of cmd] w(3)
  show "outcome (\<lambda>f. f = Signed_overflow) (\<lambda>(r, w'). process_ok conf w') (main_handler cmd w)"
    by (cases "handle_command cmd s") (auto simp: w(1) main_handler_def process_ok_def)
next
  fix fn w assume fn: "fn \<in> {main_tick}" and "process_ok conf w"
  then obtain s src where w: "w = (s, src)" "life conf s" "ticks_in_range src" by (cases w) (auto simp: process_ok_def)
  note rng = ticks_in_range_Suc [OF w(3)]
  have "server_wf s" using life_logged [OF w(2)] ..
  with rng obtain s' where s': "tick (fst (src 0)) (snd (src 0)) s = Some (persistence_failed s', s')"
    using tick_effect by blast
  with rng life.step [OF w(2) sys_step.tick [OF _ s']] main_tick_Some [of src s "persistence_failed s'" s', OF s']
  show "\<exists>b w'. fn w = Some (b, w') \<and> process_ok conf w'"
    using fn by (simp add: w(1) process_ok_def)
qed

lemma main_tick_failed:
  assumes "process_failed log w"
  shows "\<exists>w'. main_tick w = Some (True, w') \<and> process_failed log w'"
proof -
  obtain s src where w: "w = (s, src)" "server_wf s" "persistence_failed s" "wal s = log" "ticks_in_range src"
    using assms by (cases w) (auto simp: process_failed_def)
  note rng = ticks_in_range_Suc [OF w(5)]
  obtain s' where s': "tick (fst (src 0)) (snd (src 0)) s = Some (True, s')" "persistence_failed s'" "wal s' = wal s"
    using tick_failed [OF w(2,3)] rng by blast
  moreover have "server_wf s'"
    using tick_effect [OF w(2) conjunct1 [OF rng], of "fst (src 0)"] s'(1) by auto
  ultimately show ?thesis
    using main_tick_Some [of src s True s'] rng w(4) by (simp add: w(1) process_failed_def)
qed

interpretation latched: hosted main_handler "{main_tick}" "process_failed log" "\<lambda>f. False" for log
proof
  fix w cmd assume "process_failed log w"
  then show "outcome (\<lambda>f. False) (\<lambda>(r, w'). process_failed log w') (main_handler cmd w)"
    by (cases w) (simp add: main_handler_def process_failed_def handle_command_failed)
next
  fix fn w assume "fn \<in> {main_tick}" and "process_failed log w"
  with main_tick_failed show "\<exists>b w'. fn w = Some (b, w') \<and> process_failed log w'" by blast
qed

text \<open>A small machine: the log is on, one client connects and sends one command.\<close>

definition good_sockets :: socket_io where
  "good_sockets = \<lparr>socket_ret = 3, reuse_ok = True, bind_ok = True, listen_ok = True, getfl_ok = True, setfl_ok = True, strerror = []\<rparr>"

definition demo :: machine where
  "demo =
     \<lparr>argv = [''hermitdb'', ''--wal'', ''--fsync=always''], wall_clock = frozen_at 5, files = blank_disk None,
      sockets = good_sockets, accepts = [(5, False, good_sockets)],
      receives = [Received (encode [''SET'', ''k'', ''v''])], sends = [], ctls = [], epoll_made = True, started_ms = 0,
      polls = [Poll [ready_event 3] 1, Poll [ready_event 5] 2],
      tick_sources = \<lambda>_. (frozen_at 0, \<lambda>j n. n), threads = Pair False\<rparr>"

lemma demo_ticks: "ticks_in_range (tick_sources demo)"
  by (simp add: demo_def ticks_in_range_def rng_in_range_def)

lemma demo_argv: "parse_argv [''hermitdb'', ''--wal'', ''--fsync=always''] Config = Inr cfg_always"
  by (simp add: parse_argv_def cfg_always_def parse_eval)

text \<open>
  C10. A process whose persistence has failed stops. Once the failure is noted, the first poll that
  returns when the tick is due, whatever events it brings, makes the loop return; the process exits
  with code 1, all connections are closed, and nothing more was written to the log.
\<close>

theorem failed_process_stops:
  assumes "world l = (s, src)" and "server_wf s" and "persistence_failed s" and "ticks_in_range src"
    and "tick_states l = [\<lparr>tick_fn = main_tick, interval_ms = 100, next_due_ms = due\<rparr>]" and "due \<le> now"
  shows "\<exists>l'. run_polls main_handler (Poll evs now # ps) l = Some (Inr (Some kStopped, l')) \<and>
     exit_code kStopped (fst (world l')) = 1 \<and> wal (fst (world l')) = wal s \<and> conns l' = []"
proof (cases "stop_requested l")
  case True
  with assms(1,3) show ?thesis by (simp add: run_polls.simps exit_code_def)
next
  case False
  let ?l = "l\<lparr>closed_this_batch := []\<rparr>"
  have "process_failed (wal s) (world ?l)" using assms(1-4) by (simp add: process_failed_def)
  from latched.events_hosted [OF this, of evs] obtain l1 where
    l1: "handle_events main_handler evs ?l = Inr l1" "process_failed (wal s) (world l1)" "tick_states l1 = tick_states l"
    by (cases "handle_events main_handler evs ?l") (auto simp: latched.kept_def)
  obtain w where w: "main_tick (world l1) = Some (True, w)" "process_failed (wal s) w"
    using main_tick_failed [OF l1(2)] by blast
  have "\<exists>l2. turn main_handler (Poll evs now) l = Some (Inr (None, l2)) \<and> stop_requested l2 \<and> world l2 = w"
    using l1(1,3) w(1) assms(5,6) by (simp add: turn_def run_due_ticks_def)
  then obtain l2 where l2: "turn main_handler (Poll evs now) l = Some (Inr (None, l2))" "stop_requested l2" "world l2 = w"
    by blast
  have "run_polls main_handler (Poll evs now # ps) l = Some (Inr (Some kStopped, l2\<lparr>conns := [], armed := []\<rparr>))"
    using False l2(1,2) by (simp add: run_polls.simps)
  with l2(3) w(2) show ?thesis
    by (intro exI [of _ "l2\<lparr>conns := [], armed := []\<rparr>"]) (simp add: process_failed_def exit_code_def)
qed

theorem failed_process_stops_witness:
  "\<exists>l'. run_polls main_handler [Poll [ready_event 5] 120]
       (EventLoop \<lparr>lfd = 3, lclosed = []\<rparr> cfg_always demo (report_persistence_failure first_boot, tick_sources demo)
          \<lparr>conns := [(5, Connection 1024)], tick_states := [\<lparr>tick_fn = main_tick, interval_ms = 100, next_due_ms = 100\<rparr>]\<rparr>) =
     Some (Inr (Some kStopped, l')) \<and> exit_code kStopped (fst (world l')) = 1 \<and> conns l' = []"
proof -
  let ?s = "report_persistence_failure first_boot"
  have s: "server_wf ?s" "persistence_failed ?s"
    by (simp_all add: report_persistence_failure_def first_boot_def)
  let ?l = "EventLoop \<lparr>lfd = 3, lclosed = []\<rparr> cfg_always demo (?s, tick_sources demo)
    \<lparr>conns := [(5, Connection 1024)], tick_states := [\<lparr>tick_fn = main_tick, interval_ms = 100, next_due_ms = 100\<rparr>]\<rparr>"
  have l: "world ?l = (?s, tick_sources demo)"
    "tick_states ?l = [\<lparr>tick_fn = main_tick, interval_ms = 100, next_due_ms = 100\<rparr>]"
    by (simp_all add: EventLoop_def)
  show ?thesis
    using failed_process_stops [OF l(1) s demo_ticks l(2), of 120 "[ready_event 5]" "[]"] by auto
qed

section \<open>The whole program\<close>

lemma life_run: "sys_run s s' \<Longrightarrow> life conf s \<Longrightarrow> life conf s'"
  by (induction rule: sys_run.induct) (auto intro: life.step)

lemma parse_argv_fsync: "parse_argv av Config = Inr conf \<Longrightarrow> wal_enabled conf \<Longrightarrow> fsync conf \<noteq> None"
  by (auto simp: parse_argv_def parse_args_def split: sum.splits if_splits)

lemma boot_fresh_total:
  assumes "snapshot_file d = None" and "log_file d = None" and "wal_enabled conf \<Longrightarrow> fsync conf \<noteq> None"
  shows "\<exists>b. boot conf c d = Inr b"
  using assms
  by (auto simp: boot_def load_baseline_def recover_log_def replay_def Wal_def
      next_io_def contents_def Let_def split: option.split list.split prod.split)

lemma main_single_loop:
  assumes "boot conf (wall_clock m) (files m) = Inr (Serving s)" and "listener_open (sockets m) = (True, err, ln)"
  shows "main_single conf m =
     map_option (\<lambda>r. bind_res r (\<lambda>(st, l).
       case st of None \<Rightarrow> Inr (Running l) | Some st \<Rightarrow> Inr (Exited (exit_code st (fst (world l))) (Some (fst (world l))))))
       (loop_run main_handler (epoll_made m) [(main_tick, 100)] (started_ms m) (polls m)
          (EventLoop ln conf m (s, tick_sources m)))"
  using assms by (simp add: main_single_def)

text \<open>What is promised of a process under a configuration.\<close>

definition sound_process :: "config \<Rightarrow> process \<Rightarrow> bool" where
  "sound_process conf p \<longleftrightarrow>
     (case p of
        Exited n so \<Rightarrow>
          n \<in> {0, 1} \<and> (n = 0 \<longrightarrow> (\<exists>s. so = Some s \<and> \<not> persistence_failed s)) \<and> (\<forall>s. so = Some s \<longrightarrow> life conf s)
      | Running l \<Rightarrow> life conf (fst (world l)))"

lemma main_single_sound:
  assumes fresh: "snapshot_file (files m) = None" "log_file (files m) = None"
    and conf: "wal_enabled conf \<Longrightarrow> fsync conf \<noteq> None" and src: "ticks_in_range (tick_sources m)"
  shows "\<exists>r. main_single conf m = Some r \<and> safe (sound_process conf) r"
proof -
  obtain b where b: "boot conf (wall_clock m) (files m) = Inr b"
    using boot_fresh_total [OF fresh conf] by blast
  obtain ok err ln where ln: "listener_open (sockets m) = (ok, err, ln)" by (cases "listener_open (sockets m)")
  show ?thesis
  proof (cases b)
    case (Refused msg)
    with b show ?thesis by (simp add: main_single_def sound_process_def)
  next
    case (Serving s)
    with b have s: "boot conf (wall_clock m) (files m) = Inr (Serving s)" "life conf s"
      using life.fresh [OF _ fresh] by auto
    show ?thesis
    proof (cases ok)
      case True
      let ?l = "EventLoop ln conf m (s, tick_sources m)"
      have "process_ok conf (world ?l)" using s(2) src by (simp add: process_ok_def EventLoop_def)
      from running.loop_run_hosted [OF this, of "[(main_tick, 100)]" "epoll_made m" "started_ms m" "polls m"] obtain r where
        r: "loop_run main_handler (epoll_made m) [(main_tick, 100)] (started_ms m) (polls m) ?l = Some r"
        "safe (\<lambda>(st, l'). process_ok conf (world l')) r"
        by (auto simp: outcome_safe)
      have "safe (sound_process conf) (case st of None \<Rightarrow> Inr (Running l') |
          Some st \<Rightarrow> Inr (Exited (exit_code st (fst (world l'))) (Some (fst (world l')))))" if "process_ok conf (world l')" for st l'
        using that by (cases st) (auto simp: sound_process_def process_ok_def exit_code_def split: LoopStatus.split)
      then have "safe (sound_process conf) (bind_res r (\<lambda>(st, l).
          case st of None \<Rightarrow> Inr (Running l) | Some st \<Rightarrow> Inr (Exited (exit_code st (fst (world l))) (Some (fst (world l))))))"
        by (auto intro!: safe_bind [OF r(2)])
      with r(1) main_single_loop [OF s(1) ln [unfolded eqTrueI [OF True]]] show ?thesis by simp
    qed (use s ln in \<open>simp add: main_single_def sound_process_def\<close>)
  qed
qed

lemma start_and_run_sound:
  assumes fresh: "snapshot_file (files m) = None" "log_file (files m) = None"
    and conf: "wal_enabled conf \<Longrightarrow> fsync conf \<noteq> None" and sched: "\<forall>sh. \<exists>tr. shard_run sh tr (snd (threads m sh))"
  shows "\<exists>st so. start_and_run conf m = Inr (st, so) \<and> sound_process conf (Exited (if st = kShardStopped then 0 else 1) so)"
proof -
  obtain b where b: "boot conf (wall_clock m) (files m) = Inr b"
    using boot_fresh_total [OF fresh conf] by blast
  show ?thesis
  proof (cases b)
    case (Refused msg)
    with b show ?thesis by (simp add: start_and_run_def shard_recover_boot sound_process_def)
  next
    case (Serving s)
    with b have s: "life conf s" using life.fresh [OF _ fresh] by auto
    obtain fatal sh where sh: "threads m (shard_start conf s) = (fatal, sh)" by fastforce
    then obtain tr where "shard_run (shard_start conf s) tr sh" using sched by (metis snd_conv)
    from life_run [OF shard_run_core [OF this]] s have "life conf (core sh)" by (simp add: shard_start_def)
    with s b Serving sh show ?thesis
      by (cases "listener_open (sockets m)")
        (simp add: start_and_run_def shard_recover_boot sound_process_def shard_status_def)
  qed
qed



section \<open>What is served survives\<close>

text \<open>A process that has just come up: the calls of its start succeed and it has not polled yet.\<close>

definition comes_up :: "machine \<Rightarrow> bool" where
  "comes_up m \<longleftrightarrow> fst (listener_open (sockets m)) \<and> epoll_made m \<and> ctls m = [] \<and> polls m = []"

lemma main_comes_up:
  assumes "parse_argv (argv m) Config = Inr conf" and "\<not> 1 < nthreads conf" and "comes_up m"
    and "boot conf (wall_clock m) (files m) = Inr (Serving s)"
  shows "\<exists>l. main m = Some (Inr (Running l)) \<and> fst (world l) = s"
proof -
  obtain err ln where ln: "listener_open (sockets m) = (True, err, ln)"
    using assms(3) by (cases "listener_open (sockets m)") (simp add: comes_up_def)
  have "main m = main_single conf m" using assms(1,2) by (simp add: main_def)
  with main_single_loop [OF assms(4) ln] assms(3) show ?thesis
    by (simp add: comes_up_def loop_run_def register_fd_def next_ctl_def EventLoop_def run_polls.simps)
qed

lemma main_Running:
  assumes "main m = Some (Inr (Running l))"
  obtains conf s ln where "parse_argv (argv m) Config = Inr conf" "\<not> 1 < nthreads conf"
    "boot conf (wall_clock m) (files m) = Inr (Serving s)"
    "loop_run main_handler (epoll_made m) [(main_tick, 100)] (started_ms m) (polls m)
       (EventLoop ln conf m (s, tick_sources m)) = Some (Inr (None, l))"
proof -
  obtain conf where conf: "parse_argv (argv m) Config = Inr conf"
    using assms by (cases "parse_argv (argv m) Config") (simp_all add: main_def)
  have one: "\<not> 1 < nthreads conf"
    using assms conf by (auto simp: main_def bind_res_Inr_iff split: if_splits)
  with assms conf have run: "main_single conf m = Some (Inr (Running l))" by (simp add: main_def)
  then obtain s where s: "boot conf (wall_clock m) (files m) = Inr (Serving s)"
    by (auto simp: main_single_def split: sum.splits boot_outcome.splits)
  obtain ok err ln where ln: "listener_open (sockets m) = (ok, err, ln)" by (cases "listener_open (sockets m)")
  with run s have ok by (auto simp: main_single_def split: if_splits)
  with run main_single_loop [OF s] ln
  have "loop_run main_handler (epoll_made m) [(main_tick, 100)] (started_ms m) (polls m)
       (EventLoop ln conf m (s, tick_sources m)) = Some (Inr (None, l))"
    by (auto simp: bind_res_Inr_iff split: option.splits)
  with conf one s show thesis by (rule that)
qed

text \<open>
  Generations of processes. The first one starts on an empty data directory; each next one, with the
  same arguments, on what a kill of the previous one leaves: its log and some bytes of one more record.
\<close>

inductive generation :: "config \<Rightarrow> machine \<Rightarrow> server_world evloop \<Rightarrow> bool" for conf where
  first: "parse_argv (argv m) Config = Inr conf \<Longrightarrow> ticks_in_range (tick_sources m) \<Longrightarrow>
    snapshot_file (files m) = None \<Longrightarrow> log_file (files m) = None \<Longrightarrow> main m = Some (Inr (Running l)) \<Longrightarrow> generation conf m l"
| later: "generation conf m0 l0 \<Longrightarrow> \<not> persistence_failed (fst (world l0)) \<Longrightarrow> crash_disk (fst (world l0)) cmd (files m) \<Longrightarrow>
    wal (fst (world l0)) = Some w \<Longrightarrow> contents w = encode_all recs \<Longrightarrow> list_all (cmd_fits kReplayFrameCap) recs \<Longrightarrow>
    deadlines_from T recs \<Longrightarrow> (\<And>i. wall_clock m i < T) \<Longrightarrow>
    parse_argv (argv m) Config = Inr conf \<Longrightarrow> ticks_in_range (tick_sources m) \<Longrightarrow> main m = Some (Inr (Running l)) \<Longrightarrow>
    generation conf m l"

text \<open>A process in its loop, from the state it booted to.\<close>

lemma running_process:
  assumes "main m = Some (Inr (Running l))" and conf: "parse_argv (argv m) Config = Inr conf"
    and src: "ticks_in_range (tick_sources m)"
    and start: "\<And>s. boot conf (wall_clock m) (files m) = Inr (Serving s) \<Longrightarrow> life conf s"
  shows "\<exists>s0 tr. boot conf (wall_clock m) (files m) = Inr (Serving s0) \<and> \<not> 1 < nthreads conf \<and> life conf (fst (world l)) \<and>
     serves main_handler {main_tick} (s0, tick_sources m) tr (world l) \<and>
     (\<forall>fd c. map_of (conns l) fd = Some c \<and> \<not> close_after_flush c \<longrightarrow>
        (\<exists>old new. answers_to fd tr = old @ new \<and>
           feed (RespParser (cfg_max_frame_bytes conf)) (heard c) = Inr (rparser c, map fst new) \<and>
           wire c @ outbuf c = concat (map snd new)))"
  using assms(1)
proof (cases rule: main_Running)
  case (1 conf' s0 ln)
  with conf have conf': "conf' = conf" by simp
  let ?l = "EventLoop ln conf m (s0, tick_sources m)"
  note run = 1(4) [unfolded conf']
  have l: "conns ?l = []" "world ?l = (s0, tick_sources m)" "cfg ?l = conf" by (simp_all add: EventLoop_def)
  have boot0: "boot conf (wall_clock m) (files m) = Inr (Serving s0)" using 1(3) conf' by simp
  then have "process_ok conf (world ?l)" using start src by (simp add: process_ok_def l(2))
  from running.loop_run_hosted [OF this, of "[(main_tick, 100)]" "epoll_made m" "started_ms m" "polls m"] run
  have "life conf (fst (world l))" by (simp add: process_ok_def)
  with loop_run_transcripts [OF run l(1)] boot0 1(2) conf' show ?thesis unfolding l(2,3) by auto
qed

lemma generation_boots:
  assumes "generation conf m l"
  shows "main m = Some (Inr (Running l)) \<and> parse_argv (argv m) Config = Inr conf \<and> ticks_in_range (tick_sources m) \<and>
     (\<forall>s. boot conf (wall_clock m) (files m) = Inr (Serving s) \<longrightarrow> life conf s)"
  using assms
proof (induction rule: generation.induct)
  case (first m l)
  then show ?case by (auto intro: life.fresh)
next
  case (later m0 l0 cmd m w recs T l)
  then have "life conf (fst (world l0))" using running_process [of m0 l0 conf] by blast
  from life.restart [OF this later.hyps(2-7), of "wall_clock m"] later.hyps(8-) show ?case by blast
qed


lemma demo_set:
  obtains s w where "execute [''SET'', ''k'', ''v''] first_boot = Inr (resp_simple ''OK'', s)" "\<not> persistence_failed s"
    "\<not> shutdown s" "map_of (db s) ''k'' = Some (Str ''v'')" "wal s = Some w" "contents w = encode_all [[''SET'', ''k'', ''v'']]"
proof -
  let ?cmd = "[''SET'', ''k'', ''v'']"
  have "map_sum id (\<lambda>(r, s). (r, persistence_failed s, shutdown s, map_of (db s) ''k'', map_option contents (wal s)))
      (execute ?cmd first_boot) = Inr (resp_simple ''OK'', False, False, Some (Str ''v''), Some (encode ?cmd))"
    by code_simp
  then show thesis by (cases "execute ?cmd first_boot") (auto intro: that)
qed

text \<open>The machine above accepts its client, executes the command and sends the reply.\<close>

lemma demo_runs:
  assumes s: "execute [''SET'', ''k'', ''v''] first_boot = Inr (resp_simple ''OK'', s)" "\<not> shutdown s"
  shows "\<exists>l. main demo = Some (Inr (Running l)) \<and> fst (world l) = s"
proof -
  let ?cmd = "[''SET'', ''k'', ''v'']" and ?src = "tick_sources demo"
  let ?l = "EventLoop \<lparr>lfd = 3, lclosed = []\<rparr> cfg_always demo (first_boot, ?src)"
  have l: "conns ?l = []" "0 < max_clients (cfg ?l)" "accept_script ?l = [Accepted 5]" "ctl_script ?l = []" "5 \<noteq> listen_fd ?l"
    "\<not> stop_requested ?l" "recv_script ?l = [Received (encode ?cmd)]" "send_script ?l = []" "listen_fd ?l = 3" "world ?l = (first_boot, ?src)"
    "cfg ?l = cfg_always"
    by (simp_all add: EventLoop_def demo_def accept_client_def set_nonblocking_def good_sockets_def cfg_always_def Config_def)
  have cmd: "cmd_fits (cfg_max_frame_bytes (cfg ?l)) ?cmd"
    unfolding l(11) by (simp add: cfg_always_def Config_def cmd_fits_def arg_fits_def kMaxArgs_def i64_simps)
  have "length (encode ?cmd) < 64" by code_simp
  then have short: "length (encode ?cmd) < kReadChunk" by (simp add: kReadChunk_def)
  have h: "main_handler ?cmd (world ?l) = Inr ((resp_simple ''OK'', False), s, ?src)"
    using s by (simp add: l(10) main_handler_def handle_command_def)
  obtain l' where l': "loop_run main_handler True [(main_tick, 100)] 0 [Poll [ready_event 3] 1, Poll [ready_event 5] 2] ?l =
      Some (Inr (None, l'))" "world l' = (s, ?src)"
    using one_command_run [where h = main_handler, OF l(1-8) _ cmd short h, of "[(main_tick, 100)]"] l(9) by auto
  have ln: "listener_open (sockets demo) = (True, None, \<lparr>lfd = 3, lclosed = []\<rparr>)"
    by (simp add: listener_open_def demo_def good_sockets_def set_nonblocking_def)
  have boot: "boot cfg_always (wall_clock demo) (files demo) = Inr (Serving first_boot)"
    using first_boot by (simp add: demo_def)
  have "epoll_made demo" "started_ms demo = 0" "polls demo = [Poll [ready_event 3] 1, Poll [ready_event 5] 2]"
    by (simp_all add: demo_def)
  with l'(1) have "main_single cfg_always demo = Some (Inr (Running l'))"
    by (simp add: main_single_loop [OF boot ln])
  moreover have "parse_argv (argv demo) Config = Inr cfg_always" using demo_argv by (simp add: demo_def)
  moreover have "nthreads cfg_always = 1" by (simp add: cfg_always_def Config_def)
  ultimately show ?thesis using l'(2) by (simp add: main_def)
qed


end
