(* ===== verification/Threads.thy ===== *)
theory Threads
  imports Process
begin

text \<open>
  One thread of the multi-threaded server, \<^verbatim>\<open>src/src/core/shard.cpp\<close>, with its own event loop. The other
  threads interfere with the shared server whenever this one does not hold the mutex: an arbitrary
  run of the server, and possibly a request to stop, before each of its critical sections. The
  lemmas are in the style of rely and guarantee: whatever such interference, the clients of the thread get
  the replies to their commands, and the thread itself is such an interference to the others.
\<close>

section \<open>The lambdas of a thread\<close>

text \<open>
  What happens before the critical sections to come: whether another thread has stopped this loop, and
  what the others have made of the server.
\<close>

type_synonym interference = "nat \<Rightarrow> bool \<times> (server \<Rightarrow> server)"

type_synonym thread_world = "server \<times> interference \<times> (nat \<Rightarrow> clock \<times> rng)"

definition thread_handler :: "thread_world command_handler" where
  "thread_handler cmd w =
     (case w of (s, others, src) \<Rightarrow>
        bind_res (execute cmd (snd (others 0) s)) (\<lambda>(reply, s1).
          Inr ((reply, fst (others 0) \<or> shutdown s1), s1, \<lambda>j. others (Suc j), src)))"

text \<open>The maintenance, which runs in the loop of thread 0 only.\<close>

definition thread_tick :: "thread_world \<Rightarrow> (bool \<times> thread_world) option" where
  "thread_tick w =
     (case w of (s, others, src) \<Rightarrow>
        map_option (\<lambda>(fails, s1). (fst (others 0) \<or> fails, s1, \<lambda>j. others (Suc j), \<lambda>j. src (Suc j)))
          (tick (fst (src 0)) (snd (src 0)) (snd (others 0) s)))"

definition thread_ticks :: "nat \<Rightarrow> ((thread_world \<Rightarrow> (bool \<times> thread_world) option) \<times> int) list" where
  "thread_ticks i = (if i = 0 then [(thread_tick, 100)] else [])"

section \<open>Rely and guarantee\<close>

definition fair_play :: "interference \<Rightarrow> bool" where
  "fair_play others \<longleftrightarrow> (\<forall>j s. sys_run s (snd (others j) s))"

text \<open>What the critical sections of the other threads amount to is such an interference.\<close>

lemma shard_run_fair:
  assumes "shard_run sh tr sh'"
  shows "fair_play (\<lambda>j. (b j, if j = n then (\<lambda>s. if s = core sh then core sh' else s) else id))"
  using shard_run_core [OF assms] by (auto simp: fair_play_def intro: sys_run.stay)

lemma sys_run_trans: "sys_run s1 s2 \<Longrightarrow> sys_run s s1 \<Longrightarrow> sys_run s s2"
  by (induction rule: sys_run.induct) (auto intro: sys_run.go)

definition thread_ok :: "config \<Rightarrow> server \<Rightarrow> thread_world \<Rightarrow> bool" where
  "thread_ok conf s0 w \<longleftrightarrow> life conf s0 \<and> sys_run s0 (fst w) \<and> fair_play (fst (snd w)) \<and> ticks_in_range (snd (snd w))"

lemma fair_play_Suc: "fair_play others \<Longrightarrow> sys_run s (snd (others 0) s) \<and> fair_play (\<lambda>j. others (Suc j))"
  by (simp add: fair_play_def)

lemma thread_okE:
  assumes "thread_ok conf s0 w"
  obtains s others src s1 where "w = (s, others, src)" "s1 = snd (others 0) s" "sys_run s0 s1" "life conf s1" "server_wf s1"
    "fair_play (\<lambda>j. others (Suc j))" "ticks_in_range src"
proof -
  obtain s others src where w: "w = (s, others, src)" by (cases w)
  let ?s1 = "snd (others 0) s"
  have "sys_run s0 ?s1" using assms fair_play_Suc [of others s] sys_run_trans by (auto simp: thread_ok_def w)
  moreover from life_run [OF this] have "life conf ?s1" using assms by (simp add: thread_ok_def)
  moreover from life_logged [OF this] have "server_wf ?s1" ..
  ultimately show thesis using that [OF w refl] assms fair_play_Suc [of others s] by (simp add: thread_ok_def w)
qed

interpretation threaded: hosted thread_handler "{thread_tick}" "thread_ok conf s0" "\<lambda>f. f = Signed_overflow" for conf s0
proof
  fix w cmd assume ok: "thread_ok conf s0 w"
  then obtain s others src s1 where w: "w = (s, others, src)" "s1 = snd (others 0) s" "sys_run s0 s1" "server_wf s1"
    "fair_play (\<lambda>j. others (Suc j))" "ticks_in_range src"
    by (rule thread_okE)
  have "sys_run s0 s2" if "execute cmd s1 = Inr (r, s2)" for r s2
    using that sys_run.go [OF w(3) sys_step.command [where cmd = cmd and r = "(r, shutdown s2)"]]
    by (simp add: handle_command_def)
  with execute_safe [OF w(4), of cmd] ok w(5,6)
  show "outcome (\<lambda>f. f = Signed_overflow) (\<lambda>(r, w'). thread_ok conf s0 w') (thread_handler cmd w)"
    by (cases "execute cmd s1") (auto simp: w(1) w(2) [symmetric] thread_handler_def thread_ok_def)
next
  fix fn w assume fn: "fn \<in> {thread_tick}" and ok: "thread_ok conf s0 w"
  then obtain s others src s1 where w: "w = (s, others, src)" "s1 = snd (others 0) s" "sys_run s0 s1" "server_wf s1"
    "fair_play (\<lambda>j. others (Suc j))" "ticks_in_range src"
    by (auto elim: thread_okE)
  note rng = ticks_in_range_Suc [OF w(6)]
  obtain s2 where s2: "tick (fst (src 0)) (snd (src 0)) s1 = Some (persistence_failed s2, s2)"
    using tick_effect [OF w(4) conjunct1 [OF rng]] by blast
  from sys_run.go [OF w(3) sys_step.tick [OF conjunct1 [OF rng] s2]] s2 rng ok w(5)
  show "\<exists>b w'. fn w = Some (b, w') \<and> thread_ok conf s0 w'"
    using fn by (simp add: w(1) w(2) [symmetric] thread_tick_def thread_ok_def)
qed

text \<open>
  The history of the shared server as the thread sees it: before its \<open>n\<close>th critical section the others
  have acted, then it executes a command and answers, or does the \<open>k\<close>th maintenance.
\<close>

inductive interleaved ::
  "interference \<Rightarrow> (nat \<Rightarrow> clock \<times> rng) \<Rightarrow> server \<Rightarrow> answer list \<Rightarrow> nat \<Rightarrow> nat \<Rightarrow> server \<Rightarrow> bool"
  for others src s where
  start: "interleaved others src s [] 0 0 s"
| answer: "interleaved others src s tr n k s1 \<Longrightarrow> execute cmd (snd (others n) s1) = Inr (reply, s2) \<Longrightarrow>
    interleaved others src s (tr @ [(fd, cmd, reply)]) (Suc n) k s2"
| maintain: "interleaved others src s tr n k s1 \<Longrightarrow> tick (fst (src k)) (snd (src k)) (snd (others n) s1) = Some (b, s2) \<Longrightarrow>
    interleaved others src s tr (Suc n) (Suc k) s2"

lemma serves_interleaved:
  "serves thread_handler {thread_tick} (s, others, src) tr w \<Longrightarrow>
     \<exists>n k s'. w = (s', \<lambda>j. others (n + j), \<lambda>j. src (k + j)) \<and> interleaved others src s tr n k s'"
proof (induction rule: serves.induct)
  case idle
  have "interleaved others src s [] 0 0 s" by (rule interleaved.start)
  then show ?case by (intro exI [of _ "0::nat"]) simp
next
  case (answer tr w1 cmd reply stops w2 fd)
  then obtain n k s1 where w1: "w1 = (s1, \<lambda>j. others (n + j), \<lambda>j. src (k + j))" "interleaved others src s tr n k s1" by blast
  with answer.hyps(2) obtain s2 where "execute cmd (snd (others n) s1) = Inr (reply, s2)"
    "w2 = (s2, \<lambda>j. others (Suc n + j), \<lambda>j. src (k + j))"
    by (auto simp: thread_handler_def bind_res_Inr_iff)
  with interleaved.answer [OF w1(2)] show ?case by blast
next
  case (background tr w1 fn b w2)
  then obtain n k s1 where w1: "w1 = (s1, \<lambda>j. others (n + j), \<lambda>j. src (k + j))" "interleaved others src s tr n k s1" by blast
  with background.hyps(2,3) obtain b' s2 where "tick (fst (src k)) (snd (src k)) (snd (others n) s1) = Some (b', s2)"
    "w2 = (s2, \<lambda>j. others (Suc n + j), \<lambda>j. src (Suc k + j))"
    by (auto simp: thread_tick_def)
  with interleaved.maintain [OF w1(2)] show ?case by blast
qed

text \<open>
  C13. The threads together. Let the loop of thread \<open>i\<close> run while the other threads interfere before each
  of its critical sections by any commands and ticks, and by stopping it. It does not fault but by
  overflow, and its ticks return; each command is executed on the state the others left, none of whose
  effects is lost; what it and the others do to the server is a run of commands and ticks, so that the server stays in its life, and the thread is a fair interference to the others;
  and each of its clients in good standing was sent, or is owed, exactly the replies to its commands.
\<close>

theorem threads_serve_their_clients:
  assumes "life conf s" and "fair_play others" and "ticks_in_range src" and "world l = (s, others, src)" and "conns l = []"
  shows "\<exists>r. loop_run thread_handler epoll_ok (thread_ticks i) start_ms ps l = Some r \<and> safe (\<lambda>(st, l').
     sys_run s (fst (world l')) \<and> life conf (fst (world l')) \<and>
     (\<exists>tr n k. interleaved others src s tr n k (fst (world l')) \<and>
       (\<forall>fd c. map_of (conns l') fd = Some c \<and> \<not> close_after_flush c \<longrightarrow>
          (\<exists>old new. answers_to fd tr = old @ new \<and>
             feed (RespParser (cfg_max_frame_bytes (cfg l))) (heard c) = Inr (rparser c, map fst new) \<and>
             wire c @ outbuf c = concat (map snd new))))) r"
proof -
  have ticks: "fst ` set (thread_ticks i) \<subseteq> {thread_tick}" by (auto simp: thread_ticks_def)
  have "thread_ok conf s (world l)" using assms(1-4) by (simp add: thread_ok_def sys_run.stay)
  from threaded.loop_run_hosted [OF this ticks] obtain r where
    r: "loop_run thread_handler epoll_ok (thread_ticks i) start_ms ps l = Some r"
    "safe (\<lambda>(st, l'). thread_ok conf s (world l')) r"
    unfolding outcome_safe by blast
  show ?thesis
  proof (cases r)
    case (Inl f)
    with r show ?thesis by simp
  next
    case (Inr x)
    obtain st l' where x: "x = (st, l')" by fastforce
    have "thread_ok conf s (world l')" using r(2) Inr x by simp
    then have "sys_run s (fst (world l'))" "life conf (fst (world l'))"
      using assms(1) life_run by (auto simp: thread_ok_def)
    moreover obtain tr where tr: "serves thread_handler (fst ` set (thread_ticks i)) (world l) tr (world l')"
      "\<forall>fd c. map_of (conns l') fd = Some c \<and> \<not> close_after_flush c \<longrightarrow>
         (\<exists>old new. answers_to fd tr = old @ new \<and>
            feed (RespParser (cfg_max_frame_bytes (cfg l))) (heard c) = Inr (rparser c, map fst new) \<and>
            wire c @ outbuf c = concat (map snd new))"
      using loop_run_transcripts [OF r(1) [unfolded Inr x] assms(5)] by blast
    moreover obtain n k where "interleaved others src s tr n k (fst (world l'))"
      using serves_interleaved [OF serves_mono [OF tr(1) ticks, unfolded assms(4)]] by auto
    ultimately show ?thesis
      unfolding r(1) Inr x by (intro exI [of _ "Inr (st, l')"] conjI refl) (simp only: safe_simps prod.case, blast)
  qed
qed

text \<open>A client of this thread reads what a client of another thread has just set.\<close>

theorem threads_serve_their_clients_witness:
  "\<exists>others l l' c tr n k old new. fair_play others \<and> world l = (first_boot, others, tick_sources demo) \<and>
     loop_run thread_handler True (thread_ticks 0) 0 [Poll [ready_event 3] 1, Poll [ready_event 5] 2] l = Some (Inr (None, l')) \<and>
     life cfg_always (fst (world l')) \<and> interleaved others (tick_sources demo) first_boot tr n k (fst (world l')) \<and>
     map_of (conns l') 5 = Some c \<and> heard c = encode [''GET'', ''k''] \<and>
     wire c = resp_bulk ''v'' \<and> answers_to 5 tr = old @ new \<and> wire c = concat (map snd new)"
proof -
  let ?set = "[''SET'', ''k'', ''v'']" and ?get = "[''GET'', ''k'']" and ?src = "tick_sources demo"
  have "map_sum id (\<lambda>(r, s). (r, shutdown s)) (bind_res (execute ?set first_boot) (\<lambda>(r, s). execute ?get s)) =
      Inr (resp_bulk ''v'', False)"
    by code_simp
  then obtain r1 s1 s2 where s1: "execute ?set first_boot = Inr (r1, s1)"
    and s2: "execute ?get s1 = Inr (resp_bulk ''v'', s2)" "\<not> shutdown s2"
    by (cases "execute ?set first_boot"; cases "execute ?get (snd (projr (execute ?set first_boot)))") auto
  define others :: interference where "others j = (False, if j = 0 then (\<lambda>s. if s = first_boot then s1 else s) else id)" for j
  have run: "sys_run first_boot s1"
    using sys_run.go [OF sys_run.stay sys_step.command [where cmd = ?set and r = "(r1, shutdown s1)"]] s1
    by (simp add: handle_command_def)
  then have fair: "fair_play others" by (auto simp: fair_play_def others_def intro: sys_run.stay)
  let ?l = "EventLoop \<lparr>lfd = 3, lclosed = []\<rparr> cfg_always (demo\<lparr>receives := [Received (encode ?get)]\<rparr>) (first_boot, others, ?src)"
  have l: "conns ?l = []" "0 < max_clients (cfg ?l)" "accept_script ?l = [Accepted 5]" "ctl_script ?l = []" "5 \<noteq> listen_fd ?l"
    "\<not> stop_requested ?l" "recv_script ?l = [Received (encode ?get)]" "send_script ?l = []" "listen_fd ?l = 3"
    "world ?l = (first_boot, others, ?src)" "cfg ?l = cfg_always"
    by (simp_all add: EventLoop_def demo_def accept_client_def set_nonblocking_def good_sockets_def cfg_always_def Config_def)
  have cmd: "cmd_fits (cfg_max_frame_bytes (cfg ?l)) ?get"
    unfolding l(11) by (simp add: cfg_always_def Config_def cmd_fits_def arg_fits_def kMaxArgs_def i64_simps)
  have "length (encode ?get) < 64" by code_simp
  then have short: "length (encode ?get) < kReadChunk" by (simp add: kReadChunk_def)
  have h: "thread_handler ?get (world ?l) = Inr ((resp_bulk ''v'', False), s2, \<lambda>j. others (Suc j), ?src)"
    using s2 by (simp add: l(10) thread_handler_def) (simp add: others_def)
  have ticks: "\<forall>(fn, i) \<in> set (thread_ticks 0). 2 < i" by (simp add: thread_ticks_def)
  obtain l' c where l': "loop_run thread_handler True (thread_ticks 0) 0 [Poll [ready_event 3] 1, Poll [ready_event 5] 2] ?l =
      Some (Inr (None, l'))" "map_of (conns l') 5 = Some c" "\<not> close_after_flush c" "heard c = encode ?get" "wire c = resp_bulk ''v''"
      "outbuf c = []"
    using one_command_run [where h = thread_handler, OF l(1-8) ticks cmd short h] l(9) by auto
  from threads_serve_their_clients [OF life_first_boot fair demo_ticks l(10,1), of True 0 0 "[Poll [ready_event 3] 1, Poll [ready_event 5] 2]"]
  obtain tr n k where tr: "life cfg_always (fst (world l'))" "interleaved others ?src first_boot tr n k (fst (world l'))"
    "\<And>fd c. map_of (conns l') fd = Some c \<and> \<not> close_after_flush c \<longrightarrow>
       (\<exists>old new. answers_to fd tr = old @ new \<and>
          feed (RespParser (cfg_max_frame_bytes (cfg ?l))) (heard c) = Inr (rparser c, map fst new) \<and>
          wire c @ outbuf c = concat (map snd new))"
    unfolding l'(1) by auto
  from tr(3) [of 5 c] l'(2,3,6) obtain old new where "answers_to 5 tr = old @ new" "wire c = concat (map snd new)" by auto
  with l' l(10) fair tr(1,2) show ?thesis
    by (intro exI [of _ others] exI [of _ ?l] exI [of _ l'] exI [of _ c] exI [of _ tr] exI [of _ n] exI [of _ k] exI [of _ old] exI [of _ new]) simp
qed

end
