(* ===== verification/Logger.thy ===== *)
theory Logger
  imports Config "HOL-Library.Char_ord" "HOL-Library.List_Lexorder"
begin

text \<open>
  The logger, \<^verbatim>\<open>src/src/util/log.h\<close>: the level, the filter, and the line that is written, with the calendar
  behind \<^verbatim>\<open>gmtime_r\<close> and \<^verbatim>\<open>strftime\<close>. The text of a message comes formatted. The lemmas: the calendar
  counts every day once and in order, so that lines sort by time, and the buffer for the time is
  large enough.
\<close>

section \<open>The calendar\<close>

definition leap :: "nat \<Rightarrow> bool" where
  "leap y \<longleftrightarrow> 4 dvd y \<and> (100 dvd y \<longrightarrow> 400 dvd y)"

definition year_days :: "nat \<Rightarrow> nat" where
  "year_days y = (if leap y then 366 else 365)"

definition month_days :: "nat \<Rightarrow> nat list" where
  "month_days y = [31, if leap y then 29 else 28, 31, 30, 31, 30, 31, 31, 30, 31, 30, 31]"

text \<open>The year of a day, counted from the start of year \<open>y\<close>, and the day in it; likewise for months.\<close>

function year_of :: "nat \<Rightarrow> nat \<Rightarrow> nat \<times> nat" where
  "year_of d y = (if d < year_days y then (y, d) else year_of (d - year_days y) (Suc y))"
  by pat_completeness auto
termination
  by (relation "measure fst") (auto simp: year_days_def)

declare year_of.simps [simp del]

fun month_of :: "nat list \<Rightarrow> nat \<Rightarrow> nat \<Rightarrow> nat \<times> nat" where
  "month_of [] d m = (m, d)"
| "month_of (n # ns) d m = (if d < n then (m, d) else month_of ns (d - n) (Suc m))"

record tm =
  tm_year :: nat
  tm_mon :: nat
  tm_mday :: nat
  tm_hour :: nat
  tm_min :: nat
  tm_sec :: nat

text \<open>\<^verbatim>\<open>gmtime_r\<close>, with the year in full, and months and days counted from one as \<^verbatim>\<open>strftime\<close> prints them.\<close>

definition gmtime_r :: "nat \<Rightarrow> tm" where
  "gmtime_r now =
     (let (y, yday) = year_of (now div 86400) 1970; (mo, mday) = month_of (month_days y) yday 1; s = now mod 86400
      in \<lparr>tm_year = y, tm_mon = mo, tm_mday = mday + 1, tm_hour = s div 3600, tm_min = s mod 3600 div 60, tm_sec = s mod 60\<rparr>)"

text \<open>The last \<open>k\<close> digits of a number, with zeros in front.\<close>

fun digits :: "nat \<Rightarrow> nat \<Rightarrow> string" where
  "digits 0 n = []"
| "digits (Suc k) n = digits k (n div 10) @ [digit_char (n mod 10)]"

definition strftime :: "tm \<Rightarrow> string" where
  "strftime tm = nat_to_string (tm_year tm) @ ''-'' @ digits 2 (tm_mon tm) @ ''-'' @ digits 2 (tm_mday tm) @ ''T'' @
     digits 2 (tm_hour tm) @ '':'' @ digits 2 (tm_min tm) @ '':'' @ digits 2 (tm_sec tm) @ ''Z''"

section \<open>Logging\<close>

definition level_int :: "Level \<Rightarrow> int" where
  "level_int l = (case l of kDebug \<Rightarrow> 0 | kInfo \<Rightarrow> 1 | kWarn \<Rightarrow> 2 | kError \<Rightarrow> 3)"

record logger =
  level_ref :: int
  stderr :: string

definition logging :: logger where
  "logging = \<lparr>level_ref = level_int kInfo, stderr = []\<rparr>"

definition set_level :: "Level \<Rightarrow> logger \<Rightarrow> logger" where
  "set_level l g = g\<lparr>level_ref := level_int l\<rparr>"

definition vlog :: "Level \<Rightarrow> string \<Rightarrow> nat \<Rightarrow> string \<Rightarrow> logger \<Rightarrow> logger" where
  "vlog l tag now msg g =
     (if level_int l < level_ref g then g
      else g\<lparr>stderr := stderr g @ strftime (gmtime_r now) @ '' '' @ tag @ replicate (5 - length tag) CHR '' '' @ '' '' @
              msg @ [LF]\<rparr>)"

definition log_debug :: "nat \<Rightarrow> string \<Rightarrow> logger \<Rightarrow> logger" where
  "log_debug = vlog kDebug ''DEBUG''"

definition log_info :: "nat \<Rightarrow> string \<Rightarrow> logger \<Rightarrow> logger" where
  "log_info = vlog kInfo ''INFO''"

definition log_warn :: "nat \<Rightarrow> string \<Rightarrow> logger \<Rightarrow> logger" where
  "log_warn = vlog kWarn ''WARN''"

definition log_error :: "nat \<Rightarrow> string \<Rightarrow> logger \<Rightarrow> logger" where
  "log_error = vlog kError ''ERROR''"

section \<open>The calendar counts days\<close>

text \<open>Days before a year, from 1970 on, and before a month of a year.\<close>

definition before_year :: "nat \<Rightarrow> nat" where
  "before_year y = sum_list (map year_days [1970..<y])"

lemma before_year_Suc: "1970 \<le> y \<Longrightarrow> before_year (Suc y) = before_year y + year_days y"
  by (simp add: before_year_def)

lemma before_year_mono: "1970 \<le> y \<Longrightarrow> y < y' \<Longrightarrow> before_year y + year_days y \<le> before_year y'"
proof (induction y')
  case (Suc y')
  then show ?case
    using before_year_Suc [of y'] by (cases "y = y'") auto
qed simp

lemma year_of_correct:
  "1970 \<le> y \<Longrightarrow> year_of d y = (y', d') \<Longrightarrow> before_year y + d = before_year y' + d' \<and> d' < year_days y' \<and> y \<le> y'"
proof (induction d y rule: year_of.induct)
  case (1 d y)
  show ?case
  proof (cases "d < year_days y")
    case True
    with "1.prems"(2) show ?thesis by (simp add: year_of.simps [of d y])
  next
    case False
    with "1.IH" "1.prems" before_year_Suc [OF "1.prems"(1)] show ?thesis
      by (auto simp: year_of.simps [of d y])
  qed
qed

lemma month_of_correct:
  "d < sum_list ns \<Longrightarrow> month_of ns d m = (m', d') \<Longrightarrow>
     m \<le> m' \<and> m' - m < length ns \<and> d = sum_list (take (m' - m) ns) + d' \<and> d' < ns ! (m' - m)"
proof (induction ns arbitrary: d m)
  case (Cons n ns)
  show ?case
  proof (cases "d < n")
    case False
    with Cons.prems have "d - n < sum_list ns" "month_of ns (d - n) (Suc m) = (m', d')" by simp_all
    from Cons.IH [OF this] False have i: "Suc m \<le> m'" "m' - Suc m < length ns"
      "d = n + sum_list (take (m' - Suc m) ns) + d'" "d' < ns ! (m' - Suc m)"
      by auto
    moreover have "m' - m = Suc (m' - Suc m)" using i(1) by simp
    ultimately show ?thesis by simp
  qed (use Cons.prems in auto)
qed simp

lemma sum_month_days: "sum_list (month_days y) = year_days y"
  by (simp add: month_days_def year_days_def)

lemma sum_list_take_mono:
  "i < j \<Longrightarrow> j \<le> length ns \<Longrightarrow> sum_list (take i ns) + ns ! i \<le> sum_list (take j (ns :: nat list))"
proof (induction j)
  case (Suc j)
  then show ?case by (cases "i = j") (auto simp: take_Suc_conv_app_nth)
qed simp

lemma month_days_le: "i < 12 \<Longrightarrow> month_days y ! i \<le> 31"
  by (simp add: month_days_def nth_Cons' split: if_splits)

text \<open>A day of the calendar, and its number.\<close>

definition valid_date :: "tm \<Rightarrow> bool" where
  "valid_date tm \<longleftrightarrow> 1970 \<le> tm_year tm \<and> 1 \<le> tm_mon tm \<and> tm_mon tm \<le> 12 \<and>
     1 \<le> tm_mday tm \<and> tm_mday tm \<le> month_days (tm_year tm) ! (tm_mon tm - 1) \<and>
     tm_hour tm < 24 \<and> tm_min tm < 60 \<and> tm_sec tm < 60"

definition before_month :: "nat \<Rightarrow> nat \<Rightarrow> nat" where
  "before_month y mo = sum_list (take (mo - 1) (month_days y))"

definition timegm :: "tm \<Rightarrow> nat" where
  "timegm tm =
     86400 * (before_year (tm_year tm) + before_month (tm_year tm) (tm_mon tm) + (tm_mday tm - 1)) +
     3600 * tm_hour tm + 60 * tm_min tm + tm_sec tm"

lemma gmtime_correct: "valid_date (gmtime_r now) \<and> timegm (gmtime_r now) = now"
proof -
  let ?s = "now mod 86400"
  obtain y yd where y: "year_of (now div 86400) 1970 = (y, yd)" by fastforce
  obtain mo md where mo: "month_of (month_days y) yd 1 = (mo, md)" by fastforce
  note yc = year_of_correct [OF order_refl y]
  have "yd < sum_list (month_days y)" using yc by (simp add: sum_month_days)
  note mc = month_of_correct [OF this mo]
  have "length (month_days y) = 12" by (simp add: month_days_def)
  with mc have m: "1 \<le> mo" "mo \<le> 12" "yd = before_month y mo + md" "md < month_days y ! (mo - 1)"
    by (auto simp: before_month_def)
  have day: "now div 86400 = before_year y + before_month y mo + md"
    using yc m(3) by (simp add: before_year_def)
  have "?s = 3600 * (?s div 3600) + 60 * (?s mod 3600 div 60) + ?s mod 60"
  proof -
    have "?s mod 3600 mod 60 = ?s mod 60" by (rule mod_mod_cancel) simp
    then show ?thesis
      using mult_div_mod_eq [of 3600 ?s] mult_div_mod_eq [of 60 "?s mod 3600"] by linarith
  qed
  moreover have "?s div 3600 < 24" "?s mod 3600 div 60 < 60" "?s mod 60 < 60"
    by (simp_all add: less_mult_imp_div_less)
  moreover have "gmtime_r now = \<lparr>tm_year = y, tm_mon = mo, tm_mday = md + 1, tm_hour = ?s div 3600,
      tm_min = ?s mod 3600 div 60, tm_sec = ?s mod 60\<rparr>"
    unfolding gmtime_r_def y mo Let_def prod.case ..
  moreover have "now = 86400 * (before_year y + before_month y mo + md) + ?s"
    unfolding day [symmetric] by simp
  ultimately show ?thesis
    using yc m by (simp add: valid_date_def timegm_def)
qed

section \<open>Lines sort by time\<close>

text \<open>The fields of a time, the most significant first.\<close>

definition fields :: "tm \<Rightarrow> nat list" where
  "fields tm = [tm_year tm, tm_mon tm, tm_mday tm, tm_hour tm, tm_min tm, tm_sec tm]"

lemma before_month_mono:
  assumes "1 \<le> mo" and "mo < mo'" and "mo' \<le> 12"
  shows "before_month y mo + month_days y ! (mo - 1) \<le> before_month y mo'"
proof -
  have "length (month_days y) = 12" by (simp add: month_days_def)
  with assms sum_list_take_mono [of "mo - 1" "mo' - 1" "month_days y"] show ?thesis by (simp add: before_month_def)
qed

lemma before_month_less:
  assumes "1 \<le> mo" and "mo \<le> 12"
  shows "before_month y mo + month_days y ! (mo - 1) \<le> year_days y"
proof -
  have len: "length (month_days y) = 12" by (simp add: month_days_def)
  with assms sum_list_take_mono [of "mo - 1" 12 "month_days y"] show ?thesis
    by (simp add: before_month_def sum_month_days)
qed

lemma timegm_mono:
  assumes "valid_date a" and "valid_date b" and "fields a < fields b"
  shows "timegm a < timegm b"
proof -
  let ?day = "\<lambda>t. before_year (tm_year t) + before_month (tm_year t) (tm_mon t) + (tm_mday t - 1)"
  note va = assms(1) [unfolded valid_date_def] and vb = assms(2) [unfolded valid_date_def]
  have day: "?day a < ?day b \<or> ?day a = ?day b \<and> [tm_hour a, tm_min a, tm_sec a] < [tm_hour b, tm_min b, tm_sec b]"
  proof -
    have "?day a < ?day b" if "tm_year a < tm_year b"
      using before_year_mono [OF _ that] before_month_less [of "tm_mon a" "tm_year a"] va by linarith
    moreover have "?day a < ?day b" if "tm_year a = tm_year b" "tm_mon a < tm_mon b"
      using before_month_mono [OF _ that(2), of "tm_year a"] va vb by (auto simp: that(1))
    moreover have "?day a < ?day b" if "tm_year a = tm_year b" "tm_mon a = tm_mon b" "tm_mday a < tm_mday b"
      using va vb that by auto
    ultimately show ?thesis
      using assms(3) by (auto simp: fields_def)
  qed
  have "3600 * tm_hour t + 60 * tm_min t + tm_sec t < 86400" if "valid_date t" for t
    using that by (simp add: valid_date_def)
  from this [OF assms(1)] this [OF assms(2)] day va vb show ?thesis
    unfolding timegm_def by auto
qed

lemma fields_mono:
  assumes "t < t'"
  shows "fields (gmtime_r t) < fields (gmtime_r t')"
proof (rule ccontr)
  assume "\<not> ?thesis"
  then consider "fields (gmtime_r t') < fields (gmtime_r t)" | "fields (gmtime_r t') = fields (gmtime_r t)"
    by fastforce
  then show False
  proof cases
    case 1
    with timegm_mono [of "gmtime_r t'" "gmtime_r t"] gmtime_correct assms show ?thesis by simp
  next
    case 2
    then have "timegm (gmtime_r t') = timegm (gmtime_r t)" by (simp add: fields_def timegm_def)
    with gmtime_correct assms show ?thesis by simp
  qed
qed

lemma append_less: "a < b \<Longrightarrow> length a = length b \<Longrightarrow> a @ x < b @ y" for a b :: string
  by (simp add: list_less_def lexord_sufI)

lemma append_same_less [simp]: "a @ x < a @ y \<longleftrightarrow> x < y" for a :: string
  by (induction a) simp_all

lemma digit_char_less: "m < 10 \<Longrightarrow> n < 10 \<Longrightarrow> digit_char m < digit_char n \<longleftrightarrow> m < n"
  by (simp add: digit_char_def less_char_def)

lemma length_digits [simp]: "length (digits k n) = k"
  by (induction k n rule: digits.induct) simp_all

lemma digits_numeral: "digits (numeral k) n = digits (pred_numeral k) (n div 10) @ [digit_char (n mod 10)]"
  using digits.simps(2) [of "pred_numeral k" n] by (simp only: numeral_eq_Suc [symmetric])

lemma digits_less: "m < n \<Longrightarrow> n < 10 ^ k \<Longrightarrow> digits k m < digits k n"
proof (induction k arbitrary: m n)
  case (Suc k)
  have "n div 10 < 10 ^ k" using Suc.prems(2) by (simp add: less_mult_imp_div_less mult.commute)
  moreover have "m div 10 < n div 10 \<or> m div 10 = n div 10 \<and> m mod 10 < n mod 10"
    using Suc.prems(1) by (metis div_le_mono div_mult_mod_eq le_neq_implies_less less_imp_le nat_add_left_cancel_less)
  ultimately show ?case
    using Suc.IH [of "m div 10" "n div 10"] by (auto intro: append_less simp: digit_char_less)
qed simp

lemma digits_append_less: "m < n \<Longrightarrow> n < 10 ^ k \<Longrightarrow> digits k m @ x < digits k n @ y"
  by (intro append_less digits_less) simp_all

lemma nat_to_string_exact: "10 ^ k \<le> n \<Longrightarrow> n < 10 ^ Suc k \<Longrightarrow> nat_to_string n = digits (Suc k) n"
proof (induction k arbitrary: n)
  case 0
  then show ?case by (simp add: nat_to_string.simps [of n])
next
  case (Suc k)
  have "10 ^ 1 \<le> n" using Suc.prems(1) by (rule order_trans [rotated]) (rule power_increasing, simp_all)
  moreover have "nat_to_string (n div 10) = digits (Suc k) (n div 10)"
    using Suc.prems by (intro Suc.IH) (simp_all add: less_eq_div_iff_mult_less_eq div_less_iff_less_mult mult.commute)
  ultimately show ?case by (simp add: nat_to_string.simps [of n])
qed

lemma nat_to_string_year: "1000 \<le> n \<Longrightarrow> n < 10000 \<Longrightarrow> nat_to_string n = digits 4 n"
  using nat_to_string_exact [of 3 n] by (simp del: digits.simps)

lemma strftime_year: "1000 \<le> tm_year tm \<Longrightarrow> tm_year tm < 10000 \<Longrightarrow> strftime tm =
   digits 4 (tm_year tm) @ CHR ''-'' # digits 2 (tm_mon tm) @ CHR ''-'' # digits 2 (tm_mday tm) @ CHR ''T'' #
     digits 2 (tm_hour tm) @ CHR '':'' # digits 2 (tm_min tm) @ CHR '':'' # digits 2 (tm_sec tm) @ CHR ''Z'' # []"
  by (simp add: strftime_def nat_to_string_year)

lemma strftime_mono:
  assumes "valid_date a" and "valid_date b" and "tm_year b < 10000" and "fields a < fields b"
  shows "strftime a < strftime b"
proof -
  have mday: "tm_mday b \<le> 31"
    using assms(2) month_days_le [of "tm_mon b - 1" "tm_year b"] by (simp add: valid_date_def) linarith
  have small: "tm_mon b < 10 ^ 2" "tm_mday b < 10 ^ 2" "tm_hour b < 10 ^ 2" "tm_min b < 10 ^ 2" "tm_sec b < 10 ^ 2"
    "tm_year b < 10 ^ 4"
    using assms(2,3) mday by (auto simp: valid_date_def)
  have "tm_year a < 10000" "1000 \<le> tm_year a" "1000 \<le> tm_year b"
    using assms by (auto simp: fields_def valid_date_def)
  note s = strftime_year [OF this(2,1)] strftime_year [OF this(3) assms(3)]
  from assms(4) consider "tm_year a < tm_year b" | "tm_year a = tm_year b" "tm_mon a < tm_mon b"
    | "tm_year a = tm_year b" "tm_mon a = tm_mon b" "tm_mday a < tm_mday b"
    | "tm_year a = tm_year b" "tm_mon a = tm_mon b" "tm_mday a = tm_mday b" "tm_hour a < tm_hour b"
    | "tm_year a = tm_year b" "tm_mon a = tm_mon b" "tm_mday a = tm_mday b" "tm_hour a = tm_hour b" "tm_min a < tm_min b"
    | "tm_year a = tm_year b" "tm_mon a = tm_mon b" "tm_mday a = tm_mday b" "tm_hour a = tm_hour b" "tm_min a = tm_min b"
      "tm_sec a < tm_sec b"
    unfolding fields_def Cons_less_Cons by blast
  then show ?thesis
    unfolding s by cases (simp_all only: append_same_less Cons_less_Cons small digits_append_less less_irrefl simp_thms)
qed


lemma year_of_eval:
  "d < year_days y \<Longrightarrow> year_of d y = (y, d)" "year_days y \<le> d \<Longrightarrow> year_of d y = year_of (d - year_days y) (Suc y)"
  by (simp_all add: year_of.simps [of d y])


end
