(* ===== verification/Spec2Isabelle.thy ===== *)
theory Spec2Isabelle
  imports Deviations Timeless Semantics Baseline Threads Logger
begin

text \<open>
  A verification library for hermitdb, an in-memory key-value server that speaks the Redis protocol
  (RESP2), expires keys, and keeps a write-ahead log.

  \<^bold>\<open>The program.\<close> The process (\<^verbatim>\<open>src/src/main.cpp\<close>) parses its arguments (\<^verbatim>\<open>util/config.cpp\<close>), recovers the
  keyspace from a snapshot (\<^verbatim>\<open>persist/snapshot.cpp\<close>) and then the log (\<^verbatim>\<open>persist/wal.cpp\<close>), opens the
  listener (\<^verbatim>\<open>net/listener.cpp\<close>) and runs an epoll loop (\<^verbatim>\<open>net/event_loop.cpp\<close>). The loop feeds the bytes
  of each client to a parser (\<^verbatim>\<open>protocol/resp_parser.cpp\<close>), gives every command to the dispatcher
  (\<^verbatim>\<open>core/commands.cpp\<close>), which acts on the keyspace (\<^verbatim>\<open>core/db.cpp\<close>) and the deadlines
  (\<^verbatim>\<open>core/expiry.cpp\<close>), logs what changed and prints a reply (\<^verbatim>\<open>protocol/resp_writer.cpp\<close>); every 100 ms a
  tick evicts expired keys and flushes the log. With several threads (\<^verbatim>\<open>core/shard.cpp\<close>) each runs a
  loop of its own over the same objects behind one mutex.

  \<^bold>\<open>How code becomes definitions.\<close> Strings are lists of bytes. A 64-bit signed number is an integer whose
  range is checked at each operation of the source that could leave it; leaving it, taking from an
  empty deque, a wrong variant access and dereferencing an empty optional are values of type \<open>fault\<close>,
  so that undefined behaviour is a result and its absence a theorem. Objects are records that each
  method takes and returns. Time is the sequence of the readings to come, with any values. What the
  operating system answers (files, sockets, epoll, \<^verbatim>\<open>fsync\<close>), the random draws of the expiry cycle and the
  choices of the thread scheduler are arguments; where a theorem needs something of them, it is a
  hypothesis: random draws are within the range asked for, and the threads make some run of their
  critical sections.

  \<^bold>\<open>Theories.\<close>
  \<^item> \<open>Hermit_Prelude\<close>, \<open>Hermit_Interfaces\<close>: faults and results, numbers and bytes; the interfaces (keyed
    stores, consumers of a chunked stream, self-delimiting codecs, safe services) as locales, which the
    components interpret. \<open>Process\<close> has one more, for what the owner of an event loop promises it.
  \<^item> \<open>Resp_Parser\<close>, \<open>Resp_Writer\<close>, \<open>Wal_Format\<close>: the parser, independent of how its input is cut; replies;
    records, which are read back as written, and of which a torn log yields the whole ones.
  \<^item> \<open>Replies\<close>: reply values; a stream of replies has one reading; every command answers in its type.
  \<^item> \<open>Db\<close>, \<open>Glob\<close>: the keyspace with its invariant (no empty list); the iterative pattern matcher decides
    the recursive semantics.
  \<^item> \<open>Hermit_Clock\<close>, \<open>Expiry\<close>: clocks; the slot vector with its index is a map from keys to deadlines, and
    the active cycle returns and evicts expired keys only.
  \<^item> \<open>Wal\<close>: appending, flushing, replay and truncation, against scripted failures of each call.
  \<^item> \<open>Commands\<close>, \<open>Command_Laws\<close>: every handler, the command table, \<^verbatim>\<open>log_mutation\<close> and \<^verbatim>\<open>execute\<close>; no handler
    faults but by overflow, and all keep the invariant.
  \<^item> \<open>Semantics\<close>: the same commands specified on the map of living keys, and that they meet it.
  \<^item> \<open>Redo_Log\<close>, \<open>Recovery\<close>: the records of a command redo its effect before any deadline they name.
  \<^item> \<open>Frame\<close>, \<open>Timeless\<close>: a command keeps to the keys it names; keys that never had a deadline survive a
    restart at any time.
  \<^item> \<open>Snapshot\<close>: the file format; what is saved loads back, and a cut file is refused.
  \<^item> \<open>Config\<close>: the command line, within its bounds.
  \<^item> \<open>Server\<close>: handler, tick and boot of \<^verbatim>\<open>main.cpp\<close>; lives of a server, with crash recovery, durability of
    acknowledged writes, absence of faults and the failure latch.
  \<^item> \<open>Baseline\<close>: snapshot and log together restore the last state.
  \<^item> \<open>Shard\<close>: threads and the mutex; runs are runs of the server, and no increment is lost.
  \<^item> \<open>Listener\<close>, \<open>Event_Loop\<close>, \<open>Loop_Laws\<close>, \<open>Reactor\<close>: sockets, connections and the loop over any handler;
    its limits, flushing, ticks and stale events; each client gets the replies to its own commands, in
    the turn that reads them when the kernel takes them.
  \<^item> \<open>Process\<close>: all of \<^verbatim>\<open>main\<close>, and the components together: what clients were told survives any number of
    kills, the process is sound from its arguments to its exit code, and stops when persistence has failed.
  \<^item> \<open>Threads\<close>: the event loop of one reactor thread under interference of the others, by rely and
    guarantee.
  \<^item> \<open>Logger\<close>: levels and lines of the log, with the calendar; lines sort by time.
  \<^item> \<open>Hash\<close>: FNV-1a on words of 64 bits.
  \<^item> \<open>Deviations\<close>: runs on which the code departs from its comments or from what it means to do.

  \<^bold>\<open>Termination.\<close> The parser, replay and the command loops are total functions. The glob matcher and the
  active expiry cycle are partial functions, shown to return on all inputs (for the cycle, when the
  draws are in range). The event loop runs over a list of polls of any length; it is given no fuel
  other than that, and what is stated of it holds after every such list.

  \<^bold>\<open>Limits of the statements.\<close> Crash recovery asks that the restart comes before any deadline in the log:
  replay evaluates deadlines against the new clock, and \<open>Deviations\<close> shows what happens otherwise. It
  asks that records fit the limits of the replay parser, for the reason shown there. Threads
  interleave between critical sections only, as the mutex makes them; a loop notices that another
  thread has stopped it with its next critical section, or, at the end of a list of polls, not at all. The
  difference of two clock readings in \<^verbatim>\<open>tick_fsync\<close> and the end of the time budget of the active expiry
  cycle are exact integers: readings are taken to be far from the ends of 64 bits there. Deadlines that
  clients give are checked at their width.

  \<^bold>\<open>Not modelled.\<close> Which messages are logged where, and the formatting of their arguments; the logger itself
  is in \<open>Logger\<close>. The disposition of SIGPIPE; socket options without an effect on the data; destructors, which
  only close descriptors; memory exhaustion; and the iteration order of \<^verbatim>\<open>std::unordered_map\<close>, in place of
  which the keyspace has the order of its association list.
\<close>

end
